(* ===== verification/Alos_Prelude.thy ===== *)
theory Alos_Prelude
  imports Main "HOL-Library.Word" "HOL-Library.Monad_Syntax"
begin

text \<open>
  Shared vocabulary of the development: the machine integers of the kernel, C arrays as lists
  with checked access, the search and counting loops that recur in the sources, and the lemmas
  about them that carry the proofs of the component theories.

  A C operation that may read or write outside an object returns an \<open>option\<close>: \<open>None\<close> stands for
  undefined behaviour, never for an error that the code reports.
\<close>

unbundle bit_operations_syntax

section \<open>Machine integers\<close>

type_synonym u8 = "8 word"
type_synonym u16 = "16 word"
type_synonym u32 = "32 word"
type_synonym u64 = "64 word"
type_synonym bytes = "u8 list"

named_theorems c_defs "constants of the sources, unfolded to numerals"

lemma unat_u64_lt: "unat (x :: u64) < 18446744073709551616"
  using unsigned_less [of x] by simp

lemma unat_u8_lt: "unat (x :: u8) < 256"
  using unsigned_less [of x] by simp

lemma unat_u16_lt: "unat (x :: u16) < 65536"
  using unsigned_less [of x] by simp

lemma unat_u32_lt: "unat (x :: u32) < 4294967296"
  using unsigned_less [of x] by simp

lemma of_nat_unat_id: "of_nat (unat (x :: 'a::len word)) = x"
  by simp

lemma unat_of_nat_u64 [simp]: "n < 18446744073709551616 \<Longrightarrow> unat (of_nat n :: u64) = n"
  by (simp add: unat_of_nat)

lemma unat_add_u64:
  "unat (a :: u64) + unat b < 18446744073709551616 \<Longrightarrow> unat (a + b) = unat a + unat b"
  by (simp add: unat_word_ariths)

lemma unat_sub_u64: "b \<le> (a :: u64) \<Longrightarrow> unat (a - b) = unat a - unat b"
  by (rule unat_sub)

lemma unat_mult_u64:
  "unat (a :: u64) * unat b < 18446744073709551616 \<Longrightarrow> unat (a * b) = unat a * unat b"
  by (simp add: unat_word_ariths)

lemma unat_inc_u64:
  "unat (a :: u64) < 18446744073709551615 \<Longrightarrow> unat (a + 1) = Suc (unat a)"
  by (simp add: unat_add_u64)

lemma unat_dec_u64: "0 < unat (a :: u64) \<Longrightarrow> unat (a - 1) = unat a - 1"
  by (subst unat_sub) (auto simp: word_le_nat_alt)

lemma u64_0_1_or_more: "(c :: u64) = 0 \<or> c = 1 \<or> 2 \<le> unat c"
proof -
  have "unat c = 0 \<or> unat c = unat (1 :: u64) \<or> 2 \<le> unat c" by auto
  then show ?thesis by (auto simp only: word_unat_eq_iff unat_0)
qed

text \<open>Clearing the low bits rounds down to a multiple of a power of two.\<close>

lemma unat_and_not_mask: "unat ((x :: 'a::len word) AND NOT (mask n)) = unat x div 2 ^ n * 2 ^ n"
proof -
  have eq: "x AND NOT (mask n) = push_bit n (drop_bit n x)"
    by (rule bit_word_eqI) (auto simp: bit_simps)
  have lt: "unat x div 2 ^ n * 2 ^ n < 2 ^ LENGTH('a)"
    using unsigned_less [of x] div_times_less_eq_dividend [of "unat x" "2 ^ n"]
    by (rule le_less_trans [rotated])
  have "unat (push_bit n (drop_bit n x)) = take_bit LENGTH('a) (push_bit n (drop_bit n (unat x)))"
    by (simp only: unsigned_push_bit_eq unsigned_drop_bit_eq)
       (simp add: drop_bit_eq_div take_bit_nat_eq_self lt)
  also have "\<dots> = unat x div 2 ^ n * 2 ^ n"
    using lt by (simp add: push_bit_eq_mult drop_bit_eq_div take_bit_nat_eq_self)
  finally show ?thesis by (simp only: eq)
qed

lemma unat_align_down_4096: "unat ((x :: u64) AND - 4096) = unat x div 4096 * 4096"
proof -
  have "(- 4096 :: u64) = NOT (mask 12)" by (simp add: not_eq_complement mask_eq_exp_minus_1)
  then show ?thesis using unat_and_not_mask [of x 12] by simp
qed

lemma unat_align_down_8: "unat ((x :: u64) AND - 8) = unat x div 8 * 8"
proof -
  have "(- 8 :: u64) = NOT (mask 3)" by (simp add: not_eq_complement mask_eq_exp_minus_1)
  then show ?thesis using unat_and_not_mask [of x 3] by simp
qed

section \<open>C arrays\<close>

text \<open>Checked access: an index outside the array is undefined behaviour.\<close>

definition aget :: "'a list \<Rightarrow> nat \<Rightarrow> 'a option" where
  "aget xs i = (if i < length xs then Some (xs ! i) else None)"

definition aset :: "'a list \<Rightarrow> nat \<Rightarrow> 'a \<Rightarrow> 'a list option" where
  "aset xs i v = (if i < length xs then Some (xs[i := v]) else None)"

lemma aget_in [simp]: "i < length xs \<Longrightarrow> aget xs i = Some (xs ! i)"
  by (simp add: aget_def)

lemma aget_out [simp]: "length xs \<le> i \<Longrightarrow> aget xs i = None"
  by (simp add: aget_def)

lemma aset_in [simp]: "i < length xs \<Longrightarrow> aset xs i v = Some (xs[i := v])"
  by (simp add: aset_def)

lemma aset_out [simp]: "length xs \<le> i \<Longrightarrow> aset xs i v = None"
  by (simp add: aset_def)

section \<open>Search loops\<close>

text \<open>
  \<^verbatim>\<open>for (i = 0; i < n; i++) if (P(a[i])) return i;\<close> is the least index whose element
  satisfies \<open>P\<close>.
\<close>

primrec first_index :: "('a \<Rightarrow> bool) \<Rightarrow> 'a list \<Rightarrow> nat option" where
  "first_index P [] = None"
| "first_index P (x # xs) = (if P x then Some 0 else map_option Suc (first_index P xs))"

lemma first_index_None_iff: "first_index P xs = None \<longleftrightarrow> (\<forall>x \<in> set xs. \<not> P x)"
  by (induction xs) auto

lemma first_index_SomeD:
  "first_index P xs = Some i \<Longrightarrow> i < length xs \<and> P (xs ! i) \<and> (\<forall>j < i. \<not> P (xs ! j))"
proof (induction xs arbitrary: i)
  case Nil
  then show ?case by simp
next
  case (Cons x xs)
  show ?case
  proof (cases "P x")
    case True
    with Cons.prems show ?thesis by simp
  next
    case False
    with Cons.prems obtain k where k: "first_index P xs = Some k" "i = Suc k" by auto
    with Cons.IH [OF k(1)] False show ?thesis by (auto simp: less_Suc_eq_0_disj)
  qed
qed

lemma first_index_SomeI:
  "i < length xs \<Longrightarrow> P (xs ! i) \<Longrightarrow> (\<forall>j < i. \<not> P (xs ! j)) \<Longrightarrow> first_index P xs = Some i"
proof (induction xs arbitrary: i)
  case Nil
  then show ?case by simp
next
  case (Cons x xs)
  show ?case
  proof (cases i)
    case 0
    with Cons.prems show ?thesis by simp
  next
    case (Suc k)
    with Cons.prems(3) have "\<not> P x" and "\<forall>j < k. \<not> P (xs ! j)" by auto
    with Suc Cons.prems(1,2) Cons.IH [of k] show ?thesis by simp
  qed
qed

lemma first_index_Some_iff:
  "first_index P xs = Some i \<longleftrightarrow> i < length xs \<and> P (xs ! i) \<and> (\<forall>j < i. \<not> P (xs ! j))"
  using first_index_SomeD first_index_SomeI by metis

lemma first_index_cong:
  "length xs = length ys \<Longrightarrow> (\<And>i. i < length xs \<Longrightarrow> P (xs ! i) = Q (ys ! i)) \<Longrightarrow>
   first_index P xs = first_index Q ys"
proof (induction xs ys rule: list_induct2)
  case Nil
  then show ?case by simp
next
  case (Cons x xs y ys)
  from Cons.prems [of 0] have "P x = Q y" by simp
  moreover have "first_index P xs = first_index Q ys"
    using Cons.prems [of "Suc i" for i] by (intro Cons.IH) simp
  ultimately show ?case by simp
qed

section \<open>Counting loops\<close>

text \<open>\<^verbatim>\<open>for (i = 0; i < n; i++) s = f(i, s);\<close>\<close>

primrec for_upto :: "nat \<Rightarrow> (nat \<Rightarrow> 's \<Rightarrow> 's) \<Rightarrow> 's \<Rightarrow> 's" where
  "for_upto 0 f s = s"
| "for_upto (Suc n) f s = f n (for_upto n f s)"

lemma for_upto_invariant:
  assumes "I 0 s" and "\<And>i t. i < n \<Longrightarrow> I i t \<Longrightarrow> I (Suc i) (f i t)"
  shows "I n (for_upto n f s)"
  using assms(2) by (induction n) (auto simp: assms(1))

lemma for_upto_cong:
  assumes "n = m" and "s = t" and "\<And>i u. i < m \<Longrightarrow> f i u = g i u"
  shows "for_upto n f s = for_upto m g t"
proof -
  have "for_upto m f t = for_upto m g t"
    using assms(3) by (induction m) auto
  with assms(1,2) show ?thesis by simp
qed

lemma for_upto_numeral [simp]:
  "for_upto (numeral k) f s = f (pred_numeral k) (for_upto (pred_numeral k) f s)"
  by (simp add: numeral_eq_Suc)

section \<open>Counting in finite ranges\<close>

text \<open>The number of indices below \<open>n\<close> that satisfy a predicate.\<close>

definition count_below :: "nat \<Rightarrow> (nat \<Rightarrow> bool) \<Rightarrow> nat" where
  "count_below n P = card {i. i < n \<and> P i}"

lemma count_below_le: "count_below n P \<le> n"
proof -
  have "{i. i < n \<and> P i} \<subseteq> {..<n}" by auto
  then have "card {i. i < n \<and> P i} \<le> card {..<n}" by (intro card_mono) auto
  then show ?thesis by (simp add: count_below_def)
qed

lemma count_below_code: "count_below n P = length (filter P [0..<n])"
proof -
  have "{i. i < n \<and> P i} = set (filter P [0..<n])" by auto
  then show ?thesis by (simp add: count_below_def distinct_card del: set_filter)
qed

lemma count_below_cong: "(\<And>i. i < n \<Longrightarrow> P i = Q i) \<Longrightarrow> count_below n P = count_below n Q"
  unfolding count_below_def by (rule arg_cong [where f = card]) auto

lemma count_below_all: "(\<And>i. i < n \<Longrightarrow> P i) \<Longrightarrow> count_below n P = n"
proof -
  assume "\<And>i. i < n \<Longrightarrow> P i"
  then have "{i. i < n \<and> P i} = {..<n}" by auto
  then show ?thesis by (simp add: count_below_def)
qed

lemma count_below_insert:
  assumes "k < n" and "\<not> P k"
  shows "count_below n (\<lambda>i. i = k \<or> P i) = Suc (count_below n P)"
proof -
  have "{i. i < n \<and> (i = k \<or> P i)} = insert k {i. i < n \<and> P i}" using assms(1) by auto
  with assms(2) show ?thesis by (simp add: count_below_def)
qed

lemma count_below_remove:
  assumes "k < n" and "P k"
  shows "Suc (count_below n (\<lambda>i. i \<noteq> k \<and> P i)) = count_below n P"
proof -
  have "{i. i < n \<and> P i} = insert k {i. i < n \<and> (i \<noteq> k \<and> P i)}" using assms by auto
  then show ?thesis by (simp add: count_below_def)
qed

lemma count_below_lt: "k < n \<Longrightarrow> \<not> P k \<Longrightarrow> count_below n P < n"
  using count_below_insert [of k n P] count_below_le [of n "\<lambda>i. i = k \<or> P i"] by simp

lemma count_below_pos: "k < n \<Longrightarrow> P k \<Longrightarrow> 0 < count_below n P"
  using count_below_remove [of k n P] by simp

lemma count_below_ltD: "count_below n P < n \<Longrightarrow> \<exists>k < n. \<not> P k"
  using count_below_all [of n P] by auto

section \<open>Total correctness\<close>

text \<open>
  \<open>yields m Q\<close>: the operation \<open>m\<close> has no undefined behaviour and its result satisfies \<open>Q\<close>. The
  rules decompose a sequence of C statements; a component adds the rules of its operations.
\<close>

named_theorems yields_rules "introduction rules for yields"

definition yields :: "'a option \<Rightarrow> ('a \<Rightarrow> bool) \<Rightarrow> bool" where
  "yields m Q \<longleftrightarrow> (\<exists>x. m = Some x \<and> Q x)"

lemma yields_Some [simp]: "yields (Some x) Q = Q x"
  by (simp add: yields_def)

lemma yields_None [simp]: "\<not> yields None Q"
  by (simp add: yields_def)

lemma yields_bind: "yields m (\<lambda>x. yields (f x) Q) \<Longrightarrow> yields (m \<bind> f) Q"
  by (auto simp: yields_def)

lemma yields_map: "yields m (\<lambda>x. Q (f x)) \<Longrightarrow> yields (map_option f m) Q"
  by (auto simp: yields_def)

lemma yields_mono: "yields m P \<Longrightarrow> (\<And>x. P x \<Longrightarrow> Q x) \<Longrightarrow> yields m Q"
  by (auto simp: yields_def)

lemma yields_if: "(b \<Longrightarrow> yields m Q) \<Longrightarrow> (\<not> b \<Longrightarrow> yields m' Q) \<Longrightarrow> yields (if b then m else m') Q"
  by simp

lemma yieldsE:
  assumes "yields m Q"
  obtains x where "m = Some x" and "Q x"
  using assms by (auto simp: yields_def)

text \<open>Sequencing: the first operation yields \<open>P\<close>, and from \<open>P\<close> the rest yields \<open>Q\<close>.\<close>

lemma yields_seq: "yields m P \<Longrightarrow> (\<And>x. P x \<Longrightarrow> yields (f x) Q) \<Longrightarrow> yields (m \<bind> f) Q"
  by (auto simp: yields_def)

end
