(* ===== verification/Memory.thy ===== *)
theory Memory
  imports Alos_Prelude
begin

text \<open>
  The flat byte-addressed memory that the heap headers and the copied data live in: single
  bytes and little-endian 64-bit loads and stores, with the lemmas that separate accesses to
  disjoint ranges.
\<close>

type_synonym mem = "u64 \<Rightarrow> u8"

section \<open>Little-endian encoding\<close>

definition u64_bytes :: "u64 \<Rightarrow> bytes" where
  "u64_bytes v = map (\<lambda>i. ucast (drop_bit (8 * i) v)) [0..<8]"

primrec le_word :: "bytes \<Rightarrow> u64" where
  "le_word [] = 0"
| "le_word (b # bs) = ucast b OR push_bit 8 (le_word bs)"

lemma length_u64_bytes [simp]: "length (u64_bytes v) = 8"
  by (simp add: u64_bytes_def)

lemma bit_le_word:
  "k < 64 \<Longrightarrow> bit (le_word bs) k \<longleftrightarrow> k div 8 < length bs \<and> bit (bs ! (k div 8)) (k mod 8)"
proof (induction bs arbitrary: k)
  case Nil
  then show ?case by simp
next
  case (Cons b bs)
  show ?case
  proof (cases "k < 8")
    case True
    then show ?thesis using Cons.prems by (simp add: bit_simps)
  next
    case False
    then have "k div 8 = Suc ((k - 8) div 8)" "k mod 8 = (k - 8) mod 8"
      by (simp_all add: le_div_geq le_mod_geq)
    moreover have "\<not> bit b k" using False by (auto dest: bit_imp_le_length)
    ultimately show ?thesis using False Cons by (simp add: bit_simps)
  qed
qed

lemma le_word_u64_bytes [simp]: "le_word (u64_bytes v) = v"
proof (rule bit_word_eqI)
  fix k assume "k < LENGTH(64)"
  then have k: "k < 64" by simp
  then have "k div 8 < 8" by (simp add: less_mult_imp_div_less)
  then have "u64_bytes v ! (k div 8) = ucast (drop_bit (8 * (k div 8)) v)"
    by (simp add: u64_bytes_def)
  with k \<open>k div 8 < 8\<close> show "bit (le_word (u64_bytes v)) k \<longleftrightarrow> bit v k"
    by (simp add: bit_le_word bit_simps)
qed

section \<open>Loads and stores\<close>

definition load_bytes :: "mem \<Rightarrow> u64 \<Rightarrow> nat \<Rightarrow> bytes" where
  "load_bytes m a n = map (\<lambda>i. m (a + of_nat i)) [0..<n]"

definition store_bytes :: "mem \<Rightarrow> u64 \<Rightarrow> bytes \<Rightarrow> mem" where
  "store_bytes m a bs = (\<lambda>x. let i = unat (x - a) in if i < length bs then bs ! i else m x)"

definition load_u64 :: "mem \<Rightarrow> u64 \<Rightarrow> u64" where
  "load_u64 m a = le_word (load_bytes m a 8)"

definition store_u64 :: "mem \<Rightarrow> u64 \<Rightarrow> u64 \<Rightarrow> mem" where
  "store_u64 m a v = store_bytes m a (u64_bytes v)"

lemma length_load_bytes [simp]: "length (load_bytes m a n) = n"
  by (simp add: load_bytes_def)

text \<open>Addresses as natural numbers: below \<open>2\<^sup>6\<^sup>4\<close> the arithmetic does not wrap.\<close>

definition addr_space :: nat where "addr_space = 18446744073709551616"

lemma unat_of_nat_addr [simp]: "a < addr_space \<Longrightarrow> unat (of_nat a :: u64) = a"
  by (simp add: addr_space_def)

lemma unat_lt_addr_space: "unat (x :: u64) < addr_space"
  using unat_u64_lt [of x] by (simp add: addr_space_def)

lemma of_nat_addr_eq_iff [simp]:
  "a < addr_space \<Longrightarrow> b < addr_space \<Longrightarrow> (of_nat a :: u64) = of_nat b \<longleftrightarrow> a = b"
  using unat_of_nat_addr by metis

lemma of_nat_addr_less_iff [simp]:
  "a < addr_space \<Longrightarrow> b < addr_space \<Longrightarrow> (of_nat a :: u64) < of_nat b \<longleftrightarrow> a < b"
  by (simp add: word_less_nat_alt)

lemma of_nat_addr_le_iff [simp]:
  "a < addr_space \<Longrightarrow> b < addr_space \<Longrightarrow> (of_nat a :: u64) \<le> of_nat b \<longleftrightarrow> a \<le> b"
  by (simp add: word_le_nat_alt)

lemma of_nat_addr_0_iff [simp]: "a < addr_space \<Longrightarrow> (of_nat a :: u64) = 0 \<longleftrightarrow> a = 0"
  using of_nat_addr_eq_iff [of a 0] by (simp add: addr_space_def)

lemma unat_diff_addr:
  assumes "x < addr_space" and "a < addr_space"
  shows "unat (of_nat x - of_nat a :: u64) = (if a \<le> x then x - a else addr_space + x - a)"
proof (cases "a \<le> x")
  case True
  with assms have "(of_nat a :: u64) \<le> of_nat x" by simp
  with True assms show ?thesis by (simp add: unat_sub)
next
  case False
  then have "(of_nat x - of_nat a :: u64) = of_nat (addr_space + x - a)"
    using assms(2) by (simp add: addr_space_def of_nat_diff)
  moreover have "addr_space + x - a < addr_space" using False assms by simp
  ultimately show ?thesis using False by simp
qed

lemma store_bytes_at:
  assumes "x < addr_space" and "a + length bs \<le> addr_space" and "bs \<noteq> []"
  shows "store_bytes m (of_nat a) bs (of_nat x) =
    (if a \<le> x \<and> x < a + length bs then bs ! (x - a) else m (of_nat x))"
proof -
  have a: "a < addr_space" using assms(2,3) by (cases bs) auto
  show ?thesis using assms a by (auto simp: store_bytes_def Let_def unat_diff_addr)
qed

lemma store_u64_at:
  assumes "x < addr_space" and "a + 8 \<le> addr_space"
  shows "store_u64 m (of_nat a) v (of_nat x) =
    (if a \<le> x \<and> x < a + 8 then u64_bytes v ! (x - a) else m (of_nat x))"
proof -
  have "u64_bytes v \<noteq> []" by (metis length_u64_bytes list.size(3) zero_neq_numeral)
  with assms show ?thesis unfolding store_u64_def by (subst store_bytes_at) auto
qed

lemma load_bytes_cong:
  "(\<And>i. i < n \<Longrightarrow> m (of_nat (a + i)) = m' (of_nat (a + i))) \<Longrightarrow>
   load_bytes m (of_nat a) n = load_bytes m' (of_nat a) n"
  by (simp add: load_bytes_def)

lemma load_u64_cong:
  assumes "\<And>x. a \<le> x \<Longrightarrow> x < a + 8 \<Longrightarrow> m (of_nat x) = m' (of_nat x)"
  shows "load_u64 m (of_nat a) = load_u64 m' (of_nat a)"
  unfolding load_u64_def
  by (intro arg_cong [where f = le_word] load_bytes_cong, rule assms) simp_all

lemma load_store_u64_same [simp]:
  assumes "a + 8 \<le> addr_space"
  shows "load_u64 (store_u64 m (of_nat a) v) (of_nat a) = v"
proof -
  have "load_bytes (store_u64 m (of_nat a) v) (of_nat a) 8 = u64_bytes v"
  proof (rule nth_equalityI)
    fix i assume "i < length (load_bytes (store_u64 m (of_nat a) v) (of_nat a) 8)"
    then have i: "i < 8" by simp
    have "store_u64 m (of_nat a) v (of_nat (a + i)) = u64_bytes v ! i"
      using assms i by (subst store_u64_at) auto
    with i show "load_bytes (store_u64 m (of_nat a) v) (of_nat a) 8 ! i = u64_bytes v ! i"
      by (simp add: load_bytes_def)
  qed simp
  then show ?thesis by (simp add: load_u64_def)
qed

lemma load_store_u64_other:
  assumes "a + 8 \<le> addr_space" and "b + 8 \<le> addr_space" and "a + 8 \<le> b \<or> b + 8 \<le> a"
  shows "load_u64 (store_u64 m (of_nat b) v) (of_nat a) = load_u64 m (of_nat a)"
  using assms by (intro load_u64_cong) (auto simp: store_u64_at)

section \<open>Byte-wise copy\<close>

text \<open>\<^verbatim>\<open>for (i = 0; i < n; i++) dst[i] = src[i];\<close>\<close>

definition copy_loop :: "u64 \<Rightarrow> u64 \<Rightarrow> nat \<Rightarrow> mem \<Rightarrow> mem" where
  "copy_loop dst src n m =
     for_upto n (\<lambda>i m. m(dst + of_nat i := m (src + of_nat i))) m"

lemma copy_loop_at:
  assumes "d + n \<le> addr_space" and "s + n \<le> addr_space" and "d + n \<le> s \<or> s + n \<le> d"
    and "x < addr_space"
  shows "copy_loop (of_nat d) (of_nat s) n m (of_nat x) =
    (if d \<le> x \<and> x < d + n then m (of_nat (s + (x - d))) else m (of_nat x))"
  using assms
proof (induction n arbitrary: x)
  case 0
  then show ?case by (auto simp: copy_loop_def)
next
  case (Suc n)
  let ?m = "copy_loop (of_nat d) (of_nat s) n m"
  have step: "copy_loop (of_nat d) (of_nat s) (Suc n) m =
    ?m(of_nat (d + n) := ?m (of_nat (s + n)))"
    by (simp add: copy_loop_def)
  have src: "?m (of_nat (s + n)) = m (of_nat (s + n))"
    using Suc.prems Suc.IH [of "s + n"] by auto
  show ?case
  proof (cases "x = d + n")
    case True
    then show ?thesis using step src by simp
  next
    case False
    then have "(of_nat x :: u64) \<noteq> of_nat (d + n)"
      using Suc.prems by (subst of_nat_addr_eq_iff) auto
    then have "copy_loop (of_nat d) (of_nat s) (Suc n) m (of_nat x) = ?m (of_nat x)"
      unfolding step by (rule fun_upd_other)
    moreover have "?m (of_nat x) =
      (if d \<le> x \<and> x < d + n then m (of_nat (s + (x - d))) else m (of_nat x))"
      using Suc.prems by (intro Suc.IH) auto
    moreover have "d \<le> x \<and> x < d + Suc n \<longleftrightarrow> d \<le> x \<and> x < d + n" using False by auto
    ultimately show ?thesis by (simp only:)
  qed
qed

end
