(* ===== verification/Interfaces.thy ===== *)
theory Interfaces
  imports Memory
begin

text \<open>
  The interfaces between components, as locales: what a client of a component calls, what the
  component promises about it, and what follows for every client. The theory of the component
  that provides an interface interprets it on the definitions translated from the sources.
\<close>

section \<open>Frame allocator\<close>

text \<open>
  The contract of the physical memory manager towards its clients (page tables, kernel heap,
  process images): \<open>alloc\<close> returns the address of a frame or 0, \<open>free\<close> gives a frame back, and
  \<open>owned s\<close> are the frames that are handed out in state \<open>s\<close>.
\<close>

datatype frame_op = Frame_Alloc | Frame_Free u64

text \<open>A client that keeps the set of frames it holds and only frees frames it holds.\<close>

fun client_step ::
  "('s \<Rightarrow> u64 \<times> 's) \<Rightarrow> (u64 \<Rightarrow> 's \<Rightarrow> 's) \<Rightarrow> frame_op \<Rightarrow> 's \<times> u64 set \<Rightarrow> 's \<times> u64 set" where
  "client_step alloc free Frame_Alloc (s, H) =
     (let (p, s') = alloc s in (s', if p = 0 then H else insert p H))"
| "client_step alloc free (Frame_Free p) (s, H) =
     (if p \<in> H then (free p s, H - {p}) else (s, H))"

locale frame_allocator =
  fixes inv :: "'s \<Rightarrow> bool"
    and alloc :: "'s \<Rightarrow> u64 \<times> 's"
    and free :: "u64 \<Rightarrow> 's \<Rightarrow> 's"
    and owned :: "'s \<Rightarrow> u64 set"
  assumes alloc_inv: "inv s \<Longrightarrow> inv (snd (alloc s))"
    and free_inv: "inv s \<Longrightarrow> inv (free p s)"
    and alloc_fresh: "inv s \<Longrightarrow> fst (alloc s) \<noteq> 0 \<Longrightarrow>
      fst (alloc s) \<notin> owned s \<and> owned (snd (alloc s)) = insert (fst (alloc s)) (owned s)"
    and alloc_null: "inv s \<Longrightarrow> fst (alloc s) = 0 \<Longrightarrow> snd (alloc s) = s"
    and free_owned: "inv s \<Longrightarrow> p \<in> owned s \<Longrightarrow> owned (free p s) = owned s - {p}"
begin

lemma client_step_ok:
  assumes "inv s" and "H \<subseteq> owned s" and "client_step alloc free op (s, H) = (s', H')"
  shows "inv s' \<and> H' \<subseteq> owned s'"
proof (cases op)
  case Frame_Alloc
  then show ?thesis
    using assms alloc_inv [of s] alloc_fresh [of s] alloc_null [of s]
    by (cases "alloc s"; cases "fst (alloc s) = 0") auto
next
  case (Frame_Free p)
  then show ?thesis
    using assms free_inv [of s p] free_owned [of s p] by (auto split: if_splits)
qed

lemma client_run_ok:
  assumes "inv s" and "H \<subseteq> owned s"
    and "fold (client_step alloc free) ops (s, H) = (s', H')"
  shows "inv s' \<and> H' \<subseteq> owned s'"
  using assms
proof (induction ops arbitrary: s H)
  case Nil
  then show ?case by simp
next
  case (Cons op ops)
  obtain t K where step: "client_step alloc free op (s, H) = (t, K)" by fastforce
  from client_step_ok [OF Cons.prems(1,2) step] Cons.IH [of t K] Cons.prems(3) step
  show ?case by simp
qed

lemma alloc_not_held:
  assumes "inv s" and "H \<subseteq> owned s"
    and "fold (client_step alloc free) ops (s, H) = (s', H')"
    and "fst (alloc s') \<noteq> 0"
  shows "fst (alloc s') \<notin> H'"
  using client_run_ok [OF assms(1-3)] alloc_fresh [of s'] assms(4) by auto

end

section \<open>Heap allocator\<close>

text \<open>
  The contract of the kernel heap: \<open>rep s L\<close> says that in state \<open>s\<close> the allocations are \<open>L\<close>,
  pairs of an address and a number of bytes. A client holds some of them and remembers, for
  each, the bytes it should contain.
\<close>

definition data_bytes :: "(nat \<times> nat) set \<Rightarrow> nat set" where
  "data_bytes L = {x. \<exists>(p, n) \<in> L. p \<le> x \<and> x < p + n}"

lemma in_data_bytes: "(p, n) \<in> L \<Longrightarrow> i < n \<Longrightarrow> p + i \<in> data_bytes L"
  unfolding data_bytes_def by (rule CollectI, rule bexI [of _ "(p, n)"]) simp_all

datatype heap_op = Heap_Alloc u64 | Heap_Free nat | Heap_Write nat nat u8

type_synonym heap_view = "nat \<rightharpoonup> bytes"

fun heap_client_step ::
  "(u64 \<Rightarrow> 's \<Rightarrow> (u64 \<times> 's) option) \<Rightarrow> (u64 \<Rightarrow> 's \<Rightarrow> 's option) \<Rightarrow> (nat \<Rightarrow> 's \<Rightarrow> u8) \<Rightarrow>
   (nat \<Rightarrow> u8 \<Rightarrow> 's \<Rightarrow> 's) \<Rightarrow> (u64 \<Rightarrow> bool) \<Rightarrow> heap_op \<Rightarrow> 's \<times> heap_view \<Rightarrow> ('s \<times> heap_view) option" where
  "heap_client_step alloc free peek poke ok_size (Heap_Alloc n) (s, H) =
     (if ok_size n then do {
        (p, s') \<leftarrow> alloc n s;
        Some (s', if p = 0 then H
                  else H(unat p \<mapsto> map (\<lambda>i. peek (unat p + i) s') [0..<unat n]))
      } else Some (s, H))"
| "heap_client_step alloc free peek poke ok_size (Heap_Free p) (s, H) =
     (if p \<in> dom H then do { s' \<leftarrow> free (of_nat p) s; Some (s', H(p := None)) } else Some (s, H))"
| "heap_client_step alloc free peek poke ok_size (Heap_Write p i v) (s, H) =
     (case H p of
        None \<Rightarrow> Some (s, H)
      | Some bs \<Rightarrow> if i < length bs then Some (poke (p + i) v s, H(p \<mapsto> bs[i := v])) else Some (s, H))"

primrec heap_client_run ::
  "(u64 \<Rightarrow> 's \<Rightarrow> (u64 \<times> 's) option) \<Rightarrow> (u64 \<Rightarrow> 's \<Rightarrow> 's option) \<Rightarrow> (nat \<Rightarrow> 's \<Rightarrow> u8) \<Rightarrow>
   (nat \<Rightarrow> u8 \<Rightarrow> 's \<Rightarrow> 's) \<Rightarrow> (u64 \<Rightarrow> bool) \<Rightarrow> heap_op list \<Rightarrow> 's \<times> heap_view \<Rightarrow>
   ('s \<times> heap_view) option" where
  "heap_client_run alloc free peek poke ok_size [] sH = Some sH"
| "heap_client_run alloc free peek poke ok_size (op # ops) sH = do {
     sH' \<leftarrow> heap_client_step alloc free peek poke ok_size op sH;
     heap_client_run alloc free peek poke ok_size ops sH'
   }"

locale heap_allocator =
  fixes rep :: "'s \<Rightarrow> (nat \<times> nat) set \<Rightarrow> bool"
    and alloc :: "u64 \<Rightarrow> 's \<Rightarrow> (u64 \<times> 's) option"
    and free :: "u64 \<Rightarrow> 's \<Rightarrow> 's option"
    and peek :: "nat \<Rightarrow> 's \<Rightarrow> u8"
    and poke :: "nat \<Rightarrow> u8 \<Rightarrow> 's \<Rightarrow> 's"
    and ok_size :: "u64 \<Rightarrow> bool"
  assumes alloc_law: "rep s L \<Longrightarrow> ok_size sz \<Longrightarrow> \<exists>a s'. alloc sz s = Some (a, s') \<and>
      (a = 0 \<and> rep s' L \<or>
       (\<exists>k \<ge> unat sz. a \<noteq> 0 \<and> rep s' (insert (unat a, k) L) \<and> unat a \<notin> fst ` L)) \<and>
      (\<forall>x \<in> data_bytes L. peek x s' = peek x s)"
    and free_law: "rep s L \<Longrightarrow> (p, n) \<in> L \<Longrightarrow> \<exists>s'. free (of_nat p) s = Some s' \<and>
      rep s' (L - {(p, n)}) \<and> (\<forall>x \<in> data_bytes L. peek x s' = peek x s)"
    and poke_law: "rep s L \<Longrightarrow> (p, n) \<in> L \<Longrightarrow> i < n \<Longrightarrow> rep (poke (p + i) v s) L \<and>
      (\<forall>x \<in> data_bytes L. peek x (poke (p + i) v s) = (if x = p + i then v else peek x s))"
    and apart: "rep s L \<Longrightarrow> (p, n) \<in> L \<Longrightarrow> (q, k) \<in> L \<Longrightarrow> (p, n) \<noteq> (q, k) \<Longrightarrow>
      p + n \<le> q \<or> q + k \<le> p"
begin

text \<open>Every region the client holds is allocated and contains what the client put there.\<close>

definition view_ok :: "'s \<Rightarrow> heap_view \<Rightarrow> bool" where
  "view_ok s H \<longleftrightarrow> (\<exists>L. rep s L \<and> (\<forall>p bs. H p = Some bs \<longrightarrow>
     (\<exists>n \<ge> length bs. (p, n) \<in> L \<and> (\<forall>i < length bs. peek (p + i) s = bs ! i))))"

lemma view_okI:
  assumes "rep s L" and "\<And>p bs. H p = Some bs \<Longrightarrow>
    \<exists>n \<ge> length bs. (p, n) \<in> L \<and> (\<forall>i < length bs. peek (p + i) s = bs ! i)"
  shows "view_ok s H"
  using assms by (auto simp: view_ok_def)

lemma alloc_view:
  assumes "view_ok s H" and "ok_size n"
  shows "\<exists>s' H'. heap_client_step alloc free peek poke ok_size (Heap_Alloc n) (s, H) = Some (s', H') \<and>
    view_ok s' H'"
proof -
  from assms(1) obtain L where L: "rep s L" "\<And>p bs. H p = Some bs \<Longrightarrow>
      \<exists>n \<ge> length bs. (p, n) \<in> L \<and> (\<forall>i < length bs. peek (p + i) s = bs ! i)"
    by (auto simp: view_ok_def)
  from alloc_law [OF L(1) assms(2)] obtain p s' where a: "alloc n s = Some (p, s')"
    and r: "p = 0 \<and> rep s' L \<or>
       (\<exists>k \<ge> unat n. p \<noteq> 0 \<and> rep s' (insert (unat p, k) L) \<and> unat p \<notin> fst ` L)"
    and c: "\<forall>x \<in> data_bytes L. peek x s' = peek x s" by blast
  have old: "\<exists>n \<ge> length bs. (q, n) \<in> L \<and> (\<forall>i < length bs. peek (q + i) s' = bs ! i)"
    if "H q = Some bs" for q bs
    using L(2) [OF that] c in_data_bytes [of q _ L] by (metis order_less_le_trans)
  from r show ?thesis
  proof
    assume "p = 0 \<and> rep s' L"
    then show ?thesis using a assms(2) old by (auto intro!: view_okI)
  next
    assume "\<exists>k \<ge> unat n. p \<noteq> 0 \<and> rep s' (insert (unat p, k) L) \<and> unat p \<notin> fst ` L"
    then obtain k where k: "unat n \<le> k" "p \<noteq> 0" "rep s' (insert (unat p, k) L)" by blast
    let ?H = "H(unat p \<mapsto> map (\<lambda>i. peek (unat p + i) s') [0..<unat n])"
    have "view_ok s' ?H"
    proof (rule view_okI [OF k(3)])
      fix q bs assume "?H q = Some bs"
      then show "\<exists>n \<ge> length bs. (q, n) \<in> insert (unat p, k) L \<and>
          (\<forall>i < length bs. peek (q + i) s' = bs ! i)"
        using k(1) old [of q bs] by (cases "q = unat p") auto
    qed
    then show ?thesis using a assms(2) k(2) by auto
  qed
qed

lemma free_view:
  assumes "view_ok s H" and "p \<in> dom H"
  shows "\<exists>s' H'. heap_client_step alloc free peek poke ok_size (Heap_Free p) (s, H) = Some (s', H') \<and>
    view_ok s' H'"
proof -
  from assms(1) obtain L where L: "rep s L" "\<And>p bs. H p = Some bs \<Longrightarrow>
      \<exists>n \<ge> length bs. (p, n) \<in> L \<and> (\<forall>i < length bs. peek (p + i) s = bs ! i)"
    by (auto simp: view_ok_def)
  from assms(2) L(2) obtain n where pn: "(p, n) \<in> L" by blast
  from free_law [OF L(1) pn] obtain s' where f: "free (of_nat p) s = Some s'"
    "rep s' (L - {(p, n)})" "\<forall>x \<in> data_bytes L. peek x s' = peek x s" by blast
  have "view_ok s' (H(p := None))"
  proof (rule view_okI [OF f(2)])
    fix q bs assume "(H(p := None)) q = Some bs"
    then have q: "q \<noteq> p" "H q = Some bs" by (auto split: if_splits)
    from L(2) [OF q(2)] obtain k where "length bs \<le> k" "(q, k) \<in> L"
      "\<forall>i < length bs. peek (q + i) s = bs ! i" by blast
    then show "\<exists>n' \<ge> length bs. (q, n') \<in> L - {(p, n)} \<and> (\<forall>i < length bs. peek (q + i) s' = bs ! i)"
      using f(3) in_data_bytes [of q k L] q(1) by (intro exI [of _ k]) auto
  qed
  then show ?thesis using assms(2) f(1) by auto
qed

lemma write_view:
  assumes "view_ok s H" and "H p = Some bs" and "i < length bs"
  shows "view_ok (poke (p + i) v s) (H(p \<mapsto> bs[i := v]))"
proof -
  from assms(1) obtain L where L: "rep s L" "\<And>p bs. H p = Some bs \<Longrightarrow>
      \<exists>n \<ge> length bs. (p, n) \<in> L \<and> (\<forall>i < length bs. peek (p + i) s = bs ! i)"
    by (auto simp: view_ok_def)
  from L(2) [OF assms(2)] obtain n where n: "length bs \<le> n" "(p, n) \<in> L"
    "\<forall>i < length bs. peek (p + i) s = bs ! i" by blast
  have i: "i < n" using assms(3) n(1) by simp
  note w = poke_law [OF L(1) n(2) i]
  show ?thesis
  proof (rule view_okI [OF conjunct1 [OF w]])
    fix q cs assume *: "(H(p \<mapsto> bs[i := v])) q = Some cs"
    show "\<exists>n \<ge> length cs. (q, n) \<in> L \<and> (\<forall>j < length cs. peek (q + j) (poke (p + i) v s) = cs ! j)"
    proof (cases "q = p")
      case True
      then have "cs = bs[i := v]" using * by simp
      then show ?thesis using True n w in_data_bytes [OF n(2)]
        by (intro exI [of _ n]) (auto simp: nth_list_update)
    next
      case False
      then have "H q = Some cs" using * by simp
      from L(2) [OF this] obtain k where k: "length cs \<le> k" "(q, k) \<in> L"
        "\<forall>i < length cs. peek (q + i) s = cs ! i" by blast
      have "q + j \<noteq> p + i" if "j < length cs" for j
        using apart [OF L(1) n(2) k(2)] False that k(1) i by auto
      then show ?thesis using k w in_data_bytes [OF k(2)] by (intro exI [of _ k]) auto
    qed
  qed
qed

lemma heap_client_step_ok:
  assumes "view_ok s H"
  shows "\<exists>s' H'. heap_client_step alloc free peek poke ok_size op (s, H) = Some (s', H') \<and> view_ok s' H'"
proof (cases op)
  case (Heap_Alloc n)
  then show ?thesis using assms alloc_view [OF assms, of n] by (cases "ok_size n") auto
next
  case (Heap_Free p)
  then show ?thesis using assms free_view [OF assms, of p] by (cases "p \<in> dom H") auto
next
  case (Heap_Write p i v)
  then show ?thesis using assms write_view [OF assms, of p _ i v] by (auto split: option.splits)
qed

lemma heap_client_run_ok:
  assumes "view_ok s H"
  shows "\<exists>s' H'. heap_client_run alloc free peek poke ok_size ops (s, H) = Some (s', H') \<and> view_ok s' H'"
  using assms
proof (induction ops arbitrary: s H)
  case Nil
  then show ?case by simp
next
  case (Cons op ops)
  from heap_client_step_ok [OF Cons.prems, of op] Cons.IH show ?case by fastforce
qed

lemma view_contents:
  assumes "view_ok s H" and "H p = Some bs" and "i < length bs"
  shows "peek (p + i) s = bs ! i"
  using assms by (auto simp: view_ok_def)

lemma view_apart:
  assumes "view_ok s H" and "H p = Some bs" and "H q = Some cs" and "p \<noteq> q"
  shows "p + length bs \<le> q \<or> q + length cs \<le> p"
proof -
  from assms obtain L n k where "rep s L" "(p, n) \<in> L" "(q, k) \<in> L" "length bs \<le> n" "length cs \<le> k"
    unfolding view_ok_def by blast
  then show ?thesis using apart [of s L p n q k] assms(4) by auto
qed

end

section \<open>Lookup caches\<close>

text \<open>
  The contract of a bounded cache: a key that was just added is found with its value, and adding
  a key never changes the value found for another key, except that the other key may be lost.
\<close>

locale lookup_cache =
  fixes ok :: "'s \<Rightarrow> bool"
    and key :: "'k \<Rightarrow> bool"
    and val :: "'v \<Rightarrow> bool"
    and add :: "'k \<Rightarrow> 'v \<Rightarrow> 's \<Rightarrow> 's"
    and lookup :: "'k \<Rightarrow> 's \<Rightarrow> 'v option"
  assumes add_ok: "ok s \<Longrightarrow> key k \<Longrightarrow> val v \<Longrightarrow> ok (add k v s)"
    and lookup_add: "ok s \<Longrightarrow> key k \<Longrightarrow> val v \<Longrightarrow> lookup k (add k v s) = Some v"
    and lookup_other: "ok s \<Longrightarrow> key k \<Longrightarrow> val v \<Longrightarrow> key k' \<Longrightarrow> k' \<noteq> k \<Longrightarrow>
      lookup k' (add k v s) = lookup k' s \<or> lookup k' (add k v s) = None"
begin

text \<open>After any sequence of additions a lookup never returns anything but the latest value.\<close>

lemma lookup_latest:
  assumes "ok s" and "\<forall>(k, v) \<in> set kvs. key k \<and> val v" and "key k"
  shows "ok (fold (\<lambda>(k, v). add k v) kvs s)"
    and "lookup k (fold (\<lambda>(k, v). add k v) kvs s) = Some v \<Longrightarrow>
      (case map_of (rev kvs) k of Some v' \<Rightarrow> v = v' | None \<Rightarrow> lookup k s = Some v)"
proof -
  have "ok (fold (\<lambda>(k, v). add k v) kvs s) \<and>
    (\<forall>v. lookup k (fold (\<lambda>(k, v). add k v) kvs s) = Some v \<longrightarrow>
      (case map_of (rev kvs) k of Some v' \<Rightarrow> v = v' | None \<Rightarrow> lookup k s = Some v))"
    using assms(2)
  proof (induction kvs rule: rev_induct)
    case Nil
    then show ?case using assms(1) by simp
  next
    case (snoc kv kvs)
    obtain k0 v0 where kv: "kv = (k0, v0)" by (cases kv)
    let ?s = "fold (\<lambda>(k, v). add k v) kvs s"
    have IH: "ok ?s" "\<forall>v. lookup k ?s = Some v \<longrightarrow>
        (case map_of (rev kvs) k of Some v' \<Rightarrow> v = v' | None \<Rightarrow> lookup k s = Some v)"
      using snoc by auto
    have k0: "key k0" "val v0" using snoc.prems kv by auto
    show ?case
      using IH add_ok [OF IH(1) k0] lookup_add [OF IH(1) k0] lookup_other [OF IH(1) k0 assms(3)]
      by (cases "k = k0") (auto simp: kv)
  qed
  then show "ok (fold (\<lambda>(k, v). add k v) kvs s)"
    and "lookup k (fold (\<lambda>(k, v). add k v) kvs s) = Some v \<Longrightarrow>
      (case map_of (rev kvs) k of Some v' \<Rightarrow> v = v' | None \<Rightarrow> lookup k s = Some v)" by auto
qed

end

section \<open>Bounded queues\<close>

text \<open>
  The contract of a bounded first-in first-out buffer: \<open>rep s q\<close> says that \<open>s\<close> holds the elements
  \<open>q\<close>, oldest first, and \<open>count\<close> is how the clients test for room and for data.
\<close>

primrec fifo_fill :: "nat \<Rightarrow> ('s \<Rightarrow> nat) \<Rightarrow> ('a \<Rightarrow> 's \<Rightarrow> 's option) \<Rightarrow> 'a list \<Rightarrow> 's \<Rightarrow> 's option" where
  "fifo_fill cap count put [] s = Some s"
| "fifo_fill cap count put (x # xs) s =
     (if count s < cap then do { s \<leftarrow> put x s; fifo_fill cap count put xs s } else Some s)"

primrec fifo_drain :: "('s \<Rightarrow> nat) \<Rightarrow> ('s \<Rightarrow> ('a \<times> 's) option) \<Rightarrow> nat \<Rightarrow> 's \<Rightarrow> ('a list \<times> 's) option" where
  "fifo_drain count get 0 s = Some ([], s)"
| "fifo_drain count get (Suc n) s =
     (if count s = 0 then Some ([], s)
      else do { (x, s) \<leftarrow> get s; (xs, s) \<leftarrow> fifo_drain count get n s; Some (x # xs, s) })"

locale bounded_fifo =
  fixes rep :: "'s \<Rightarrow> 'a list \<Rightarrow> bool"
    and cap :: nat
    and count :: "'s \<Rightarrow> nat"
    and put :: "'a \<Rightarrow> 's \<Rightarrow> 's option"
    and get :: "'s \<Rightarrow> ('a \<times> 's) option"
  assumes put_law: "rep s q \<Longrightarrow> length q < cap \<Longrightarrow> \<exists>s'. put x s = Some s' \<and> rep s' (q @ [x])"
    and get_law: "rep s (x # q) \<Longrightarrow> \<exists>s'. get s = Some (x, s') \<and> rep s' q"
    and count_law: "rep s q \<Longrightarrow> count s = length q"
    and cap_law: "rep s q \<Longrightarrow> length q \<le> cap"
begin

lemma fill_rep:
  assumes "rep s q"
  shows "\<exists>s'. fifo_fill cap count put xs s = Some s' \<and> rep s' (q @ take (cap - length q) xs)"
  using assms
proof (induction xs arbitrary: s q)
  case Nil
  then show ?case by simp
next
  case (Cons x xs)
  show ?case
  proof (cases "length q < cap")
    case True
    from put_law [OF Cons.prems True] obtain s' where s': "put x s = Some s'" "rep s' (q @ [x])" by blast
    have "take (cap - length q) (x # xs) = x # take (cap - length (q @ [x])) xs"
      using True by (simp add: take_Cons split: nat.splits) (metis Suc_diff_Suc diff_Suc_1)
    with Cons.IH [OF s'(2)] s'(1) True count_law [OF Cons.prems] show ?thesis by auto
  next
    case False
    then show ?thesis using Cons.prems count_law [OF Cons.prems] by simp
  qed
qed

lemma drain_rep:
  assumes "rep s q"
  shows "\<exists>s'. fifo_drain count get n s = Some (take n q, s') \<and> rep s' (drop n q)"
  using assms
proof (induction n arbitrary: s q)
  case 0
  then show ?case by simp
next
  case (Suc n)
  show ?case
  proof (cases q)
    case Nil
    then show ?thesis using Suc.prems count_law [OF Suc.prems] by simp
  next
    case (Cons x q')
    from Suc.prems Cons get_law [of s x q'] obtain s' where s': "get s = Some (x, s')" "rep s' q'" by blast
    from Suc.IH [OF s'(2)] s'(1) Cons count_law [OF Suc.prems] show ?thesis by auto
  qed
qed

text \<open>What is read after storing into a buffer with enough room is what was stored, in order.\<close>

lemma fill_drain:
  assumes "rep s q" and "length q + length xs \<le> cap"
  shows "\<exists>s' s''. fifo_fill cap count put xs s = Some s' \<and>
    fifo_drain count get (length q + length xs) s' = Some (q @ xs, s'') \<and> rep s'' []"
proof -
  from fill_rep [OF assms(1), of xs] assms(2) obtain s' where s':
    "fifo_fill cap count put xs s = Some s'" "rep s' (q @ xs)" by auto
  from drain_rep [OF s'(2), of "length q + length xs"] s'(1) show ?thesis by auto
qed

end

end
