(* ===== verification/Pmm.thy ===== *)
theory Pmm
  imports Interfaces
begin

text \<open>
  The physical memory manager, \<^verbatim>\<open>src/src/mm/pmm.c\<close> and \<^verbatim>\<open>pmm.h\<close>: a bitmap with one bit per
  4 KiB block of the first 4 GiB of memory (1: used, 0: free) and a counter of used blocks.

  The static variables of the file are the record \<open>pmm_state\<close>; the static array
  \<^verbatim>\<open>pmm_bitmap\<close> is a function on indices (\<open>bitmap_index_in_range\<close> shows that the guarded
  accesses stay below its size). A pointer is its 64-bit address, 0 for NULL.
\<close>

section \<open>Data\<close>

record limine_memmap_entry =
  me_base :: u64
  me_length :: u64
  me_type :: u64

record pmm_state =
  pmm_bitmap :: "nat \<Rightarrow> u8"
  pmm_total_blocks :: u64
  pmm_used_blocks :: u64
  pmm_memory_size :: u64
  pmm_hhdm_offset :: u64

definition LIMINE_MEMMAP_USABLE :: u64 where
  [c_defs]: "LIMINE_MEMMAP_USABLE = 0"

definition PMM_BLOCK_SIZE :: u64 where
  [c_defs]: "PMM_BLOCK_SIZE = 4096"

definition PMM_MAX_MEMORY :: u64 where
  [c_defs]: "PMM_MAX_MEMORY = 4 * 1024 * 1024 * 1024"

definition PMM_MAX_BLOCKS :: u64 where
  "PMM_MAX_BLOCKS = PMM_MAX_MEMORY div PMM_BLOCK_SIZE"

definition PMM_BITMAP_SIZE :: u64 where
  "PMM_BITMAP_SIZE = PMM_MAX_BLOCKS div 8"

definition PMM_ALIGN_UP :: "u64 \<Rightarrow> u64" where
  "PMM_ALIGN_UP addr = (addr + PMM_BLOCK_SIZE - 1) AND NOT (PMM_BLOCK_SIZE - 1)"

definition PMM_ALIGN_DOWN :: "u64 \<Rightarrow> u64" where
  "PMM_ALIGN_DOWN addr = addr AND NOT (PMM_BLOCK_SIZE - 1)"

definition PMM_ADDR_TO_BLOCK :: "u64 \<Rightarrow> u64" where
  "PMM_ADDR_TO_BLOCK addr = addr div PMM_BLOCK_SIZE"

definition PMM_BLOCK_TO_ADDR :: "u64 \<Rightarrow> u64" where
  "PMM_BLOCK_TO_ADDR block = block * PMM_BLOCK_SIZE"

section \<open>The bitmap\<close>

definition bitmap_set :: "u64 \<Rightarrow> pmm_state \<Rightarrow> pmm_state" where
  "bitmap_set block s =
     (if block < PMM_MAX_BLOCKS then
        let i = unat (block div 8) in
        s\<lparr>pmm_bitmap := (pmm_bitmap s)(i := pmm_bitmap s i OR push_bit (unat (block mod 8)) 1)\<rparr>
      else s)"

definition bitmap_clear :: "u64 \<Rightarrow> pmm_state \<Rightarrow> pmm_state" where
  "bitmap_clear block s =
     (if block < PMM_MAX_BLOCKS then
        let i = unat (block div 8) in
        s\<lparr>pmm_bitmap := (pmm_bitmap s)(i := pmm_bitmap s i AND NOT (push_bit (unat (block mod 8)) 1))\<rparr>
      else s)"

definition bitmap_test :: "u64 \<Rightarrow> pmm_state \<Rightarrow> bool" where
  "bitmap_test block s =
     (if block \<ge> PMM_MAX_BLOCKS then True
      else drop_bit (unat (block mod 8)) (pmm_bitmap s (unat (block div 8))) AND 1 \<noteq> 0)"

definition mark_used_body :: "u64 \<Rightarrow> pmm_state \<Rightarrow> pmm_state" where
  "mark_used_body block s =
     (if block < PMM_MAX_BLOCKS \<and> \<not> bitmap_test block s
      then (bitmap_set block s)\<lparr>pmm_used_blocks := pmm_used_blocks s + 1\<rparr> else s)"

definition pmm_mark_region_used :: "u64 \<Rightarrow> u64 \<Rightarrow> pmm_state \<Rightarrow> pmm_state" where
  "pmm_mark_region_used base_addr len s =
     (let start_block = PMM_ADDR_TO_BLOCK base_addr;
          num_blocks = PMM_ALIGN_UP len div PMM_BLOCK_SIZE
      in for_upto (unat num_blocks) (\<lambda>i. mark_used_body (start_block + of_nat i)) s)"

definition mark_free_body :: "u64 \<Rightarrow> pmm_state \<Rightarrow> pmm_state" where
  "mark_free_body block s =
     (if block < PMM_MAX_BLOCKS \<and> bitmap_test block s
      then (bitmap_clear block s)\<lparr>pmm_used_blocks := pmm_used_blocks s - 1\<rparr> else s)"

definition pmm_mark_region_free :: "u64 \<Rightarrow> u64 \<Rightarrow> pmm_state \<Rightarrow> pmm_state" where
  "pmm_mark_region_free base_addr len s =
     (let start_block = PMM_ADDR_TO_BLOCK base_addr;
          num_blocks = len div PMM_BLOCK_SIZE
      in for_upto (unat num_blocks) (\<lambda>i. mark_free_body (start_block + of_nat i)) s)"

text \<open>
  \<open>pmm_find_first_free\<close> scans whole bytes below \<^verbatim>\<open>pmm_total_blocks / 8\<close>; the inner loop over the
  eight bits of a byte returns the first clear bit whose block is below \<^verbatim>\<open>pmm_total_blocks\<close>.
\<close>

definition find_free_bit :: "pmm_state \<Rightarrow> nat \<Rightarrow> nat option" where
  "find_free_bit s i =
     find (\<lambda>j. pmm_bitmap s i AND push_bit j 1 = 0 \<and> i * 8 + j < unat (pmm_total_blocks s)) [0..<8]"

fun find_free_byte :: "pmm_state \<Rightarrow> nat list \<Rightarrow> int" where
  "find_free_byte s [] = -1"
| "find_free_byte s (i # is) =
     (if pmm_bitmap s i \<noteq> 0xFF then
        (case find_free_bit s i of
           Some j \<Rightarrow> int (i * 8 + j)
         | None \<Rightarrow> find_free_byte s is)
      else find_free_byte s is)"

definition pmm_find_first_free :: "pmm_state \<Rightarrow> int" where
  "pmm_find_first_free s =
     (let bitmap_bytes = pmm_total_blocks s div 8;
          bitmap_bytes = (if bitmap_bytes > PMM_BITMAP_SIZE then PMM_BITMAP_SIZE else bitmap_bytes)
      in find_free_byte s [0..<unat bitmap_bytes])"

fun find_sequence_loop :: "pmm_state \<Rightarrow> nat \<Rightarrow> nat list \<Rightarrow> nat \<Rightarrow> nat \<Rightarrow> int" where
  "find_sequence_loop s count [] consecutive start_block = -1"
| "find_sequence_loop s count (block # blocks) consecutive start_block =
     (if \<not> bitmap_test (of_nat block) s then
        let start_block = (if consecutive = 0 then block else start_block);
            consecutive = Suc consecutive
        in if consecutive \<ge> count then int start_block
           else find_sequence_loop s count blocks consecutive start_block
      else find_sequence_loop s count blocks 0 start_block)"

definition pmm_find_first_free_sequence :: "u64 \<Rightarrow> pmm_state \<Rightarrow> int" where
  "pmm_find_first_free_sequence count s =
     (if count = 0 then -1
      else if count = 1 then pmm_find_first_free s
      else find_sequence_loop s (unat count) [0..<unat (pmm_total_blocks s)] 0 0)"

section \<open>The public functions\<close>

fun memmap_end :: "limine_memmap_entry list \<Rightarrow> u64 \<Rightarrow> u64" where
  "memmap_end [] m = m"
| "memmap_end (e # es) m =
     (let entry_end = me_base e + me_length e
      in memmap_end es (if entry_end > m then entry_end else m))"

definition release_entry :: "limine_memmap_entry \<Rightarrow> pmm_state \<Rightarrow> pmm_state" where
  "release_entry e s =
     (if me_base e \<ge> PMM_MAX_MEMORY then s
      else if me_type e = LIMINE_MEMMAP_USABLE then
        let len = (if me_base e + me_length e > PMM_MAX_MEMORY
                      then PMM_MAX_MEMORY - me_base e else me_length e);
            aligned_base = PMM_ALIGN_UP (me_base e)
        in if aligned_base > me_base e \<and> \<not> len > aligned_base - me_base e then s
           else
             let len = (if aligned_base > me_base e then len - (aligned_base - me_base e) else len);
                 len = PMM_ALIGN_DOWN len
             in if len \<ge> PMM_BLOCK_SIZE then pmm_mark_region_free aligned_base len s else s
      else s)"

definition init_pmm_limine :: "limine_memmap_entry list option \<Rightarrow> u64 \<Rightarrow> pmm_state \<Rightarrow> pmm_state" where
  "init_pmm_limine memmap hhdm_offset s0 =
     (let s = s0\<lparr>pmm_hhdm_offset := hhdm_offset\<rparr> in
      case memmap of
        None \<Rightarrow> s
      | Some [] \<Rightarrow> s
      | Some entries \<Rightarrow>
          let size = memmap_end entries 0;
              size = (if size > PMM_MAX_MEMORY then PMM_MAX_MEMORY else size);
              total = size div PMM_BLOCK_SIZE;
              s = s\<lparr>pmm_memory_size := size, pmm_total_blocks := total, pmm_used_blocks := total,
                    pmm_bitmap := (\<lambda>i. if i < unat PMM_BITMAP_SIZE then 0xFF else pmm_bitmap s0 i)\<rparr>;
              s = fold release_entry entries s
          in pmm_mark_region_used 0 0x100000 s)"

definition pmm_alloc_block :: "pmm_state \<Rightarrow> u64 \<times> pmm_state" where
  "pmm_alloc_block s =
     (if pmm_used_blocks s \<ge> pmm_total_blocks s then (0, s)
      else let block = pmm_find_first_free s in
        if block < 0 then (0, s)
        else let s' = bitmap_set (of_int block) s
             in (PMM_BLOCK_TO_ADDR (of_int block) + pmm_hhdm_offset s,
                 s'\<lparr>pmm_used_blocks := pmm_used_blocks s + 1\<rparr>))"

definition pmm_alloc_blocks :: "u64 \<Rightarrow> pmm_state \<Rightarrow> u64 \<times> pmm_state" where
  "pmm_alloc_blocks count s =
     (if count = 0 then (0, s)
      else if count = 1 then pmm_alloc_block s
      else let start_block = pmm_find_first_free_sequence count s in
        if start_block < 0 then (0, s)
        else (PMM_BLOCK_TO_ADDR (of_int start_block) + pmm_hhdm_offset s,
              for_upto (unat count)
                (\<lambda>i t. (bitmap_set (of_int start_block + of_nat i) t)
                          \<lparr>pmm_used_blocks := pmm_used_blocks t + 1\<rparr>) s))"

definition pmm_free_block :: "u64 \<Rightarrow> pmm_state \<Rightarrow> pmm_state" where
  "pmm_free_block p s =
     (let addr = p - pmm_hhdm_offset s; block = PMM_ADDR_TO_BLOCK addr in
      if block \<ge> pmm_total_blocks s then s
      else if bitmap_test block s
      then (bitmap_clear block s)\<lparr>pmm_used_blocks := pmm_used_blocks s - 1\<rparr> else s)"

definition free_blocks_body :: "u64 \<Rightarrow> pmm_state \<Rightarrow> pmm_state" where
  "free_blocks_body block s =
     (if block < pmm_total_blocks s \<and> bitmap_test block s
      then (bitmap_clear block s)\<lparr>pmm_used_blocks := pmm_used_blocks s - 1\<rparr> else s)"

definition pmm_free_blocks :: "u64 \<Rightarrow> u64 \<Rightarrow> pmm_state \<Rightarrow> pmm_state" where
  "pmm_free_blocks p count s =
     (if count = 0 \<or> p = 0 then s
      else let addr = p - pmm_hhdm_offset s; start_block = PMM_ADDR_TO_BLOCK addr
           in for_upto (unat count) (\<lambda>i. free_blocks_body (start_block + of_nat i)) s)"

definition pmm_get_total_blocks :: "pmm_state \<Rightarrow> u64" where
  "pmm_get_total_blocks s = pmm_total_blocks s"

definition pmm_get_used_blocks :: "pmm_state \<Rightarrow> u64" where
  "pmm_get_used_blocks s = pmm_used_blocks s"

definition pmm_get_free_blocks :: "pmm_state \<Rightarrow> u64" where
  "pmm_get_free_blocks s = pmm_total_blocks s - pmm_used_blocks s"

definition pmm_get_free_memory :: "pmm_state \<Rightarrow> u64" where
  "pmm_get_free_memory s = pmm_get_free_blocks s * PMM_BLOCK_SIZE"

definition pmm_phys_to_virt :: "u64 \<Rightarrow> pmm_state \<Rightarrow> u64" where
  "pmm_phys_to_virt phys s = phys + pmm_hhdm_offset s"

definition pmm_virt_to_phys :: "u64 \<Rightarrow> pmm_state \<Rightarrow> u64" where
  "pmm_virt_to_phys virt s = virt - pmm_hhdm_offset s"

section \<open>The bitmap as a predicate on block numbers\<close>

definition blk_used :: "pmm_state \<Rightarrow> nat \<Rightarrow> bool" where
  "blk_used s n = bit (pmm_bitmap s (n div 8)) (n mod 8)"

lemma unat_PMM_MAX_BLOCKS [simp]: "unat PMM_MAX_BLOCKS = 1048576"
  by (simp add: PMM_MAX_BLOCKS_def c_defs)

lemma unat_PMM_BITMAP_SIZE [simp]: "unat PMM_BITMAP_SIZE = 131072"
  by (simp add: PMM_BITMAP_SIZE_def PMM_MAX_BLOCKS_def c_defs)

lemma unat_div_8 [simp]: "unat ((b :: u64) div 8) = unat b div 8"
  by (simp add: unat_div)

lemma unat_mod_8 [simp]: "unat ((b :: u64) mod 8) = unat b mod 8"
  by (simp add: unat_mod)

lemma block_lt_max_iff [simp]: "b < PMM_MAX_BLOCKS \<longleftrightarrow> unat b < 1048576"
  by (simp add: word_less_nat_alt)

lemma block_ge_max_iff [simp]: "PMM_MAX_BLOCKS \<le> b \<longleftrightarrow> 1048576 \<le> unat b"
  by (simp add: word_le_nat_alt)

lemma bitmap_index_in_range: "b < PMM_MAX_BLOCKS \<Longrightarrow> unat (b div 8) < unat PMM_BITMAP_SIZE"
  by simp

lemma bit_exp_u8: "k < 8 \<Longrightarrow> bit ((2 :: u8) ^ k) j \<longleftrightarrow> j = k"
  by (auto simp: bit_exp_iff)

lemma and_push_1_u8: "k < 8 \<Longrightarrow> x AND push_bit k (1 :: u8) = 0 \<longleftrightarrow> \<not> bit x k"
  by (simp add: and_exp_eq_0_iff_not_bit)

lemma bitmap_test_iff: "bitmap_test b s \<longleftrightarrow> unat b < 1048576 \<longrightarrow> blk_used s (unat b)"
  by (auto simp: bitmap_test_def blk_used_def and_one_eq bit_iff_odd_drop_bit odd_iff_mod_2_eq_one)

lemma same_block_iff: "(n :: nat) div 8 = m div 8 \<and> n mod 8 = m mod 8 \<longleftrightarrow> n = m"
  by (metis div_mod_decomp)

lemma blk_used_set [simp]:
  assumes "unat b < 1048576"
  shows "blk_used (bitmap_set b s) = (\<lambda>n. n = unat b \<or> blk_used s n)"
proof
  fix n
  show "blk_used (bitmap_set b s) n = (n = unat b \<or> blk_used s n)"
    using same_block_iff [of n "unat b"] assms
    by (auto simp: bitmap_set_def blk_used_def Let_def bit_or_iff bit_exp_u8)
qed

lemma blk_used_clear [simp]:
  assumes "unat b < 1048576"
  shows "blk_used (bitmap_clear b s) = (\<lambda>n. n \<noteq> unat b \<and> blk_used s n)"
proof
  fix n
  show "blk_used (bitmap_clear b s) n = (n \<noteq> unat b \<and> blk_used s n)"
    using same_block_iff [of n "unat b"] assms
    by (auto simp: bitmap_clear_def blk_used_def Let_def bit_and_iff bit_not_iff bit_exp_u8)
qed

lemma blk_used_used_update [simp]: "blk_used (s\<lparr>pmm_used_blocks := u\<rparr>) = blk_used s"
  by (rule ext) (simp add: blk_used_def)

lemma blk_used_hhdm_update [simp]: "blk_used (s\<lparr>pmm_hhdm_offset := u\<rparr>) = blk_used s"
  by (rule ext) (simp add: blk_used_def)

lemma bitmap_set_fields [simp]:
  "pmm_total_blocks (bitmap_set b s) = pmm_total_blocks s"
  "pmm_used_blocks (bitmap_set b s) = pmm_used_blocks s"
  "pmm_memory_size (bitmap_set b s) = pmm_memory_size s"
  "pmm_hhdm_offset (bitmap_set b s) = pmm_hhdm_offset s"
  by (simp_all add: bitmap_set_def Let_def)

lemma bitmap_clear_fields [simp]:
  "pmm_total_blocks (bitmap_clear b s) = pmm_total_blocks s"
  "pmm_used_blocks (bitmap_clear b s) = pmm_used_blocks s"
  "pmm_memory_size (bitmap_clear b s) = pmm_memory_size s"
  "pmm_hhdm_offset (bitmap_clear b s) = pmm_hhdm_offset s"
  by (simp_all add: bitmap_clear_def Let_def)

section \<open>The invariant\<close>

text \<open>
  The counter is the number of used blocks below \<^verbatim>\<open>pmm_total_blocks\<close>, and every block of the
  bitmap at or above \<^verbatim>\<open>pmm_total_blocks\<close> is marked used.
\<close>

definition pmm_inv :: "pmm_state \<Rightarrow> bool" where
  "pmm_inv s \<longleftrightarrow>
     unat (pmm_total_blocks s) \<le> 1048576 \<and>
     unat (pmm_used_blocks s) = count_below (unat (pmm_total_blocks s)) (blk_used s) \<and>
     (\<forall>n. unat (pmm_total_blocks s) \<le> n \<and> n < 1048576 \<longrightarrow> blk_used s n)"

lemma pmm_inv_used_le: "pmm_inv s \<Longrightarrow> unat (pmm_used_blocks s) \<le> unat (pmm_total_blocks s)"
  using count_below_le [of "unat (pmm_total_blocks s)" "blk_used s"] by (simp add: pmm_inv_def)

text \<open>Setting a free block and counting it, or clearing a used one, keeps the invariant.\<close>

lemma pmm_inv_set:
  assumes inv: "pmm_inv s" and b: "unat b < unat (pmm_total_blocks s)" "\<not> blk_used s (unat b)"
  shows "pmm_inv ((bitmap_set b s)\<lparr>pmm_used_blocks := pmm_used_blocks s + 1\<rparr>)"
proof -
  let ?n = "unat (pmm_total_blocks s)"
  have max: "unat b < 1048576" "?n \<le> 1048576" using inv b by (auto simp: pmm_inv_def)
  have "unat (pmm_used_blocks s) < ?n"
    using count_below_lt [of "unat b" ?n "blk_used s"] inv b by (simp add: pmm_inv_def)
  then have "unat (pmm_used_blocks s + 1) = Suc (unat (pmm_used_blocks s))"
    using max by (intro unat_inc_u64) simp
  moreover have "count_below ?n (blk_used (bitmap_set b s)) = Suc (count_below ?n (blk_used s))"
    using count_below_insert [of "unat b" ?n "blk_used s"] b max by simp
  ultimately show ?thesis
    using inv max by (auto simp: pmm_inv_def)
qed

lemma pmm_inv_clear:
  assumes inv: "pmm_inv s" and b: "unat b < unat (pmm_total_blocks s)" "blk_used s (unat b)"
  shows "pmm_inv ((bitmap_clear b s)\<lparr>pmm_used_blocks := pmm_used_blocks s - 1\<rparr>)"
proof -
  let ?n = "unat (pmm_total_blocks s)"
  have max: "unat b < 1048576" "?n \<le> 1048576" using inv b by (auto simp: pmm_inv_def)
  have pos: "0 < unat (pmm_used_blocks s)"
    using count_below_pos [of "unat b" ?n "blk_used s"] inv b by (simp add: pmm_inv_def)
  then have "Suc (unat (pmm_used_blocks s - 1)) = unat (pmm_used_blocks s)"
    by (simp add: unat_dec_u64)
  moreover have "Suc (count_below ?n (blk_used (bitmap_clear b s))) = count_below ?n (blk_used s)"
    using count_below_remove [of "unat b" ?n "blk_used s"] b max by simp
  ultimately show ?thesis
    using inv max b by (auto simp: pmm_inv_def)
qed

section \<open>The search loops\<close>

lemma find_free_bit_SomeD:
  assumes "find_free_bit s i = Some j"
  shows "j < 8 \<and> i * 8 + j < unat (pmm_total_blocks s) \<and> \<not> blk_used s (i * 8 + j) \<and>
         (\<forall>k < j. blk_used s (i * 8 + k))"
proof -
  from assms have j: "j < 8" "\<not> bit (pmm_bitmap s i) j" "i * 8 + j < unat (pmm_total_blocks s)"
    and least: "\<forall>k < j. bit (pmm_bitmap s i) k \<or> \<not> i * 8 + k < unat (pmm_total_blocks s)"
    by (auto simp: find_free_bit_def find_Some_iff and_push_1_u8 simp del: push_bit_of_1 upt_Suc)
  with j show ?thesis by (auto simp: blk_used_def)
qed

lemma find_free_bit_NoneD:
  assumes "find_free_bit s i = None" and "k < 8" and "i * 8 + k < unat (pmm_total_blocks s)"
  shows "blk_used s (i * 8 + k)"
proof -
  from assms have "pmm_bitmap s i AND push_bit k 1 \<noteq> 0"
    by (auto simp: find_free_bit_def find_None_iff simp del: push_bit_of_1 upt_Suc)
  with assms(2) show ?thesis by (simp add: and_push_1_u8 blk_used_def del: push_bit_of_1)
qed

lemma full_byte_used: "pmm_bitmap s i = 0xFF \<Longrightarrow> k < 8 \<Longrightarrow> blk_used s (i * 8 + k)"
proof -
  assume full: "pmm_bitmap s i = 0xFF" and k: "k < 8"
  have "(0xFF :: u8) = - 1" by simp
  with full k show ?thesis by (simp only: blk_used_def) simp
qed

text \<open>The byte scan is a search for the least free block in the scanned range.\<close>

definition least_free :: "pmm_state \<Rightarrow> nat \<Rightarrow> nat \<Rightarrow> nat \<Rightarrow> bool" where
  "least_free s lo hi n \<longleftrightarrow>
     lo \<le> n \<and> n < hi \<and> \<not> blk_used s n \<and> (\<forall>k. lo \<le> k \<and> k < n \<longrightarrow> blk_used s k)"

lemma least_free_skip:
  assumes "\<And>k. k < 8 \<Longrightarrow> a * 8 + k < unat (pmm_total_blocks s) \<Longrightarrow> blk_used s (a * 8 + k)"
    and "least_free s (Suc a * 8) m n" and "n < unat (pmm_total_blocks s)"
  shows "least_free s (a * 8) m n"
  unfolding least_free_def
proof (intro conjI allI impI)
  fix k assume k: "a * 8 \<le> k \<and> k < n"
  show "blk_used s k"
  proof (cases "k < Suc a * 8")
    case True
    with k assms(1) [of "k - a * 8"] assms(3) show ?thesis by simp
  next
    case False
    with k assms(2) show ?thesis by (auto simp: least_free_def)
  qed
qed (use assms in \<open>auto simp: least_free_def\<close>)

lemma find_free_byte_spec:
  "(find_free_byte s [a..<m] = -1 \<and>
      (\<forall>n. a * 8 \<le> n \<and> n < m * 8 \<and> n < unat (pmm_total_blocks s) \<longrightarrow> blk_used s n)) \<or>
   (\<exists>n. find_free_byte s [a..<m] = int n \<and> n < unat (pmm_total_blocks s) \<and>
      least_free s (a * 8) (m * 8) n)"
proof (induction "m - a" arbitrary: a)
  case 0
  then show ?case by auto
next
  case (Suc d)
  then have am: "a < m" by simp
  then have upt: "[a..<m] = a # [Suc a..<m]" by (rule upt_conv_Cons)
  show ?case
  proof (cases "\<exists>j. pmm_bitmap s a \<noteq> 0xFF \<and> find_free_bit s a = Some j")
    case True
    then obtain j where j: "pmm_bitmap s a \<noteq> 0xFF" "find_free_bit s a = Some j" by blast
    have "least_free s (a * 8) (m * 8) (a * 8 + j)"
      unfolding least_free_def
    proof (intro conjI allI impI)
      fix k assume "a * 8 \<le> k \<and> k < a * 8 + j"
      then obtain i where "k = a * 8 + i" "i < j" by (metis add_less_cancel_left le_iff_add)
      with find_free_bit_SomeD [OF j(2)] show "blk_used s k" by simp
    qed (use find_free_bit_SomeD [OF j(2)] am in auto)
    moreover have "find_free_byte s [a..<m] = int (a * 8 + j)" using j upt by simp
    ultimately show ?thesis using find_free_bit_SomeD [OF j(2)] by blast
  next
    case False
    have used: "blk_used s (a * 8 + k)" if "k < 8" "a * 8 + k < unat (pmm_total_blocks s)" for k
      using False find_free_bit_NoneD [of s a k] full_byte_used [of s a k] that by fastforce
    have step: "find_free_byte s [a..<m] = find_free_byte s [Suc a..<m]"
      using False upt by (auto split: option.splits)
    from Suc have "d = m - Suc a" by simp
    from Suc.hyps(1) [OF this] show ?thesis
    proof (elim disjE exE conjE)
      assume none: "find_free_byte s [Suc a..<m] = -1"
        and rest: "\<forall>n. Suc a * 8 \<le> n \<and> n < m * 8 \<and> n < unat (pmm_total_blocks s) \<longrightarrow> blk_used s n"
      have "blk_used s n" if n: "a * 8 \<le> n" "n < m * 8" "n < unat (pmm_total_blocks s)" for n
        using rest used [of "n - a * 8"] n by (cases "n < Suc a * 8") auto
      with none step show ?thesis by simp
    next
      fix n
      assume "find_free_byte s [Suc a..<m] = int n" and "n < unat (pmm_total_blocks s)"
        and "least_free s (Suc a * 8) (m * 8) n"
      then show ?thesis using least_free_skip [OF used] step by auto
    qed
  qed
qed

text \<open>Blocks that the byte scan can reach: the last, incomplete byte is left out.\<close>

definition scanned_blocks :: "pmm_state \<Rightarrow> nat" where
  "scanned_blocks s = 8 * (unat (pmm_total_blocks s) div 8)"

lemma scanned_blocks_le: "scanned_blocks s \<le> unat (pmm_total_blocks s)"
  by (simp add: scanned_blocks_def)

lemma pmm_find_first_free_cases:
  assumes "unat (pmm_total_blocks s) \<le> 1048576"
  obtains (none) "pmm_find_first_free s = -1" "\<forall>n < scanned_blocks s. blk_used s n"
  | (found) n where "pmm_find_first_free s = int n" "least_free s 0 (scanned_blocks s) n"
proof -
  let ?m = "unat (pmm_total_blocks s) div 8"
  have eq: "pmm_find_first_free s = find_free_byte s [0..<?m]"
    using assms by (auto simp: pmm_find_first_free_def Let_def word_less_nat_alt)
  from find_free_byte_spec [of s 0 ?m] show thesis
  proof (elim disjE exE conjE)
    assume "find_free_byte s [0..<?m] = -1"
      and "\<forall>n. 0 * 8 \<le> n \<and> n < ?m * 8 \<and> n < unat (pmm_total_blocks s) \<longrightarrow> blk_used s n"
    then show thesis
      using none eq scanned_blocks_le [of s] by (force simp: scanned_blocks_def mult.commute)
  next
    fix n assume "find_free_byte s [0..<?m] = int n" and "least_free s (0 * 8) (?m * 8) n"
    then show thesis using found [of n] eq by (simp add: scanned_blocks_def mult.commute)
  qed
qed

text \<open>
  The sequence search returns the least start of a run of \<open>count\<close> free blocks. The loop invariant:
  the last \<open>c\<close> blocks before \<open>b\<close> are free, and no run starts before them.
\<close>

definition free_run :: "pmm_state \<Rightarrow> nat \<Rightarrow> nat \<Rightarrow> bool" where
  "free_run s x count \<longleftrightarrow> (\<forall>k. x \<le> k \<and> k < x + count \<longrightarrow> \<not> blk_used s k)"

lemma find_sequence_loop_spec:
  assumes "t \<le> 1048576" and "b \<le> t" and "c \<le> b" and "c < count"
    and "0 < c \<longrightarrow> st = b - c"
    and "\<forall>k. b - c \<le> k \<and> k < b \<longrightarrow> \<not> blk_used s k"
    and "\<forall>x < b - c. \<not> free_run s x count"
  shows "(find_sequence_loop s count [b..<t] c st = -1 \<and>
            (\<forall>x. x + count \<le> t \<longrightarrow> \<not> free_run s x count)) \<or>
         (\<exists>x. find_sequence_loop s count [b..<t] c st = int x \<and> x + count \<le> t \<and>
            free_run s x count \<and> (\<forall>y < x. \<not> free_run s y count))"
  using assms
proof (induction "t - b" arbitrary: b c st)
  case 0
  then show ?case by auto
next
  case (Suc d)
  then have bt: "b < t" by simp
  then have upt: "[b..<t] = b # [Suc b..<t]" by (rule upt_conv_Cons)
  from bt Suc.prems(1) have test: "bitmap_test (of_nat b) s \<longleftrightarrow> blk_used s b"
    by (simp add: bitmap_test_iff)
  from Suc.hyps(2) have d: "d = t - Suc b" by simp
  show ?case
  proof (cases "blk_used s b")
    case True
    have "\<not> free_run s x count" if "x < Suc b" for x
    proof (cases "x < b - c")
      case True
      with Suc.prems(7) show ?thesis by blast
    next
      case False
      with that Suc.prems(3,4) have "x \<le> b" "b < x + count" by auto
      with \<open>blk_used s b\<close> show ?thesis by (auto simp: free_run_def)
    qed
    then have later: "\<forall>x < Suc b - 0. \<not> free_run s x count" by simp
    have "\<forall>k. Suc b - 0 \<le> k \<and> k < Suc b \<longrightarrow> \<not> blk_used s k" by auto
    from Suc.hyps(1) [OF d, of 0 st, OF _ _ _ _ _ this later] Suc.prems(1,4) bt
    show ?thesis using True test upt by simp
  next
    case False
    let ?st = "if c = 0 then b else st"
    have st: "?st = b - c" using Suc.prems(3,5) by auto
    have free: "\<forall>k. b - c \<le> k \<and> k < Suc b \<longrightarrow> \<not> blk_used s k"
      using Suc.prems(6) False by (auto simp: less_Suc_eq)
    show ?thesis
    proof (cases "count \<le> Suc c")
      case True
      with Suc.prems(3,4) have "b - c + count = Suc b" by simp
      with free have "free_run s (b - c) count" by (auto simp: free_run_def)
      with True False test upt st bt \<open>b - c + count = Suc b\<close> Suc.prems(7) show ?thesis
        by (auto simp: Let_def)
    next
      case False
      have "Suc b - Suc c = b - c" by simp
      with Suc.hyps(1) [OF d, of "Suc c" ?st] False \<open>\<not> blk_used s b\<close> test upt st bt free Suc.prems
      show ?thesis by (simp add: Let_def)
    qed
  qed
qed

lemma pmm_find_first_free_sequence_cases:
  assumes "unat (pmm_total_blocks s) \<le> 1048576" and "2 \<le> unat count"
  obtains (none) "pmm_find_first_free_sequence count s = -1"
      "\<forall>x. x + unat count \<le> unat (pmm_total_blocks s) \<longrightarrow> \<not> free_run s x (unat count)"
  | (found) x where "pmm_find_first_free_sequence count s = int x"
      "x + unat count \<le> unat (pmm_total_blocks s)" "free_run s x (unat count)"
      "\<forall>y < x. \<not> free_run s y (unat count)"
proof -
  have "count \<noteq> 0" "count \<noteq> 1" using assms(2) by auto
  then have "pmm_find_first_free_sequence count s =
      find_sequence_loop s (unat count) [0..<unat (pmm_total_blocks s)] 0 0"
    by (simp add: pmm_find_first_free_sequence_def)
  with find_sequence_loop_spec [of "unat (pmm_total_blocks s)" 0 0 "unat count" 0 s] assms none found
  show thesis by auto
qed

section \<open>Addresses of blocks\<close>

definition block_addr :: "pmm_state \<Rightarrow> nat \<Rightarrow> u64" where
  "block_addr s n = PMM_BLOCK_TO_ADDR (of_nat n) + pmm_hhdm_offset s"

lemma unat_block_offset: "n < 1048576 \<Longrightarrow> unat (PMM_BLOCK_TO_ADDR (of_nat n)) = n * 4096"
  by (simp add: PMM_BLOCK_TO_ADDR_def c_defs unat_mult_u64)

lemma block_addr_inj:
  assumes "n < 1048576" and "m < 1048576" and "block_addr s n = block_addr s m"
  shows "n = m"
proof -
  from assms(3) have "PMM_BLOCK_TO_ADDR (of_nat n) = PMM_BLOCK_TO_ADDR (of_nat m)"
    by (simp add: block_addr_def)
  then have "n * 4096 = m * 4096"
    using unat_block_offset [OF assms(1)] unat_block_offset [OF assms(2)] by metis
  then show ?thesis by simp
qed

lemma addr_to_block_addr:
  assumes "n < 1048576"
  shows "PMM_ADDR_TO_BLOCK (block_addr s n - pmm_hhdm_offset s) = of_nat n"
proof -
  have "block_addr s n - pmm_hhdm_offset s = PMM_BLOCK_TO_ADDR (of_nat n)"
    by (simp add: block_addr_def)
  then have "unat (PMM_ADDR_TO_BLOCK (block_addr s n - pmm_hhdm_offset s)) = n"
    using unat_block_offset [OF assms] by (simp add: PMM_ADDR_TO_BLOCK_def PMM_BLOCK_SIZE_def unat_div)
  also have "n = unat (of_nat n :: u64)" using assms by simp
  finally show ?thesis by (simp only: word_unat_eq_iff)
qed

section \<open>Allocation and release\<close>

text \<open>The state after block \<open>n\<close> has been taken or given back.\<close>

definition take_block :: "nat \<Rightarrow> pmm_state \<Rightarrow> pmm_state" where
  "take_block n s = (bitmap_set (of_nat n) s)\<lparr>pmm_used_blocks := pmm_used_blocks s + 1\<rparr>"

definition drop_block :: "nat \<Rightarrow> pmm_state \<Rightarrow> pmm_state" where
  "drop_block n s = (bitmap_clear (of_nat n) s)\<lparr>pmm_used_blocks := pmm_used_blocks s - 1\<rparr>"

lemma take_block_fields [simp]:
  "pmm_total_blocks (take_block n s) = pmm_total_blocks s"
  "pmm_hhdm_offset (take_block n s) = pmm_hhdm_offset s"
  "pmm_memory_size (take_block n s) = pmm_memory_size s"
  "pmm_used_blocks (take_block n s) = pmm_used_blocks s + 1"
  "n < 1048576 \<Longrightarrow> blk_used (take_block n s) = (blk_used s)(n := True)"
  by (auto simp: take_block_def fun_eq_iff)

lemma drop_block_fields [simp]:
  "pmm_total_blocks (drop_block n s) = pmm_total_blocks s"
  "pmm_hhdm_offset (drop_block n s) = pmm_hhdm_offset s"
  "pmm_memory_size (drop_block n s) = pmm_memory_size s"
  "pmm_used_blocks (drop_block n s) = pmm_used_blocks s - 1"
  "n < 1048576 \<Longrightarrow> blk_used (drop_block n s) = (blk_used s)(n := False)"
  by (auto simp: drop_block_def fun_eq_iff)

lemma pmm_inv_take_block:
  "pmm_inv s \<Longrightarrow> n < unat (pmm_total_blocks s) \<Longrightarrow> \<not> blk_used s n \<Longrightarrow> pmm_inv (take_block n s)"
  unfolding take_block_def by (rule pmm_inv_set) (auto simp: pmm_inv_def)

lemma pmm_inv_drop_block:
  "pmm_inv s \<Longrightarrow> n < unat (pmm_total_blocks s) \<Longrightarrow> blk_used s n \<Longrightarrow> pmm_inv (drop_block n s)"
  unfolding drop_block_def by (rule pmm_inv_clear) (auto simp: pmm_inv_def)

lemma drop_take_block:
  assumes "n < 1048576" and "\<not> blk_used s n"
  shows "drop_block n (take_block n s) = s"
proof -
  let ?i = "n div 8" and ?k = "n mod 8"
  have "(pmm_bitmap s ?i OR 2 ^ ?k) AND NOT (2 ^ ?k) = pmm_bitmap s ?i"
    using assms(2) by (intro bit_word_eqI) (auto simp: bit_simps blk_used_def)
  moreover have "pmm_used_blocks s + 1 - 1 = pmm_used_blocks s" by simp
  ultimately show ?thesis
    using assms(1) by (simp add: drop_block_def take_block_def bitmap_set_def bitmap_clear_def Let_def)
qed

lemma least_freeD:
  assumes "least_free s 0 (scanned_blocks s) n"
  shows "n < unat (pmm_total_blocks s)" "\<not> blk_used s n" "\<And>k. k < n \<Longrightarrow> blk_used s k"
  using assms scanned_blocks_le [of s] by (auto simp: least_free_def)

lemma pmm_alloc_block_cases:
  assumes inv: "pmm_inv s"
  obtains (none) "pmm_alloc_block s = (0, s)" "\<forall>n < scanned_blocks s. blk_used s n"
  | (found) n where "pmm_alloc_block s = (block_addr s n, take_block n s)"
      "least_free s 0 (scanned_blocks s) n"
proof -
  from inv have "unat (pmm_total_blocks s) \<le> 1048576" by (simp add: pmm_inv_def)
  then show thesis
  proof (cases rule: pmm_find_first_free_cases)
    case none
    then show thesis by (intro that(1)) (auto simp: pmm_alloc_block_def)
  next
    case (found n)
    have "unat (pmm_used_blocks s) < unat (pmm_total_blocks s)"
      using count_below_lt [of n _ "blk_used s"] least_freeD(1,2) [OF found(2)] inv
      by (simp add: pmm_inv_def)
    with found show thesis
      by (intro that(2) [of n])
         (auto simp: pmm_alloc_block_def Let_def block_addr_def take_block_def word_le_nat_alt)
  qed
qed

lemma pmm_alloc_block_inv: "pmm_inv s \<Longrightarrow> pmm_inv (snd (pmm_alloc_block s))"
  by (frule pmm_alloc_block_cases) (auto intro: pmm_inv_take_block dest: least_freeD)

text \<open>A run of blocks is taken one by one.\<close>

definition take_run :: "nat \<Rightarrow> nat \<Rightarrow> pmm_state \<Rightarrow> pmm_state" where
  "take_run x count s = for_upto count (\<lambda>i. take_block (x + i)) s"

lemma take_run_spec:
  assumes "pmm_inv s" and "x + count \<le> unat (pmm_total_blocks s)" and "free_run s x count"
  shows "pmm_inv (take_run x count s) \<and>
    pmm_total_blocks (take_run x count s) = pmm_total_blocks s \<and>
    pmm_hhdm_offset (take_run x count s) = pmm_hhdm_offset s \<and>
    blk_used (take_run x count s) = (\<lambda>n. (x \<le> n \<and> n < x + count) \<or> blk_used s n)"
  using assms(2,3)
proof (induction count)
  case 0
  with assms(1) show ?case by (auto simp: take_run_def)
next
  case (Suc count)
  let ?t = "take_run x count s"
  have t: "take_run x (Suc count) s = take_block (x + count) ?t" by (simp add: take_run_def)
  have IH: "pmm_inv ?t" "pmm_total_blocks ?t = pmm_total_blocks s"
    "pmm_hhdm_offset ?t = pmm_hhdm_offset s"
    "blk_used ?t = (\<lambda>n. (x \<le> n \<and> n < x + count) \<or> blk_used s n)"
    using Suc by (auto simp: free_run_def)
  have lt: "x + count < unat (pmm_total_blocks s)" using Suc.prems by simp
  have max: "unat (pmm_total_blocks s) \<le> 1048576" using assms(1) by (simp add: pmm_inv_def)
  have free: "\<not> blk_used ?t (x + count)" using IH(4) Suc.prems(2) by (simp add: free_run_def)
  have "pmm_inv (take_block (x + count) ?t)"
    using IH(1,2) lt free by (intro pmm_inv_take_block) simp_all
  moreover have "blk_used (take_block (x + count) ?t) = (\<lambda>n. (x \<le> n \<and> n < x + Suc count) \<or> blk_used s n)"
  proof
    fix n
    show "blk_used (take_block (x + count) ?t) n = ((x \<le> n \<and> n < x + Suc count) \<or> blk_used s n)"
      using lt max IH(4) by (cases "n = x + count") auto
  qed
  ultimately show ?case unfolding t using IH(2,3) by simp
qed

lemma pmm_alloc_blocks_cases:
  assumes inv: "pmm_inv s" and count: "2 \<le> unat count"
  obtains (none) "pmm_alloc_blocks count s = (0, s)"
      "\<forall>x. x + unat count \<le> unat (pmm_total_blocks s) \<longrightarrow> \<not> free_run s x (unat count)"
  | (found) x where "pmm_alloc_blocks count s = (block_addr s x, take_run x (unat count) s)"
      "x + unat count \<le> unat (pmm_total_blocks s)" "free_run s x (unat count)"
      "\<forall>y < x. \<not> free_run s y (unat count)"
proof -
  have nz: "count \<noteq> 0" "count \<noteq> 1" using count by auto
  from inv have "unat (pmm_total_blocks s) \<le> 1048576" by (simp add: pmm_inv_def)
  from this count show thesis
  proof (cases rule: pmm_find_first_free_sequence_cases)
    case none
    with nz show thesis by (intro that(1)) (auto simp: pmm_alloc_blocks_def)
  next
    case (found x)
    with nz show thesis
      by (intro that(2) [of x])
         (auto simp: pmm_alloc_blocks_def Let_def block_addr_def take_run_def take_block_def [abs_def])
  qed
qed

lemma pmm_alloc_blocks_inv: "pmm_inv s \<Longrightarrow> pmm_inv (snd (pmm_alloc_blocks count s))"
proof -
  assume inv: "pmm_inv s"
  consider "count = 0" | "count = 1" | "2 \<le> unat count" using u64_0_1_or_more by blast
  then show ?thesis
  proof cases
    case 1
    with inv show ?thesis by (simp add: pmm_alloc_blocks_def)
  next
    case 2
    with inv show ?thesis by (simp add: pmm_alloc_blocks_def pmm_alloc_block_inv)
  next
    case 3
    from inv 3 show ?thesis
      by (cases rule: pmm_alloc_blocks_cases) (auto simp: inv take_run_spec)
  qed
qed

lemma free_blocks_body_eq:
  "unat (pmm_total_blocks s) \<le> 1048576 \<Longrightarrow> free_blocks_body b s =
     (if unat b < unat (pmm_total_blocks s) \<and> blk_used s (unat b) then drop_block (unat b) s else s)"
  by (auto simp: free_blocks_body_def drop_block_def bitmap_test_iff word_less_nat_alt)

lemma pmm_free_block_eq:
  "pmm_free_block p s = free_blocks_body (PMM_ADDR_TO_BLOCK (p - pmm_hhdm_offset s)) s"
  by (auto simp: pmm_free_block_def free_blocks_body_def Let_def)

lemma free_blocks_body_inv: "pmm_inv s \<Longrightarrow> pmm_inv (free_blocks_body b s)"
proof -
  assume inv: "pmm_inv s"
  then have "unat (pmm_total_blocks s) \<le> 1048576" by (simp add: pmm_inv_def)
  with inv show ?thesis by (simp add: free_blocks_body_eq pmm_inv_drop_block)
qed

lemma pmm_free_block_inv: "pmm_inv s \<Longrightarrow> pmm_inv (pmm_free_block p s)"
  by (simp add: pmm_free_block_eq free_blocks_body_inv)

lemma pmm_free_blocks_inv: "pmm_inv s \<Longrightarrow> pmm_inv (pmm_free_blocks p count s)"
  unfolding pmm_free_blocks_def Let_def
  by (auto intro!: for_upto_invariant [where I = "\<lambda>_. pmm_inv"] free_blocks_body_inv)

section \<open>Initialisation\<close>

lemma unat_PMM_ALIGN_DOWN: "unat (PMM_ALIGN_DOWN a) = unat a div 4096 * 4096"
  by (simp add: PMM_ALIGN_DOWN_def c_defs unat_align_down_4096)

lemma unat_PMM_ALIGN_UP:
  assumes "unat a \<le> 4294967296"
  shows "unat (PMM_ALIGN_UP a) = (unat a + 4095) div 4096 * 4096"
proof -
  have "a + PMM_BLOCK_SIZE - 1 = a + 4095" by (simp add: c_defs)
  moreover have "unat (a + 4095) = unat a + 4095" using assms by (simp add: unat_add_u64)
  ultimately show ?thesis
    unfolding PMM_ALIGN_UP_def by (simp only:) (simp add: c_defs unat_align_down_4096 add.commute)
qed

lemma mark_free_body_eq:
  "unat b < 1048576 \<Longrightarrow>
   mark_free_body b s = (if blk_used s (unat b) then drop_block (unat b) s else s)"
  by (auto simp: mark_free_body_def drop_block_def bitmap_test_iff)

lemma mark_used_body_eq:
  "unat b < 1048576 \<Longrightarrow>
   mark_used_body b s = (if blk_used s (unat b) then s else take_block (unat b) s)"
  by (auto simp: mark_used_body_def take_block_def bitmap_test_iff)

definition free_range :: "nat \<Rightarrow> nat \<Rightarrow> pmm_state \<Rightarrow> pmm_state" where
  "free_range x count s = for_upto count (\<lambda>i t. if blk_used t (x + i) then drop_block (x + i) t else t) s"

lemma free_range_spec:
  assumes inv: "pmm_inv s" and "x + count \<le> unat (pmm_total_blocks s)"
  shows "pmm_inv (free_range x count s) \<and>
    pmm_total_blocks (free_range x count s) = pmm_total_blocks s \<and>
    pmm_hhdm_offset (free_range x count s) = pmm_hhdm_offset s \<and>
    (\<forall>n. blk_used (free_range x count s) n \<longleftrightarrow> \<not> (x \<le> n \<and> n < x + count) \<and> blk_used s n)"
  using assms(2)
proof (induction count)
  case 0
  with inv show ?case by (simp add: free_range_def)
next
  case (Suc count)
  let ?t = "free_range x count s"
  have t: "free_range x (Suc count) s = (if blk_used ?t (x + count) then drop_block (x + count) ?t else ?t)"
    by (simp add: free_range_def)
  have IH: "pmm_inv ?t" "pmm_total_blocks ?t = pmm_total_blocks s"
    "pmm_hhdm_offset ?t = pmm_hhdm_offset s"
    "\<And>n. blk_used ?t n \<longleftrightarrow> \<not> (x \<le> n \<and> n < x + count) \<and> blk_used s n"
    using Suc by auto
  have lt: "x + count < unat (pmm_total_blocks s)" using Suc.prems by simp
  then have max: "x + count < 1048576" using inv by (simp add: pmm_inv_def)
  show ?case
  proof (cases "blk_used ?t (x + count)")
    case True
    with IH lt have "pmm_inv (drop_block (x + count) ?t)" by (intro pmm_inv_drop_block) simp_all
    moreover have "blk_used (drop_block (x + count) ?t) n \<longleftrightarrow> \<not> (x \<le> n \<and> n < x + Suc count) \<and> blk_used s n" for n
      using IH(4) [of n] max by (cases "n = x + count") auto
    ultimately show ?thesis using t True IH(2,3) by simp
  next
    case False
    then have "\<not> blk_used s (x + count)" using IH(4) by simp
    then have "blk_used ?t n \<longleftrightarrow> \<not> (x \<le> n \<and> n < x + Suc count) \<and> blk_used s n" for n
      using IH(4) [of n] by (cases "n = x + count") auto
    then show ?thesis using t False IH(1-3) by simp
  qed
qed

lemma for_upto_blocks:
  fixes start :: u64
  assumes "unat start + count \<le> 1048576"
    and "\<And>b t. unat b < 1048576 \<Longrightarrow> body b t = f (unat b) t"
  shows "for_upto count (\<lambda>i. body (start + of_nat i)) s = for_upto count (\<lambda>i. f (unat start + i)) s"
proof (rule for_upto_cong)
  fix i u assume "i < count"
  with assms(1) have i: "unat start + i < 1048576" by simp
  then have "unat (start + of_nat i) = unat start + i" by (subst unat_add_u64) simp_all
  with i assms(2) [of "start + of_nat i" u] show "body (start + of_nat i) u = f (unat start + i) u"
    by simp
qed simp_all

lemma pmm_mark_region_free_eq:
  assumes "unat a div 4096 + unat len div 4096 \<le> 1048576"
  shows "pmm_mark_region_free a len s = free_range (unat a div 4096) (unat len div 4096) s"
proof -
  have "unat (PMM_ADDR_TO_BLOCK a) = unat a div 4096" "unat (len div PMM_BLOCK_SIZE) = unat len div 4096"
    by (simp_all add: PMM_ADDR_TO_BLOCK_def PMM_BLOCK_SIZE_def unat_div)
  with for_upto_blocks [of "PMM_ADDR_TO_BLOCK a" "unat len div 4096" mark_free_body
      "\<lambda>n t. if blk_used t n then drop_block n t else t" s] assms mark_free_body_eq
  show ?thesis by (simp add: pmm_mark_region_free_def free_range_def cong: if_cong)
qed

text \<open>The blocks that a memory map entry makes available.\<close>

definition entry_covers :: "limine_memmap_entry \<Rightarrow> nat \<Rightarrow> bool" where
  "entry_covers e n \<longleftrightarrow> me_type e = LIMINE_MEMMAP_USABLE \<and> n < 1048576 \<and>
     unat (me_base e) \<le> n * 4096 \<and> (n + 1) * 4096 \<le> unat (me_base e) + unat (me_length e)"

text \<open>No entry of the map wraps around the 64-bit address space.\<close>

definition memmap_ok :: "limine_memmap_entry list \<Rightarrow> bool" where
  "memmap_ok es = list_all (\<lambda>e. unat (me_base e) + unat (me_length e) < 18446744073709551616) es"

lemma ceil_div_le_iff: "(b + 4095) div 4096 \<le> n \<longleftrightarrow> b \<le> n * (4096 :: nat)"
  by linarith

lemma lt_block_count_iff:
  assumes "A \<le> n"
  shows "n < A + (E - A * 4096) div 4096 \<longleftrightarrow> (n + 1) * 4096 \<le> (E :: nat)"
proof -
  obtain k where k: "n = A + k" using assms le_Suc_ex by blast
  have "Suc k \<le> (E - A * 4096) div 4096 \<longleftrightarrow> Suc k * 4096 \<le> E - A * 4096"
    by (simp only: less_eq_div_iff_mult_less_eq)
  then show ?thesis using k by (auto simp: Suc_le_eq)
qed

lemma entry_covers_iff:
  assumes "me_type e = LIMINE_MEMMAP_USABLE"
    and "A = (unat (me_base e) + 4095) div 4096"
    and "E = min (unat (me_base e) + unat (me_length e)) 4294967296"
  shows "entry_covers e n \<longleftrightarrow> A \<le> n \<and> n < A + (E - A * 4096) div 4096"
proof -
  have "A \<le> n \<longleftrightarrow> unat (me_base e) \<le> n * 4096" using assms(2) ceil_div_le_iff by simp
  moreover have "(n + 1) * 4096 \<le> E \<longleftrightarrow>
      n < 1048576 \<and> (n + 1) * 4096 \<le> unat (me_base e) + unat (me_length e)"
    using assms(3) by auto
  ultimately show ?thesis using assms(1) lt_block_count_iff [of A n E] by (auto simp: entry_covers_def)
qed

text \<open>Releasing a usable entry frees the blocks that lie completely inside it.\<close>

lemma release_entry_usable:
  assumes usable: "me_type e = LIMINE_MEMMAP_USABLE" and lt: "unat (me_base e) < 4294967296"
    and nowrap: "unat (me_base e) + unat (me_length e) < 18446744073709551616"
    and A: "A = (unat (me_base e) + 4095) div 4096"
    and E: "E = min (unat (me_base e) + unat (me_length e)) 4294967296"
  shows "release_entry e s = free_range A ((E - A * 4096) div 4096) s"
proof -
  define len where "len = (if me_base e + me_length e > PMM_MAX_MEMORY
                    then PMM_MAX_MEMORY - me_base e else me_length e)"
  define a where "a = PMM_ALIGN_UP (me_base e)"
  define l where "l = (if a > me_base e then len - (a - me_base e) else len)"
  have max: "unat PMM_MAX_MEMORY = 4294967296" by (simp add: c_defs)
  have "unat (me_base e + me_length e) = unat (me_base e) + unat (me_length e)"
    using nowrap by (rule unat_add_u64)
  then have len: "unat (me_base e) + unat len = E"
    using lt E by (auto simp: len_def word_less_nat_alt max unat_sub_u64 word_le_nat_alt)
  have a: "unat a = A * 4096"
    unfolding a_def A using lt by (intro unat_PMM_ALIGN_UP) simp
  then have a_ge: "me_base e \<le> a" using A by (simp add: word_le_nat_alt)
  have release: "release_entry e s =
     (if a > me_base e \<and> \<not> len > a - me_base e then s
      else if PMM_ALIGN_DOWN l \<ge> PMM_BLOCK_SIZE then pmm_mark_region_free a (PMM_ALIGN_DOWN l) s else s)"
    using usable lt
    by (simp add: release_entry_def Let_def word_le_nat_alt max
        flip: len_def a_def) (simp add: l_def)
  have l: "unat l = E - A * 4096" if "\<not> (a > me_base e \<and> \<not> len > a - me_base e)"
    using that len a a_ge by (auto simp: l_def word_less_nat_alt unat_sub_u64 word_le_nat_alt)
  have small: "free_range A ((E - A * 4096) div 4096) s = s" if "E < A * 4096 + 4096"
  proof -
    have "(E - A * 4096) div 4096 = 0" using that by simp
    then show ?thesis by (simp add: free_range_def)
  qed
  show ?thesis
  proof (cases "a > me_base e \<and> \<not> len > a - me_base e")
    case True
    then have "E \<le> A * 4096" using len a a_ge by (auto simp: word_less_nat_alt unat_sub_u64)
    with True release small show ?thesis by simp
  next
    case False
    then have down: "unat (PMM_ALIGN_DOWN l) = (E - A * 4096) div 4096 * 4096"
      using l by (simp add: unat_PMM_ALIGN_DOWN)
    show ?thesis
    proof (cases "PMM_ALIGN_DOWN l \<ge> PMM_BLOCK_SIZE")
      case True
      then have "1 \<le> (E - A * 4096) div 4096" using down by (simp add: word_le_nat_alt PMM_BLOCK_SIZE_def)
      moreover have "E \<le> 4294967296" using E by simp
      ultimately have "A + (E - A * 4096) div 4096 \<le> 1048576" by linarith
      with pmm_mark_region_free_eq [of a "PMM_ALIGN_DOWN l" s] a down release False True
      show ?thesis by simp
    next
      case below: False
      then have "E < A * 4096 + 4096" using down by (simp add: word_le_nat_alt PMM_BLOCK_SIZE_def)
      with small release False below show ?thesis by simp
    qed
  qed
qed

lemma release_entry_spec:
  assumes inv: "pmm_inv s"
    and sz: "min (unat (me_base e) + unat (me_length e)) 4294967296 \<le> sz"
      "unat (pmm_total_blocks s) = sz div 4096"
    and nowrap: "unat (me_base e) + unat (me_length e) < 18446744073709551616"
  shows "pmm_inv (release_entry e s) \<and>
    pmm_total_blocks (release_entry e s) = pmm_total_blocks s \<and>
    pmm_hhdm_offset (release_entry e s) = pmm_hhdm_offset s \<and>
    (\<forall>n. blk_used (release_entry e s) n \<longleftrightarrow> \<not> entry_covers e n \<and> blk_used s n)"
proof (cases "unat (me_base e) < 4294967296 \<and> me_type e = LIMINE_MEMMAP_USABLE")
  case False
  then have "release_entry e s = s"
    by (auto simp: release_entry_def word_le_nat_alt PMM_MAX_MEMORY_def)
  moreover have "\<not> entry_covers e n" for n using False by (auto simp: entry_covers_def)
  ultimately show ?thesis using inv by simp
next
  case True
  define E where "E = min (unat (me_base e) + unat (me_length e)) 4294967296"
  define A where "A = (unat (me_base e) + 4095) div 4096"
  define cnt where "cnt = (E - A * 4096) div 4096"
  have eq: "release_entry e s = free_range A cnt s"
    using True nowrap unfolding cnt_def by (intro release_entry_usable A_def E_def) auto
  have covers: "entry_covers e n \<longleftrightarrow> A \<le> n \<and> n < A + cnt" for n
    using True unfolding cnt_def by (intro entry_covers_iff A_def E_def) auto
  show ?thesis
  proof (cases "cnt = 0")
    case True
    with eq covers inv show ?thesis by (simp add: free_range_def)
  next
    case False
    moreover have "cnt * 4096 \<le> E - A * 4096" unfolding cnt_def by simp
    ultimately have "(A + cnt) * 4096 \<le> E" by simp
    then have "(A + cnt) * 4096 \<le> sz" using sz(1) unfolding E_def by (rule order_trans)
    then have "A + cnt \<le> unat (pmm_total_blocks s)"
      unfolding sz(2) by (simp only: less_eq_div_iff_mult_less_eq)
    with free_range_spec [OF inv this] eq covers show ?thesis by simp
  qed
qed

lemma memmap_end_mono: "unat m \<le> unat (memmap_end es m)"
proof (induction es arbitrary: m)
  case Nil
  show ?case by simp
next
  case (Cons e es)
  show ?case
    using Cons.IH [of "if me_base e + me_length e > m then me_base e + me_length e else m"]
    by (auto simp: Let_def word_less_nat_alt split: if_splits)
qed

lemma memmap_end_ge:
  "memmap_ok es \<Longrightarrow> e \<in> set es \<Longrightarrow> unat (me_base e) + unat (me_length e) \<le> unat (memmap_end es m)"
proof (induction es arbitrary: m)
  case Nil
  then show ?case by simp
next
  case (Cons x es)
  let ?m = "if me_base x + me_length x > m then me_base x + me_length x else m"
  show ?case
  proof (cases "e = x")
    case True
    with Cons.prems have "unat (me_base e + me_length e) = unat (me_base e) + unat (me_length e)"
      by (intro unat_add_u64) (simp add: memmap_ok_def)
    with True memmap_end_mono [of ?m es] show ?thesis
      by (auto simp: Let_def word_less_nat_alt split: if_splits)
  next
    case False
    with Cons.prems Cons.IH [of ?m] show ?thesis by (simp add: Let_def memmap_ok_def)
  qed
qed

lemma fold_release_spec:
  assumes "pmm_inv s"
    and "\<And>e. e \<in> set es \<Longrightarrow> min (unat (me_base e) + unat (me_length e)) 4294967296 \<le> sz"
    and "unat (pmm_total_blocks s) = sz div 4096" and "memmap_ok es"
  shows "pmm_inv (fold release_entry es s) \<and>
    pmm_total_blocks (fold release_entry es s) = pmm_total_blocks s \<and>
    pmm_hhdm_offset (fold release_entry es s) = pmm_hhdm_offset s \<and>
    (\<forall>n. blk_used (fold release_entry es s) n \<longleftrightarrow> \<not> (\<exists>e \<in> set es. entry_covers e n) \<and> blk_used s n)"
  using assms
proof (induction es arbitrary: s)
  case Nil
  then show ?case by simp
next
  case (Cons e es)
  have "pmm_inv (release_entry e s) \<and>
    pmm_total_blocks (release_entry e s) = pmm_total_blocks s \<and>
    pmm_hhdm_offset (release_entry e s) = pmm_hhdm_offset s \<and>
    (\<forall>n. blk_used (release_entry e s) n \<longleftrightarrow> \<not> entry_covers e n \<and> blk_used s n)"
    using Cons.prems by (intro release_entry_spec [of s e sz]) (auto simp: memmap_ok_def)
  with Cons.IH [of "release_entry e s"] Cons.prems show ?case by (auto simp: memmap_ok_def)
qed

lemma pmm_mark_low_used_spec:
  assumes inv: "pmm_inv s"
  defines "t \<equiv> pmm_mark_region_used 0 0x100000 s"
  shows "pmm_inv t \<and> pmm_total_blocks t = pmm_total_blocks s \<and>
    pmm_hhdm_offset t = pmm_hhdm_offset s \<and> (\<forall>n. blk_used t n \<longleftrightarrow> n < 256 \<or> blk_used s n)"
proof -
  define f where "f = (\<lambda>n u. if blk_used u n then u else take_block n u)"
  have "unat (PMM_ALIGN_UP 0x100000 div PMM_BLOCK_SIZE) = 256"
    by (simp add: PMM_ALIGN_UP_def c_defs)
  then have "t = for_upto 256 (\<lambda>i. mark_used_body (0 + of_nat i)) s"
    unfolding t_def pmm_mark_region_used_def Let_def
    by (simp add: PMM_ADDR_TO_BLOCK_def del: for_upto_numeral)
  also have "\<dots> = for_upto 256 (\<lambda>i. f (unat (0 :: u64) + i)) s"
    by (rule for_upto_blocks) (simp_all add: mark_used_body_eq f_def)
  finally have t: "t = for_upto 256 f s" by (simp del: for_upto_numeral)
  have "pmm_inv (for_upto 256 f s) \<and> pmm_total_blocks (for_upto 256 f s) = pmm_total_blocks s \<and>
    pmm_hhdm_offset (for_upto 256 f s) = pmm_hhdm_offset s \<and>
    (\<forall>n. blk_used (for_upto 256 f s) n \<longleftrightarrow> n < 256 \<or> blk_used s n)"
  proof (rule for_upto_invariant [where I = "\<lambda>i u. pmm_inv u \<and> pmm_total_blocks u = pmm_total_blocks s \<and>
      pmm_hhdm_offset u = pmm_hhdm_offset s \<and> (\<forall>n. blk_used u n \<longleftrightarrow> n < i \<or> blk_used s n)"])
    fix i u
    assume i: "i < 256" and I: "pmm_inv u \<and> pmm_total_blocks u = pmm_total_blocks s \<and>
      pmm_hhdm_offset u = pmm_hhdm_offset s \<and> (\<forall>n. blk_used u n \<longleftrightarrow> n < i \<or> blk_used s n)"
    have "pmm_inv (take_block i u)" if "\<not> blk_used u i"
      using that I i by (intro pmm_inv_take_block) (auto simp: pmm_inv_def not_less)
    with I i show "pmm_inv (f i u) \<and> pmm_total_blocks (f i u) = pmm_total_blocks s \<and>
      pmm_hhdm_offset (f i u) = pmm_hhdm_offset s \<and>
      (\<forall>n. blk_used (f i u) n \<longleftrightarrow> n < Suc i \<or> blk_used s n)"
      by (auto simp: f_def less_Suc_eq)
  qed (use inv in simp)
  with t show ?thesis by simp
qed

lemma init_pmm_limine_spec:
  fixes s0 :: pmm_state and hhdm :: u64
  assumes ok: "memmap_ok es" and ne: "es \<noteq> []"
  defines "t \<equiv> init_pmm_limine (Some es) hhdm s0"
  shows "pmm_inv t \<and> pmm_hhdm_offset t = hhdm \<and>
    unat (pmm_total_blocks t) = min (unat (memmap_end es 0)) 4294967296 div 4096 \<and>
    (\<forall>n < 1048576. \<not> blk_used t n \<longleftrightarrow> 256 \<le> n \<and> (\<exists>e \<in> set es. entry_covers e n))"
proof -
  define sz where "sz = (if memmap_end es 0 > PMM_MAX_MEMORY then PMM_MAX_MEMORY else memmap_end es 0)"
  define s1 where "s1 = s0\<lparr>pmm_hhdm_offset := hhdm, pmm_memory_size := sz,
    pmm_total_blocks := sz div PMM_BLOCK_SIZE, pmm_used_blocks := sz div PMM_BLOCK_SIZE,
    pmm_bitmap := (\<lambda>i. if i < unat PMM_BITMAP_SIZE then 0xFF else pmm_bitmap s0 i)\<rparr>"
  have t: "t = pmm_mark_region_used 0 0x100000 (fold release_entry es s1)"
    using ne by (cases es) (simp_all add: t_def init_pmm_limine_def Let_def s1_def sz_def)
  have sz: "unat sz = min (unat (memmap_end es 0)) 4294967296"
    by (auto simp: sz_def word_less_nat_alt PMM_MAX_MEMORY_def)
  have total: "unat (pmm_total_blocks s1) = unat sz div 4096"
    by (simp add: s1_def unat_div PMM_BLOCK_SIZE_def)
  have used: "blk_used s1 n" if "n < 1048576" for n
  proof -
    have "n div 8 < 131072" using that by simp
    then have "pmm_bitmap s1 (n div 8) = 0xFF" by (simp add: s1_def)
    from full_byte_used [OF this, of "n mod 8"] show ?thesis by simp
  qed
  have le: "unat sz div 4096 \<le> 1048576" unfolding sz by linarith
  have "count_below (unat sz div 4096) (blk_used s1) = unat sz div 4096"
    using le used by (intro count_below_all) simp
  then have inv: "pmm_inv s1"
    using total le used by (simp add: pmm_inv_def) (simp add: s1_def)
  have "min (unat (me_base e) + unat (me_length e)) 4294967296 \<le> unat sz" if "e \<in> set es" for e
    using memmap_end_ge [OF ok that, of 0] unfolding sz by simp
  note fold_release_spec [OF inv this total ok]
  with pmm_mark_low_used_spec [of "fold release_entry es s1"] show ?thesis
    unfolding t using total sz used by (auto simp: s1_def not_less)
qed

section \<open>The frame allocator interface\<close>

text \<open>
  The direct map starts above address 0 and holds the managed memory without wrapping around, so
  that no frame has the address NULL.
\<close>

definition hhdm_ok :: "pmm_state \<Rightarrow> bool" where
  "hhdm_ok s \<longleftrightarrow> 0 < unat (pmm_hhdm_offset s) \<and>
     unat (pmm_hhdm_offset s) + 4294967296 \<le> 18446744073709551616"

definition owned_frames :: "pmm_state \<Rightarrow> u64 set" where
  "owned_frames s = {block_addr s n | n. n < unat (pmm_total_blocks s) \<and> blk_used s n}"

lemma block_addr_nonzero:
  assumes "hhdm_ok s" and "n < 1048576"
  shows "block_addr s n \<noteq> 0"
proof -
  have "unat (block_addr s n) = n * 4096 + unat (pmm_hhdm_offset s)"
    unfolding block_addr_def
    using assms unat_block_offset [OF assms(2)] by (subst unat_add_u64) (simp_all add: hhdm_ok_def)
  with assms(1) show ?thesis by (auto simp: hhdm_ok_def)
qed

lemma block_addr_take_drop [simp]:
  "block_addr (take_block m s) n = block_addr s n" "block_addr (drop_block m s) n = block_addr s n"
  by (simp_all add: block_addr_def)

lemma pmm_free_block_addr:
  assumes "pmm_inv s" and "n < unat (pmm_total_blocks s)" and "blk_used s n"
  shows "pmm_free_block (block_addr s n) s = drop_block n s"
proof -
  from assms have n: "n < 1048576" "unat (pmm_total_blocks s) \<le> 1048576" by (auto simp: pmm_inv_def)
  with assms show ?thesis
    by (simp add: pmm_free_block_eq addr_to_block_addr free_blocks_body_eq)
qed

lemma block_addr_owned_iff:
  assumes "n < unat (pmm_total_blocks s)" and "unat (pmm_total_blocks s) \<le> 1048576"
  shows "block_addr s n \<in> owned_frames s \<longleftrightarrow> blk_used s n"
proof
  assume "block_addr s n \<in> owned_frames s"
  then obtain m where "block_addr s n = block_addr s m" "m < unat (pmm_total_blocks s)" "blk_used s m"
    by (auto simp: owned_frames_def)
  with assms block_addr_inj [of n m s] show "blk_used s n" by simp
qed (use assms in \<open>auto simp: owned_frames_def\<close>)

interpretation frames: frame_allocator "\<lambda>s. pmm_inv s \<and> hhdm_ok s" pmm_alloc_block pmm_free_block owned_frames
proof
  fix s p
  assume I: "pmm_inv s \<and> hhdm_ok s"
  then have inv: "pmm_inv s" and hhdm: "hhdm_ok s" by auto
  then have total: "unat (pmm_total_blocks s) \<le> 1048576" by (simp add: pmm_inv_def)
  show "pmm_inv (pmm_free_block p s) \<and> hhdm_ok (pmm_free_block p s)"
    using pmm_free_block_inv [OF inv] hhdm total
    by (simp add: pmm_free_block_eq free_blocks_body_eq hhdm_ok_def)
  show "pmm_inv (snd (pmm_alloc_block s)) \<and> hhdm_ok (snd (pmm_alloc_block s))"
    using pmm_alloc_block_inv [OF inv] hhdm
    by (cases rule: pmm_alloc_block_cases [OF inv]) (auto simp: hhdm_ok_def)
  show "snd (pmm_alloc_block s) = s" if "fst (pmm_alloc_block s) = 0"
  proof (cases rule: pmm_alloc_block_cases [OF inv])
    case (2 n)
    with total least_freeD(1) [OF 2(2)] block_addr_nonzero [OF hhdm, of n] that show ?thesis by simp
  qed simp
  show "fst (pmm_alloc_block s) \<notin> owned_frames s \<and>
      owned_frames (snd (pmm_alloc_block s)) = insert (fst (pmm_alloc_block s)) (owned_frames s)"
    if "fst (pmm_alloc_block s) \<noteq> 0"
  proof (cases rule: pmm_alloc_block_cases [OF inv])
    case (2 n)
    have n: "n < unat (pmm_total_blocks s)" "\<not> blk_used s n" using least_freeD [OF 2(2)] by auto
    then have "block_addr s n \<notin> owned_frames s" using total by (simp add: block_addr_owned_iff)
    moreover have "owned_frames (take_block n s) = insert (block_addr s n) (owned_frames s)"
      using n total by (auto simp: owned_frames_def split: if_splits)
    ultimately show ?thesis using 2(1) by simp
  qed (use that in simp)
  show "owned_frames (pmm_free_block p s) = owned_frames s - {p}" if "p \<in> owned_frames s"
  proof -
    from that obtain n where n: "p = block_addr s n" "n < unat (pmm_total_blocks s)" "blk_used s n"
      by (auto simp: owned_frames_def)
    have "owned_frames (drop_block n s) = owned_frames s - {block_addr s n}"
      using n(2) total block_addr_inj [of _ n s] by (fastforce simp: owned_frames_def split: if_splits)
    then show ?thesis using n pmm_free_block_addr [OF inv n(2,3)] by simp
  qed
qed

section \<open>Traces of calls\<close>

datatype pmm_call = Alloc_Block | Alloc_Blocks u64 | Free_Block u64 | Free_Blocks u64 u64

fun pmm_call_step :: "pmm_call \<Rightarrow> pmm_state \<Rightarrow> pmm_state" where
  "pmm_call_step Alloc_Block s = snd (pmm_alloc_block s)"
| "pmm_call_step (Alloc_Blocks count) s = snd (pmm_alloc_blocks count s)"
| "pmm_call_step (Free_Block p) s = pmm_free_block p s"
| "pmm_call_step (Free_Blocks p count) s = pmm_free_blocks p count s"

lemma pmm_call_step_inv: "pmm_inv s \<Longrightarrow> pmm_inv (pmm_call_step c s)"
  by (cases c)
     (simp_all add: pmm_alloc_block_inv pmm_alloc_blocks_inv pmm_free_block_inv pmm_free_blocks_inv)

lemma pmm_trace_inv: "pmm_inv s \<Longrightarrow> pmm_inv (fold pmm_call_step cs s)"
  by (induction cs arbitrary: s) (simp_all add: pmm_call_step_inv)

lemma unat_pmm_get_free_blocks:
  assumes "pmm_inv s"
  shows "unat (pmm_get_free_blocks s) = count_below (unat (pmm_total_blocks s)) (\<lambda>n. \<not> blk_used s n)"
proof -
  let ?n = "unat (pmm_total_blocks s)"
  have "{..<?n} = {i. i < ?n \<and> blk_used s i} \<union> {i. i < ?n \<and> \<not> blk_used s i}" by auto
  then have "card {..<?n} = count_below ?n (blk_used s) + count_below ?n (\<lambda>n. \<not> blk_used s n)"
    unfolding count_below_def by (subst card_Un_disjoint [symmetric]) auto
  with assms pmm_inv_used_le [OF assms] show ?thesis
    by (simp add: pmm_get_free_blocks_def unat_sub_u64 word_le_nat_alt pmm_inv_def)
qed

text \<open>The bits determine the bitmap.\<close>

lemma pmm_state_eqI:
  assumes "blk_used s = blk_used t" and "pmm_total_blocks s = pmm_total_blocks t"
    and "pmm_used_blocks s = pmm_used_blocks t" and "pmm_memory_size s = pmm_memory_size t"
    and "pmm_hhdm_offset s = pmm_hhdm_offset t"
  shows "s = (t :: pmm_state)"
proof -
  have "pmm_bitmap s i = pmm_bitmap t i" for i
  proof (rule bit_word_eqI)
    fix j assume "j < LENGTH(8)"
    then have "bit (pmm_bitmap s i) j = blk_used s (i * 8 + j)"
      "bit (pmm_bitmap t i) j = blk_used t (i * 8 + j)" by (simp_all add: blk_used_def)
    with assms(1) show "bit (pmm_bitmap s i) j = bit (pmm_bitmap t i) j" by simp
  qed
  with assms(2-5) show ?thesis by (cases s; cases t) auto
qed

text \<open>Blocks that were taken as a run are given back as a run.\<close>

lemma free_blocks_run:
  assumes inv: "pmm_inv s" and "x + count \<le> unat (pmm_total_blocks s)"
    and "\<And>n. x \<le> n \<Longrightarrow> n < x + count \<Longrightarrow> blk_used s n"
  shows "for_upto count (\<lambda>i. free_blocks_body (of_nat x + of_nat i)) s = free_range x count s"
proof -
  have max: "unat (pmm_total_blocks s) \<le> 1048576" using inv by (simp add: pmm_inv_def)
  show ?thesis
    using assms(2,3)
  proof (induction count)
    case 0
    show ?case by (simp add: free_range_def)
  next
    case (Suc count)
    let ?t = "free_range x count s"
    have eq: "for_upto count (\<lambda>i. free_blocks_body (of_nat x + of_nat i)) s = ?t"
      using Suc by simp
    have t: "pmm_total_blocks ?t = pmm_total_blocks s"
      using free_range_spec [OF inv, of x count] Suc.prems(1) by simp
    have "unat (of_nat x + of_nat count :: u64) = x + count"
      using Suc.prems(1) max by (subst unat_add_u64) simp_all
    with Suc.prems(1) max t
    have "free_blocks_body (of_nat x + of_nat count) ?t =
        (if blk_used ?t (x + count) then drop_block (x + count) ?t else ?t)"
      by (simp add: free_blocks_body_eq)
    with eq show ?case by (simp add: free_range_def)
  qed
qed

lemma pmm_memory_size_loops:
  "pmm_memory_size (for_upto c (\<lambda>i. take_block (x + i)) s) = pmm_memory_size s"
  "pmm_memory_size (for_upto c (\<lambda>i t. if blk_used t (x + i) then drop_block (x + i) t else t) s) =
   pmm_memory_size s"
  by (induction c) auto

lemma free_take_run:
  assumes inv: "pmm_inv s" and le: "x + unat count \<le> unat (pmm_total_blocks s)"
    and run: "free_run s x (unat count)" and nz: "block_addr s x \<noteq> 0" "count \<noteq> 0"
  shows "pmm_free_blocks (block_addr s x) count (take_run x (unat count) s) = s"
proof -
  let ?t = "take_run x (unat count) s" and ?c = "unat count"
  have t: "pmm_inv ?t" "pmm_total_blocks ?t = pmm_total_blocks s" "pmm_hhdm_offset ?t = pmm_hhdm_offset s"
    "blk_used ?t = (\<lambda>n. (x \<le> n \<and> n < x + ?c) \<or> blk_used s n)"
    using take_run_spec [OF inv le run] by auto
  have "0 < ?c" using nz(2) by (simp add: unat_gt_0)
  then have x: "x < 1048576" using inv le by (simp add: pmm_inv_def)
  have "block_addr ?t x = block_addr s x" using t(3) by (simp add: block_addr_def)
  with x t(3) have start: "PMM_ADDR_TO_BLOCK (block_addr s x - pmm_hhdm_offset ?t) = of_nat x"
    using addr_to_block_addr [of x ?t] by simp
  have eq: "pmm_free_blocks (block_addr s x) count ?t = free_range x ?c ?t"
    using nz start free_blocks_run [OF t(1), of x ?c] t(2,4) le by (simp add: pmm_free_blocks_def Let_def)
  have spec: "pmm_inv (free_range x ?c ?t) \<and> pmm_total_blocks (free_range x ?c ?t) = pmm_total_blocks s \<and>
    pmm_hhdm_offset (free_range x ?c ?t) = pmm_hhdm_offset s \<and>
    (\<forall>n. blk_used (free_range x ?c ?t) n \<longleftrightarrow> \<not> (x \<le> n \<and> n < x + ?c) \<and> blk_used ?t n)"
    using free_range_spec [OF t(1), of x ?c] t(2,3) le by simp
  have used: "blk_used (free_range x ?c ?t) = blk_used s"
    using spec t(4) run by (auto simp: fun_eq_iff free_run_def)
  have "pmm_used_blocks (free_range x ?c ?t) = pmm_used_blocks s"
    using spec inv used by (simp add: pmm_inv_def word_unat_eq_iff)
  moreover have "pmm_memory_size (free_range x ?c ?t) = pmm_memory_size s"
    by (simp add: take_run_def free_range_def pmm_memory_size_loops)
  ultimately have "free_range x ?c ?t = s" using spec used by (intro pmm_state_eqI) auto
  with eq show ?thesis by simp
qed

section \<open>Properties\<close>

text \<open>
  C14: after initialisation from any memory map whose entries do not wrap around, every sequence of
  calls to the allocator keeps the bitmap and the counter consistent: the used counter is the number
  of set bits below the total, so the reported number of free blocks is exactly the number of clear
  bits, and no block at or above the total is ever free.
\<close>

theorem pmm_accounting_invariant:
  assumes "memmap_ok es" and "es \<noteq> []"
  shows "pmm_inv (fold pmm_call_step cs (init_pmm_limine (Some es) hhdm s0)) \<and>
    unat (pmm_get_free_blocks (fold pmm_call_step cs (init_pmm_limine (Some es) hhdm s0))) =
      card {n. n < unat (pmm_total_blocks (fold pmm_call_step cs (init_pmm_limine (Some es) hhdm s0))) \<and>
               \<not> blk_used (fold pmm_call_step cs (init_pmm_limine (Some es) hhdm s0)) n}"
proof -
  have "pmm_inv (init_pmm_limine (Some es) hhdm s0)" using init_pmm_limine_spec [OF assms] by simp
  then have "pmm_inv (fold pmm_call_step cs (init_pmm_limine (Some es) hhdm s0))" by (rule pmm_trace_inv)
  then show ?thesis using unat_pmm_get_free_blocks by (simp add: count_below_def)
qed

text \<open>
  C15: after initialisation a block of the managed memory is free exactly when it lies above the
  first MiB and completely inside a usable entry of the memory map.
\<close>

theorem init_pmm_limine_free_iff:
  assumes "memmap_ok es" and "es \<noteq> []" and "n < unat (pmm_total_blocks (init_pmm_limine (Some es) hhdm s0))"
  shows "\<not> blk_used (init_pmm_limine (Some es) hhdm s0) n \<longleftrightarrow>
    256 \<le> n \<and> (\<exists>e \<in> set es. me_type e = LIMINE_MEMMAP_USABLE \<and> unat (me_base e) \<le> n * 4096 \<and>
                (n + 1) * 4096 \<le> unat (me_base e) + unat (me_length e))"
proof -
  have "n < 1048576" using init_pmm_limine_spec [OF assms(1,2)] assms(3) by (auto simp: pmm_inv_def)
  then show ?thesis using init_pmm_limine_spec [OF assms(1,2)] by (simp add: entry_covers_def)
qed

text \<open>
  C18: \<open>pmm_alloc_block\<close> takes the lowest free block that its byte scan can reach, changes no other
  block, and returns NULL with the state unchanged exactly when that range is full. The scan stops
  at the last complete byte of the bitmap.
\<close>

theorem pmm_alloc_block_lowest_free:
  assumes "pmm_inv s" and "hhdm_ok s"
  shows "(fst (pmm_alloc_block s) = 0 \<longleftrightarrow> (\<forall>n < 8 * (unat (pmm_total_blocks s) div 8). blk_used s n)) \<and>
    (fst (pmm_alloc_block s) = 0 \<longrightarrow> snd (pmm_alloc_block s) = s) \<and>
    (fst (pmm_alloc_block s) \<noteq> 0 \<longrightarrow>
      (\<exists>n < unat (pmm_total_blocks s). \<not> blk_used s n \<and> (\<forall>k < n. blk_used s k) \<and>
        fst (pmm_alloc_block s) = of_nat n * 4096 + pmm_hhdm_offset s \<and>
        blk_used (snd (pmm_alloc_block s)) = (blk_used s)(n := True) \<and>
        pmm_used_blocks (snd (pmm_alloc_block s)) = pmm_used_blocks s + 1))"
proof (cases rule: pmm_alloc_block_cases [OF assms(1)])
  case 1
  then show ?thesis by (simp add: scanned_blocks_def)
next
  case (2 n)
  have n: "n < unat (pmm_total_blocks s)" "\<not> blk_used s n" "\<forall>k < n. blk_used s k"
    using least_freeD [OF 2(2)] by auto
  then have lt: "n < 1048576" using assms(1) by (simp add: pmm_inv_def)
  have "\<not> (\<forall>n < 8 * (unat (pmm_total_blocks s) div 8). blk_used s n)"
    using 2(2) by (auto simp: least_free_def scanned_blocks_def)
  moreover have "block_addr s n = of_nat n * 4096 + pmm_hhdm_offset s"
    by (simp add: block_addr_def PMM_BLOCK_TO_ADDR_def PMM_BLOCK_SIZE_def)
  ultimately show ?thesis
    using 2(1) n lt block_addr_nonzero [OF assms(2) lt] by auto
qed


text \<open>
  giving back what was just allocated restores the allocator exactly, for a single block and
  for a run of blocks.
\<close>

theorem pmm_alloc_free_roundtrip:
  assumes "pmm_inv s" and "hhdm_ok s"
  shows "(fst (pmm_alloc_block s) \<noteq> 0 \<longrightarrow>
      pmm_free_block (fst (pmm_alloc_block s)) (snd (pmm_alloc_block s)) = s) \<and>
    (2 \<le> unat count \<and> fst (pmm_alloc_blocks count s) \<noteq> 0 \<longrightarrow>
      pmm_free_blocks (fst (pmm_alloc_blocks count s)) count (snd (pmm_alloc_blocks count s)) = s)"
proof (intro conjI impI)
  assume "fst (pmm_alloc_block s) \<noteq> 0"
  then show "pmm_free_block (fst (pmm_alloc_block s)) (snd (pmm_alloc_block s)) = s"
  proof (cases rule: pmm_alloc_block_cases [OF assms(1)])
    case (2 n)
    have n: "n < unat (pmm_total_blocks s)" "\<not> blk_used s n" using least_freeD [OF 2(2)] by auto
    then have lt: "n < 1048576" using assms(1) by (simp add: pmm_inv_def)
    have "pmm_free_block (block_addr (take_block n s) n) (take_block n s) = drop_block n (take_block n s)"
      using n lt assms(1) by (intro pmm_free_block_addr pmm_inv_take_block) simp_all
    with 2(1) n lt show ?thesis by (simp add: drop_take_block)
  qed simp
next
  assume count: "2 \<le> unat count \<and> fst (pmm_alloc_blocks count s) \<noteq> 0"
  then have c: "2 \<le> unat count" and nz: "fst (pmm_alloc_blocks count s) \<noteq> 0" by auto
  from assms(1) c show "pmm_free_blocks (fst (pmm_alloc_blocks count s)) count (snd (pmm_alloc_blocks count s)) = s"
  proof (cases rule: pmm_alloc_blocks_cases)
    case none
    with nz show ?thesis by simp
  next
    case (found x)
    have "count \<noteq> 0" using c by auto
    then show ?thesis using free_take_run [OF assms(1) found(2,3)] nz found(1) by simp
  qed
qed

text \<open>
  C3: a client that frees only frames it holds is never given a frame it already holds, whatever
  sequence of allocations and releases it performs.
\<close>

theorem pmm_never_hands_out_held_frame:
  assumes "pmm_inv s" and "hhdm_ok s" and "H \<subseteq> owned_frames s"
    and "fold (client_step pmm_alloc_block pmm_free_block) ops (s, H) = (s', H')"
    and "fst (pmm_alloc_block s') \<noteq> 0"
  shows "fst (pmm_alloc_block s') \<notin> H'"
  using assms by (intro frames.alloc_not_held [where s = s and H = H and ops = ops]) auto

section \<open>Witnesses\<close>

text \<open>
  A manager of 20 blocks: blocks 0 to 2 and 8 to 15 are used, 3 to 7 and 16 to 19 are free.
\<close>

definition pmm_example :: pmm_state where
  "pmm_example = \<lparr>pmm_bitmap = (\<lambda>i. if i = 0 then 0x07 else if i = 2 then 0xF0 else 0xFF),
     pmm_total_blocks = 20, pmm_used_blocks = 11, pmm_memory_size = 81920,
     pmm_hhdm_offset = 0xffff800000000000\<rparr>"

lemma pmm_example_inv: "pmm_inv pmm_example"
proof -
  have "count_below 20 (blk_used pmm_example) = 11"
    unfolding count_below_code by code_simp
  moreover have "blk_used pmm_example n" if "20 \<le> n" for n
  proof (cases "n div 8 = 2")
    case True
    with that have "n = 20 \<or> n = 21 \<or> n = 22 \<or> n = 23" by linarith
    then show ?thesis by (elim disjE) (simp_all, code_simp+)
  next
    case False
    with that have "pmm_bitmap pmm_example (n div 8) = 0xFF" by (simp add: pmm_example_def)
    from full_byte_used [OF this, of "n mod 8"] show ?thesis by simp
  qed
  ultimately show ?thesis by (simp add: pmm_inv_def pmm_example_def [THEN arg_cong [of _ _ pmm_total_blocks]]
      pmm_example_def [THEN arg_cong [of _ _ pmm_used_blocks]])
qed

lemma pmm_example_hhdm: "hhdm_ok pmm_example"
  by (simp add: hhdm_ok_def pmm_example_def)

lemma pmm_example_alloc: "fst (pmm_alloc_block pmm_example) = 0xffff800000003000"
  by code_simp

lemma pmm_example_alloc_blocks: "fst (pmm_alloc_blocks 5 pmm_example) = 0xffff800000003000"
  by code_simp

definition memmap_example :: "limine_memmap_entry list" where
  "memmap_example = [\<lparr>me_base = 0, me_length = 0x110000, me_type = 0\<rparr>]"

lemma memmap_example_ok: "memmap_ok memmap_example" "memmap_example \<noteq> []"
  by (simp_all add: memmap_ok_def memmap_example_def)

lemma memmap_example_total:
  "unat (pmm_total_blocks (init_pmm_limine (Some memmap_example) hhdm s0)) = 272"
  using init_pmm_limine_spec [OF memmap_example_ok, of hhdm s0] by (simp add: memmap_example_def)

theorem pmm_accounting_invariant_witness:
  "memmap_ok memmap_example \<and> memmap_example \<noteq> [] \<and>
   pmm_inv (fold pmm_call_step [Alloc_Block, Alloc_Blocks 3, Free_Block 0xffff800000100000]
     (init_pmm_limine (Some memmap_example) 0xffff800000000000 pmm_example))"
  using memmap_example_ok pmm_accounting_invariant [OF memmap_example_ok] by blast

theorem init_pmm_limine_free_iff_witness:
  "260 < unat (pmm_total_blocks (init_pmm_limine (Some memmap_example) 0 pmm_example)) \<and>
   \<not> blk_used (init_pmm_limine (Some memmap_example) 0 pmm_example) 260"
proof -
  have lt: "260 < unat (pmm_total_blocks (init_pmm_limine (Some memmap_example) 0 pmm_example))"
    by (simp add: memmap_example_total)
  with init_pmm_limine_free_iff [OF memmap_example_ok lt] show ?thesis
    by (simp add: memmap_example_def LIMINE_MEMMAP_USABLE_def)
qed

theorem pmm_alloc_block_lowest_free_witness:
  "pmm_inv pmm_example \<and> hhdm_ok pmm_example \<and>
   (\<exists>n < unat (pmm_total_blocks pmm_example). \<not> blk_used pmm_example n \<and>
      fst (pmm_alloc_block pmm_example) = of_nat n * 4096 + pmm_hhdm_offset pmm_example)"
  using pmm_alloc_block_lowest_free [OF pmm_example_inv pmm_example_hhdm]
    pmm_example_inv pmm_example_hhdm pmm_example_alloc by auto


theorem pmm_alloc_free_roundtrip_witness:
  "pmm_inv pmm_example \<and> hhdm_ok pmm_example \<and>
   pmm_free_block (fst (pmm_alloc_block pmm_example)) (snd (pmm_alloc_block pmm_example)) = pmm_example \<and>
   pmm_free_blocks (fst (pmm_alloc_blocks 5 pmm_example)) 5 (snd (pmm_alloc_blocks 5 pmm_example)) =
     pmm_example"
  using pmm_alloc_free_roundtrip [OF pmm_example_inv pmm_example_hhdm, of 5]
    pmm_example_inv pmm_example_hhdm pmm_example_alloc pmm_example_alloc_blocks by simp

theorem pmm_never_hands_out_held_frame_witness:
  "fst (pmm_alloc_block (snd (pmm_alloc_block pmm_example))) \<notin> {fst (pmm_alloc_block pmm_example)}"
proof -
  have "fst (pmm_alloc_block (snd (pmm_alloc_block pmm_example))) = 0xffff800000004000" by code_simp
  then show ?thesis
    using pmm_example_alloc
    by (intro pmm_never_hands_out_held_frame [OF pmm_example_inv pmm_example_hhdm,
          where H = "{}" and ops = "[Frame_Alloc]"])
       (auto simp: case_prod_beta)
qed

text \<open>
  The scan never reaches the blocks of the last, incomplete byte of the bitmap: here four blocks are
  free and the allocator reports no memory.
\<close>

definition pmm_tail_example :: pmm_state where
  "pmm_tail_example = \<lparr>pmm_bitmap = (\<lambda>i. if i = 0 then 0xF0 else 0xFF),
     pmm_total_blocks = 4, pmm_used_blocks = 0, pmm_memory_size = 16384,
     pmm_hhdm_offset = 0xffff800000000000\<rparr>"

theorem pmm_alloc_block_misses_tail:
  "pmm_get_free_blocks pmm_tail_example = 4 \<and> \<not> blk_used pmm_tail_example 0 \<and>
   fst (pmm_alloc_block pmm_tail_example) = 0"
  by code_simp

end
