(* ===== verification/Vmm.thy ===== *)
theory Vmm
  imports Pmm Memory
begin

text \<open>
  The virtual memory manager, \<^verbatim>\<open>mm/vmm.c\<close>: page tables of four levels in frames of the physical
  memory manager, reached through the direct map. Tables and the structures of address spaces are
  bytes of the flat memory. The two privileged instructions are recorded in the order of execution.
\<close>

section \<open>Model of the source\<close>

definition PAGE_SIZE :: u64 where [c_defs]: "PAGE_SIZE = 4096"
definition PAGE_PRESENT :: u64 where [c_defs]: "PAGE_PRESENT = 1"
definition PAGE_RW :: u64 where [c_defs]: "PAGE_RW = 2"
definition PAGE_USER :: u64 where [c_defs]: "PAGE_USER = 4"
definition PAGE_HUGE :: u64 where [c_defs]: "PAGE_HUGE = 128"
definition PAGE_NX :: u64 where [c_defs]: "PAGE_NX = 0x8000000000000000"
definition PAGE_FRAME_MASK :: u64 where [c_defs]: "PAGE_FRAME_MASK = 0x000FFFFFFFFFF000"

definition PML4_INDEX :: "u64 \<Rightarrow> u64" where "PML4_INDEX vaddr = drop_bit 39 vaddr AND 0x1FF"
definition PDPT_INDEX :: "u64 \<Rightarrow> u64" where "PDPT_INDEX vaddr = drop_bit 30 vaddr AND 0x1FF"
definition PD_INDEX :: "u64 \<Rightarrow> u64" where "PD_INDEX vaddr = drop_bit 21 vaddr AND 0x1FF"
definition PT_INDEX :: "u64 \<Rightarrow> u64" where "PT_INDEX vaddr = drop_bit 12 vaddr AND 0x1FF"
definition PAGE_OFFSET :: "u64 \<Rightarrow> u64" where "PAGE_OFFSET vaddr = vaddr AND 0xFFF"
definition PAGE_ALIGN_DOWN :: "u64 \<Rightarrow> u64" where "PAGE_ALIGN_DOWN addr = addr AND NOT (PAGE_SIZE - 1)"
definition PAGE_ALIGN_UP :: "u64 \<Rightarrow> u64" where
  "PAGE_ALIGN_UP addr = (addr + PAGE_SIZE - 1) AND NOT (PAGE_SIZE - 1)"

record page_directory =
  pml4_phys :: u64
  pml4 :: u64

text \<open>A pointer to an address space: the static one of the kernel, or one in a frame.\<close>

datatype dir_ptr = Kernel_Directory | Directory_At u64

datatype hw_op = Invlpg u64 | Write_CR3 u64

record vmm_state =
  hhdm_offset :: u64
  kernel_directory :: page_directory
  current_directory :: "dir_ptr option"
  vmm_pmm :: pmm_state
  vmm_mem :: mem
  hw_ops :: "hw_op list"

definition phys_to_virt :: "vmm_state \<Rightarrow> u64 \<Rightarrow> u64" where
  "phys_to_virt s phys = phys + hhdm_offset s"

definition virt_to_phys :: "vmm_state \<Rightarrow> u64 \<Rightarrow> u64" where
  "virt_to_phys s virt = virt - hhdm_offset s"

text \<open>Entry \<open>index\<close> of the table at address \<open>table\<close>.\<close>

definition pte :: "mem \<Rightarrow> u64 \<Rightarrow> u64 \<Rightarrow> u64" where
  "pte m tbl index = load_u64 m (tbl + 8 * index)"

definition set_pte :: "u64 \<Rightarrow> u64 \<Rightarrow> u64 \<Rightarrow> vmm_state \<Rightarrow> vmm_state" where
  "set_pte tbl index v s = s\<lparr>vmm_mem := store_u64 (vmm_mem s) (tbl + 8 * index) v\<rparr>"

definition invlpg :: "u64 \<Rightarrow> vmm_state \<Rightarrow> vmm_state" where
  "invlpg virt s = s\<lparr>hw_ops := hw_ops s @ [Invlpg virt]\<rparr>"

text \<open>The field \<open>pml4\<close> of an address space.\<close>

definition dir_pml4 :: "dir_ptr \<Rightarrow> vmm_state \<Rightarrow> u64" where
  "dir_pml4 dir s = (case dir of
     Kernel_Directory \<Rightarrow> pml4 (kernel_directory s)
   | Directory_At a \<Rightarrow> load_u64 (vmm_mem s) (a + 8))"

definition dir_pml4_phys :: "dir_ptr \<Rightarrow> vmm_state \<Rightarrow> u64" where
  "dir_pml4_phys dir s = (case dir of
     Kernel_Directory \<Rightarrow> pml4_phys (kernel_directory s)
   | Directory_At a \<Rightarrow> load_u64 (vmm_mem s) a)"

definition pmm_alloc :: "vmm_state \<Rightarrow> u64 \<times> vmm_state" where
  "pmm_alloc s = (let (p, pm) = pmm_alloc_block (vmm_pmm s) in (p, s\<lparr>vmm_pmm := pm\<rparr>))"

definition pmm_free :: "u64 \<Rightarrow> vmm_state \<Rightarrow> vmm_state" where
  "pmm_free p s = s\<lparr>vmm_pmm := pmm_free_block p (vmm_pmm s)\<rparr>"

definition alloc_table :: "vmm_state \<Rightarrow> u64 \<times> vmm_state" where
  "alloc_table s =
     (let (tbl, s) = pmm_alloc s in
      if tbl = 0 then (0, s) else (tbl, for_upto 512 (\<lambda>i. set_pte tbl (of_nat i) 0) s))"

definition free_table :: "u64 \<Rightarrow> vmm_state \<Rightarrow> vmm_state" where
  "free_table tbl s = pmm_free tbl s"

definition get_or_create_table :: "u64 \<Rightarrow> u64 \<Rightarrow> u64 \<Rightarrow> vmm_state \<Rightarrow> u64 \<times> vmm_state" where
  "get_or_create_table tbl index flags s =
     (if pte (vmm_mem s) tbl index AND PAGE_PRESENT \<noteq> 0 then
        let s = (if flags AND PAGE_USER \<noteq> 0
                 then set_pte tbl index (pte (vmm_mem s) tbl index OR PAGE_USER) s else s);
            phys = pte (vmm_mem s) tbl index AND PAGE_FRAME_MASK
        in (phys_to_virt s phys, s)
      else
        let (new_table, s) = alloc_table s in
        if new_table = 0 then (0, s)
        else
          let phys = virt_to_phys s new_table
          in (new_table, set_pte tbl index (phys OR PAGE_PRESENT OR PAGE_RW OR (flags AND PAGE_USER)) s))"

definition get_table :: "u64 \<Rightarrow> u64 \<Rightarrow> vmm_state \<Rightarrow> u64" where
  "get_table tbl index s =
     (if pte (vmm_mem s) tbl index AND PAGE_PRESENT = 0 then 0
      else phys_to_virt s (pte (vmm_mem s) tbl index AND PAGE_FRAME_MASK))"

text \<open>\<open>cr3\<close> and \<open>hhdm\<close> are what the control register and the boot protocol say.\<close>

definition vmm_init :: "u64 \<Rightarrow> u64 \<Rightarrow> vmm_state \<Rightarrow> vmm_state" where
  "vmm_init cr3 hhdm s =
     (let s = s\<lparr>hhdm_offset := hhdm\<rparr>;
          phys = cr3 AND PAGE_FRAME_MASK
      in s\<lparr>kernel_directory := \<lparr>pml4_phys = phys, pml4 = phys_to_virt s phys\<rparr>,
           current_directory := Some Kernel_Directory\<rparr>)"

definition vmm_get_kernel_cr3 :: "vmm_state \<Rightarrow> u64" where
  "vmm_get_kernel_cr3 s = pml4_phys (kernel_directory s)"

text \<open>The body of \<open>vmm_map_page\<close> behind the read of the current directory.\<close>

definition map_page_at :: "u64 \<Rightarrow> u64 \<Rightarrow> u64 \<Rightarrow> u64 \<Rightarrow> vmm_state \<Rightarrow> vmm_state" where
  "map_page_at root phys virt flags s =
     (let phys = PAGE_ALIGN_DOWN phys;
          virt = PAGE_ALIGN_DOWN virt;
          (pdpt, s) = get_or_create_table root (PML4_INDEX virt) flags s
      in if pdpt = 0 then s
         else
           let (pd, s) = get_or_create_table pdpt (PDPT_INDEX virt) flags s in
           if pd = 0 then s
           else
             let (pt, s) = get_or_create_table pd (PD_INDEX virt) flags s in
             if pt = 0 then s
             else
               let s = set_pte pt (PT_INDEX virt) (phys OR (flags AND (0xFFF OR PAGE_NX)) OR PAGE_PRESENT) s
               in invlpg virt s)"

definition vmm_map_page :: "u64 \<Rightarrow> u64 \<Rightarrow> u64 \<Rightarrow> vmm_state \<Rightarrow> vmm_state option" where
  "vmm_map_page phys virt flags s = do {
     dir \<leftarrow> current_directory s;
     Some (map_page_at (dir_pml4 dir s) phys virt flags s)
   }"

definition vmm_unmap_page :: "u64 \<Rightarrow> vmm_state \<Rightarrow> vmm_state option" where
  "vmm_unmap_page virt s = do {
     let virt = PAGE_ALIGN_DOWN virt;
     dir \<leftarrow> current_directory s;
     let pdpt = get_table (dir_pml4 dir s) (PML4_INDEX virt) s;
     if pdpt = 0 then Some s
     else
       let pd = get_table pdpt (PDPT_INDEX virt) s in
       if pd = 0 then Some s
       else
         let pt = get_table pd (PD_INDEX virt) s in
         if pt = 0 then Some s
         else Some (invlpg virt (set_pte pt (PT_INDEX virt) 0 s))
   }"

definition vmm_switch_directory :: "dir_ptr option \<Rightarrow> vmm_state \<Rightarrow> int \<times> vmm_state" where
  "vmm_switch_directory dir s = (case dir of
     None \<Rightarrow> (- 1, s)
   | Some d \<Rightarrow> (0, s\<lparr>current_directory := dir, hw_ops := hw_ops s @ [Write_CR3 (dir_pml4_phys d s)]\<rparr>))"

definition vmm_get_directory :: "vmm_state \<Rightarrow> dir_ptr option" where
  "vmm_get_directory s = current_directory s"

definition vmm_get_physical :: "u64 \<Rightarrow> vmm_state \<Rightarrow> u64 option" where
  "vmm_get_physical virt s = do {
     let virt = PAGE_ALIGN_DOWN virt;
     dir \<leftarrow> current_directory s;
     let pdpt = get_table (dir_pml4 dir s) (PML4_INDEX virt) s;
     if pdpt = 0 then Some 0
     else
       let pd = get_table pdpt (PDPT_INDEX virt) s in
       if pd = 0 then Some 0
       else if pte (vmm_mem s) pd (PD_INDEX virt) AND PAGE_HUGE \<noteq> 0 then
         Some ((pte (vmm_mem s) pd (PD_INDEX virt) AND PAGE_FRAME_MASK) + (virt AND 0x1FFFFF))
       else
         let pt = get_table pd (PD_INDEX virt) s in
         if pt = 0 then Some 0
         else if pte (vmm_mem s) pt (PT_INDEX virt) AND PAGE_PRESENT = 0 then Some 0
         else Some ((pte (vmm_mem s) pt (PT_INDEX virt) AND PAGE_FRAME_MASK) + PAGE_OFFSET virt)
   }"

definition vmm_is_mapped :: "u64 \<Rightarrow> vmm_state \<Rightarrow> bool option" where
  "vmm_is_mapped virt s = do { p \<leftarrow> vmm_get_physical virt s; Some (p \<noteq> 0) }"

text \<open>The body of the loop of \<open>vmm_set_user_accessible\<close>: the flag at all levels that exist.\<close>

definition add_user :: "u64 \<Rightarrow> u64 \<Rightarrow> vmm_state \<Rightarrow> vmm_state" where
  "add_user tbl index s = set_pte tbl index (pte (vmm_mem s) tbl index OR PAGE_USER) s"

definition set_user_body :: "u64 \<Rightarrow> u64 \<Rightarrow> vmm_state \<Rightarrow> vmm_state" where
  "set_user_body root addr s =
     (let present = (\<lambda>tbl i s. pte (vmm_mem s) tbl i AND PAGE_PRESENT \<noteq> 0);
          s = (if present root (PML4_INDEX addr) s then
                 let s = add_user root (PML4_INDEX addr) s;
                     pdpt = get_table root (PML4_INDEX addr) s
                 in if pdpt \<noteq> 0 \<and> present pdpt (PDPT_INDEX addr) s then
                      let s = add_user pdpt (PDPT_INDEX addr) s;
                          pd = get_table pdpt (PDPT_INDEX addr) s
                      in if pd \<noteq> 0 \<and> present pd (PD_INDEX addr) s then
                           let s = add_user pd (PD_INDEX addr) s;
                               pt = get_table pd (PD_INDEX addr) s
                           in if pt \<noteq> 0 \<and> present pt (PT_INDEX addr) s then add_user pt (PT_INDEX addr) s else s
                         else s
                    else s
               else s)
      in invlpg addr s)"

text \<open>
  Both bounds of the loop are multiples of the page size, so it runs over the pages between them,
  and not at all when the end wrapped around.
\<close>

definition vmm_set_user_accessible :: "u64 \<Rightarrow> u64 \<Rightarrow> vmm_state \<Rightarrow> vmm_state option" where
  "vmm_set_user_accessible start sz s = do {
     let start = PAGE_ALIGN_DOWN start;
     let finish = PAGE_ALIGN_UP (start + sz);
     if start < finish then do {
       dir \<leftarrow> current_directory s;
       Some (for_upto ((unat finish - unat start) div 4096)
               (\<lambda>i s. set_user_body (dir_pml4 dir s) (start + PAGE_SIZE * of_nat i) s) s)
     }
     else Some s
   }"

definition vmm_get_kernel_directory :: "vmm_state \<Rightarrow> dir_ptr" where
  "vmm_get_kernel_directory s = Kernel_Directory"

definition copy_pte :: "u64 \<Rightarrow> u64 \<Rightarrow> u64 \<Rightarrow> vmm_state \<Rightarrow> vmm_state" where
  "copy_pte dst src index s = set_pte dst index (pte (vmm_mem s) src index) s"

definition vmm_create_directory :: "vmm_state \<Rightarrow> dir_ptr option \<times> vmm_state" where
  "vmm_create_directory s =
     (let (dir, s) = pmm_alloc s in
      if dir = 0 then (None, s)
      else
        let (root, s) = alloc_table s in
        if root = 0 then (None, pmm_free dir s)
        else
          let s = s\<lparr>vmm_mem := store_u64 (vmm_mem s) (dir + 8) root\<rparr>;
              s = s\<lparr>vmm_mem := store_u64 (vmm_mem s) dir (virt_to_phys s root)\<rparr>;
              kernel = pml4 (kernel_directory s);
              s = for_upto 256 (\<lambda>i. copy_pte root kernel (of_nat (256 + i))) s;
              s = (if pte (vmm_mem s) kernel 0 AND PAGE_PRESENT \<noteq> 0 then copy_pte root kernel 0 s else s)
          in (Some (Directory_At dir), s))"

text \<open>The three nested loops of \<open>vmm_free_directory\<close>.\<close>

definition free_pt_body :: "u64 \<Rightarrow> nat \<Rightarrow> vmm_state \<Rightarrow> vmm_state" where
  "free_pt_body pd k s =
     (if pte (vmm_mem s) pd (of_nat k) AND PAGE_PRESENT = 0 then s
      else if pte (vmm_mem s) pd (of_nat k) AND PAGE_HUGE \<noteq> 0 then s
      else let pt = get_table pd (of_nat k) s in if pt \<noteq> 0 then free_table pt s else s)"

definition free_pd_body :: "u64 \<Rightarrow> nat \<Rightarrow> vmm_state \<Rightarrow> vmm_state" where
  "free_pd_body pdpt j s =
     (if pte (vmm_mem s) pdpt (of_nat j) AND PAGE_PRESENT = 0 then s
      else let pd = get_table pdpt (of_nat j) s in
           if pd = 0 then s else free_table pd (for_upto 512 (free_pt_body pd) s))"

definition free_pdpt_body :: "u64 \<Rightarrow> nat \<Rightarrow> vmm_state \<Rightarrow> vmm_state" where
  "free_pdpt_body root i s =
     (if pte (vmm_mem s) root (of_nat i) AND PAGE_PRESENT = 0 then s
      else let pdpt = get_table root (of_nat i) s in
           if pdpt = 0 then s else free_table pdpt (for_upto 512 (free_pd_body pdpt) s))"

definition vmm_free_directory :: "dir_ptr option \<Rightarrow> vmm_state \<Rightarrow> vmm_state" where
  "vmm_free_directory dir s = (case dir of
     None \<Rightarrow> s
   | Some Kernel_Directory \<Rightarrow> s
   | Some (Directory_At a) \<Rightarrow>
       let root = dir_pml4 (Directory_At a) s;
           s = for_upto 256 (free_pdpt_body root) s;
           s = free_table root s
       in pmm_free a s)"

definition vmm_get_phys_addr :: "dir_ptr option \<Rightarrow> u64 \<Rightarrow> vmm_state \<Rightarrow> u64" where
  "vmm_get_phys_addr dir virt_addr s = (case dir of
     None \<Rightarrow> 0
   | Some d \<Rightarrow>
       let virt_addr = PAGE_ALIGN_DOWN virt_addr;
           pdpt = get_table (dir_pml4 d s) (PML4_INDEX virt_addr) s
       in if pdpt = 0 then 0
          else
            let pd = get_table pdpt (PDPT_INDEX virt_addr) s in
            if pd = 0 then 0
            else if pte (vmm_mem s) pd (PD_INDEX virt_addr) AND PAGE_HUGE \<noteq> 0 then
              (pte (vmm_mem s) pd (PD_INDEX virt_addr) AND PAGE_FRAME_MASK) + (virt_addr AND 0x1FFFFF)
            else
              let pt = get_table pd (PD_INDEX virt_addr) s in
              if pt = 0 then 0
              else if pte (vmm_mem s) pt (PT_INDEX virt_addr) AND PAGE_PRESENT = 0 then 0
              else pte (vmm_mem s) pt (PT_INDEX virt_addr) AND PAGE_FRAME_MASK)"

definition vmm_map_page_in_dir :: "dir_ptr option \<Rightarrow> u64 \<Rightarrow> u64 \<Rightarrow> u64 \<Rightarrow> vmm_state \<Rightarrow> (int \<times> vmm_state) option" where
  "vmm_map_page_in_dir dir phys virt flags s = (case dir of
     None \<Rightarrow> Some (- 1, s)
   | Some d \<Rightarrow> do {
       let saved = current_directory s;
       s \<leftarrow> vmm_map_page phys virt flags (s\<lparr>current_directory := dir\<rparr>);
       Some (0, s\<lparr>current_directory := saved\<rparr>)
     })"

definition vmm_clone_directory :: "dir_ptr option \<Rightarrow> vmm_state \<Rightarrow> dir_ptr option \<times> vmm_state" where
  "vmm_clone_directory src s = (case src of
     None \<Rightarrow> (None, s)
   | Some d \<Rightarrow>
       let (dst, s) = vmm_create_directory s in
       (case dst of
          None \<Rightarrow> (None, s)
        | Some e \<Rightarrow> (Some e, for_upto 256 (\<lambda>i s. copy_pte (dir_pml4 e s) (dir_pml4 d s) (of_nat i) s) s)))"

definition vmm_is_mapped_in_dir :: "dir_ptr option \<Rightarrow> u64 \<Rightarrow> vmm_state \<Rightarrow> bool" where
  "vmm_is_mapped_in_dir dir virt s \<longleftrightarrow> vmm_get_phys_addr dir virt s \<noteq> 0"

lemma page_room:
  assumes "remaining \<noteq> (0 :: u64)"
  shows "unat (remaining - (if remaining < PAGE_SIZE - (v - PAGE_ALIGN_DOWN v) then remaining
           else PAGE_SIZE - (v - PAGE_ALIGN_DOWN v))) < unat remaining"
proof -
  have "unat (PAGE_ALIGN_DOWN v) = unat v div 4096 * 4096"
    using unat_align_down_4096 [of v] by (simp add: PAGE_ALIGN_DOWN_def c_defs)
  moreover from this have "PAGE_ALIGN_DOWN v \<le> v" by (simp add: word_le_nat_alt)
  ultimately have "unat (v - PAGE_ALIGN_DOWN v) = unat v mod 4096"
    by (simp add: unat_sub minus_div_mult_eq_mod)
  then have lt: "unat (v - PAGE_ALIGN_DOWN v) < 4096" by simp
  then have "v - PAGE_ALIGN_DOWN v \<le> PAGE_SIZE" by (simp add: word_le_nat_alt c_defs)
  with lt have room: "0 < unat (PAGE_SIZE - (v - PAGE_ALIGN_DOWN v))" by (simp add: unat_sub c_defs)
  have pos: "0 < unat remaining" using assms unat_eq_0 [of remaining] by linarith
  show ?thesis
  proof (cases "remaining < PAGE_SIZE - (v - PAGE_ALIGN_DOWN v)")
    case True
    then show ?thesis using pos by simp
  next
    case False
    then show ?thesis using room pos by (simp add: unat_sub word_le_nat_alt not_less)
  qed
qed

text \<open>The loops over the pages of a range; \<open>write dst n\<close> fills the part of one page.\<close>

function copy_pages :: "dir_ptr option \<Rightarrow> u64 \<Rightarrow> u64 \<Rightarrow> u64 \<Rightarrow> vmm_state \<Rightarrow> int \<times> vmm_state" where
  "copy_pages dir current_virt src_ptr remaining s =
     (if remaining = 0 then (0, s)
      else
        let page_virt = PAGE_ALIGN_DOWN current_virt;
            offset = current_virt - page_virt;
            phys = vmm_get_phys_addr dir page_virt s
        in if phys = 0 then (- 1, s)
           else
             let bytes_in_page = PAGE_SIZE - offset;
                 to_copy = (if remaining < bytes_in_page then remaining else bytes_in_page);
                 dst_ptr = phys_to_virt s phys + offset;
                 s = s\<lparr>vmm_mem := copy_loop dst_ptr src_ptr (unat to_copy) (vmm_mem s)\<rparr>
             in copy_pages dir (current_virt + to_copy) (src_ptr + to_copy) (remaining - to_copy) s)"
  by pat_completeness auto
termination
  by (relation "measure (\<lambda>(dir, v, p, r, s). unat r)") (simp_all only: wf_measure in_measure prod.case page_room not_False_eq_True)

declare copy_pages.simps [simp del]

definition vmm_copy_to_dir :: "dir_ptr option \<Rightarrow> u64 \<Rightarrow> u64 \<Rightarrow> u64 \<Rightarrow> vmm_state \<Rightarrow> int \<times> vmm_state" where
  "vmm_copy_to_dir dir dst_virt src sz s =
     (if dir = None \<or> src = 0 \<or> sz = 0 then (- 1, s) else copy_pages dir dst_virt src sz s)"

definition fill_loop :: "u64 \<Rightarrow> u8 \<Rightarrow> nat \<Rightarrow> mem \<Rightarrow> mem" where
  "fill_loop dst v n m = for_upto n (\<lambda>i m. m(dst + of_nat i := v)) m"

function fill_pages :: "dir_ptr option \<Rightarrow> u64 \<Rightarrow> u8 \<Rightarrow> u64 \<Rightarrow> vmm_state \<Rightarrow> int \<times> vmm_state" where
  "fill_pages dir current_virt v remaining s =
     (if remaining = 0 then (0, s)
      else
        let page_virt = PAGE_ALIGN_DOWN current_virt;
            offset = current_virt - page_virt;
            phys = vmm_get_phys_addr dir page_virt s
        in if phys = 0 then (- 1, s)
           else
             let bytes_in_page = PAGE_SIZE - offset;
                 to_write = (if remaining < bytes_in_page then remaining else bytes_in_page);
                 dst_ptr = phys_to_virt s phys + offset;
                 s = s\<lparr>vmm_mem := fill_loop dst_ptr v (unat to_write) (vmm_mem s)\<rparr>
             in fill_pages dir (current_virt + to_write) v (remaining - to_write) s)"
  by pat_completeness auto
termination
  by (relation "measure (\<lambda>(dir, c, v, r, s). unat r)") (simp_all only: wf_measure in_measure prod.case page_room not_False_eq_True)

declare fill_pages.simps [simp del]

definition vmm_memset_in_dir :: "dir_ptr option \<Rightarrow> u64 \<Rightarrow> u8 \<Rightarrow> u64 \<Rightarrow> vmm_state \<Rightarrow> int \<times> vmm_state" where
  "vmm_memset_in_dir dir dst_virt v sz s =
     (if dir = None \<or> sz = 0 then (- 1, s) else fill_pages dir dst_virt v sz s)"

definition vmm_phys_to_virt :: "u64 \<Rightarrow> vmm_state \<Rightarrow> u64" where
  "vmm_phys_to_virt phys s = phys_to_virt s phys"

definition vmm_virt_to_phys :: "u64 \<Rightarrow> vmm_state \<Rightarrow> u64" where
  "vmm_virt_to_phys virt s = virt_to_phys s virt"

end
