(* ===== verification/Page_Tables.thy ===== *)
theory Page_Tables
  imports Vmm "HOL-Library.Sublist"
begin

text \<open>
  Page tables as trees in memory. The entries of tables are words at known addresses; a path of
  indices descends from the root to a table, and the walk of the hardware ends with an entry.
  Writing one entry only concerns the paths that go through it.
\<close>

section \<open>Tables in memory\<close>

definition table_at :: "u64 \<Rightarrow> bool" where
  "table_at t \<longleftrightarrow> unat t mod 4096 = 0"

lemma pte_address:
  assumes "table_at t" and "i < 512"
  shows "t + 8 * i = of_nat (unat t + 8 * unat i)" and "unat t + 8 * unat i + 8 \<le> addr_space"
    and "unat i < 512"
proof -
  show "t + 8 * i = of_nat (unat t + 8 * unat i)" by simp
  show i: "unat i < 512" using assms(2) by (simp add: word_less_nat_alt)
  obtain k where k: "unat t = 4096 * k" using assms(1) by (auto simp: table_at_def mod_eq_0_iff_dvd elim: dvdE)
  then have "k + 1 \<le> 4503599627370496" using unat_u64_lt [of t] by simp
  with k have "unat t + 4096 \<le> addr_space" unfolding addr_space_def by linarith
  with i show "unat t + 8 * unat i + 8 \<le> addr_space" by linarith
qed

lemma table_apart:
  assumes "table_at t" and "table_at t'" and "t \<noteq> t'"
  shows "unat t + 4096 \<le> unat t' \<or> unat t' + 4096 \<le> unat t"
proof -
  obtain k k' where k: "unat t = 4096 * k" "unat t' = 4096 * k'"
    using assms(1,2) by (auto simp: table_at_def mod_eq_0_iff_dvd elim!: dvdE)
  moreover have "unat t \<noteq> unat t'" using assms(3) by (simp add: word_unat_eq_iff)
  ultimately have "k + 1 \<le> k' \<or> k' + 1 \<le> k" by auto
  with k show ?thesis by linarith
qed

lemma pte_store:
  assumes "table_at t" and "i < 512" and "table_at t'" and "i' < 512"
  shows "pte (store_u64 m (t + 8 * i) v) t' i' = (if t' = t \<and> i' = i then v else pte m t' i')"
proof -
  note a = pte_address [OF assms(1,2)] and b = pte_address [OF assms(3,4)]
  show ?thesis
  proof (cases "t' = t \<and> i' = i")
    case True
    then show ?thesis using a unfolding pte_def by (simp only: simp_thms if_True load_store_u64_same)
  next
    case False
    have "unat t + 8 * unat i + 8 \<le> unat t' + 8 * unat i' \<or> unat t' + 8 * unat i' + 8 \<le> unat t + 8 * unat i"
    proof (cases "t' = t")
      case True
      then have "unat i \<noteq> unat i'" using False by (auto simp: word_unat_eq_iff)
      then show ?thesis using True by auto
    next
      case False
      then show ?thesis using table_apart [OF assms(1,3)] a(3) b(3) by auto
    qed
    then have "load_u64 (store_u64 m (of_nat (unat t + 8 * unat i)) v) (of_nat (unat t' + 8 * unat i')) =
        load_u64 m (of_nat (unat t' + 8 * unat i'))"
      using a(2) b(2) by (intro load_store_u64_other) auto
    then show ?thesis unfolding pte_def a(1) b(1) if_not_P [OF False] .
  qed
qed

lemma set_pte_mem [simp]: "vmm_mem (set_pte t i v s) = store_u64 (vmm_mem s) (t + 8 * i) v"
  by (simp add: set_pte_def)

lemma set_pte_fields [simp]:
  "hhdm_offset (set_pte t i v s) = hhdm_offset s" "kernel_directory (set_pte t i v s) = kernel_directory s"
  "current_directory (set_pte t i v s) = current_directory s" "vmm_pmm (set_pte t i v s) = vmm_pmm s"
  "hw_ops (set_pte t i v s) = hw_ops s"
  by (simp_all add: set_pte_def)

text \<open>A store to an entry changes bytes of the page of its table only.\<close>

definition page_of :: "u64 \<Rightarrow> u64" where
  "page_of x = x AND - 4096"

lemma unat_page_of: "unat (page_of x) = unat x div 4096 * 4096"
  by (simp add: page_of_def unat_align_down_4096)

lemma page_of_table: "table_at (page_of x)"
  by (simp add: table_at_def unat_page_of)

lemma store_entry_other:
  assumes "table_at t" and "i < 512" and "page_of x \<noteq> t"
  shows "store_u64 m (t + 8 * i) v x = m x"
proof -
  note a = pte_address [OF assms(1,2)]
  have "unat x div 4096 * 4096 + 4096 \<le> unat t \<or> unat t + 4096 \<le> unat x div 4096 * 4096"
    using table_apart [OF page_of_table assms(1,3)] by (simp add: unat_page_of)
  moreover have "unat x = unat x div 4096 * 4096 + unat x mod 4096" "unat x mod 4096 < 4096" by simp_all
  ultimately have "\<not> (unat t + 8 * unat i \<le> unat x \<and> unat x < unat t + 8 * unat i + 8)" using a(3) by linarith
  then show ?thesis
    using store_u64_at [OF unat_lt_addr_space [of x] a(2), of m v] unfolding a(1) of_nat_unat_id by (simp only: if_False)
qed

lemma zero_table_fields:
  "hhdm_offset (for_upto n (\<lambda>i. set_pte t (of_nat i) 0) s) = hhdm_offset s"
  "kernel_directory (for_upto n (\<lambda>i. set_pte t (of_nat i) 0) s) = kernel_directory s"
  "current_directory (for_upto n (\<lambda>i. set_pte t (of_nat i) 0) s) = current_directory s"
  "vmm_pmm (for_upto n (\<lambda>i. set_pte t (of_nat i) 0) s) = vmm_pmm s"
  "hw_ops (for_upto n (\<lambda>i. set_pte t (of_nat i) 0) s) = hw_ops s"
  by (induction n) simp_all

lemma zero_table_pte:
  assumes "table_at t" and "table_at t'" and "i' < 512" and "n \<le> 512"
  shows "pte (vmm_mem (for_upto n (\<lambda>i. set_pte t (of_nat i) 0) s)) t' i' =
    (if t' = t \<and> unat i' < n then 0 else pte (vmm_mem s) t' i')"
  using assms(4)
proof (induction n)
  case 0
  then show ?case by simp
next
  case (Suc n)
  have n: "unat (of_nat n :: u64) = n" "(of_nat n :: u64) < 512" using Suc.prems by (simp_all add: word_less_nat_alt)
  have "i' = of_nat n \<longleftrightarrow> unat i' = n" using n(1) by (metis of_nat_unat_id)
  then show ?case using Suc pte_store [OF assms(1) n(2) assms(2,3)] by (auto simp: less_Suc_eq)
qed

lemma zero_table_other:
  assumes "table_at t" and "page_of x \<noteq> t" and "n \<le> 512"
  shows "vmm_mem (for_upto n (\<lambda>i. set_pte t (of_nat i) 0) s) x = vmm_mem s x"
  using assms(3)
proof (induction n)
  case 0
  then show ?case by simp
next
  case (Suc n)
  then have "(of_nat n :: u64) < 512" by (simp add: word_less_nat_alt)
  then show ?case using Suc store_entry_other [OF assms(1) _ assms(2)] by simp
qed

section \<open>The tree of tables\<close>

definition is_table :: "u64 \<Rightarrow> bool" where
  "is_table e \<longleftrightarrow> e AND PAGE_PRESENT \<noteq> 0 \<and> e AND PAGE_HUGE = 0"

text \<open>The table at the end of a path of indices, through entries that refer to tables.\<close>

fun descend :: "u64 \<Rightarrow> mem \<Rightarrow> u64 \<Rightarrow> u64 list \<Rightarrow> u64 option" where
  "descend h m t [] = Some t"
| "descend h m t (i # is) =
     (if is_table (pte m t i) then descend h m ((pte m t i AND PAGE_FRAME_MASK) + h) is else None)"

text \<open>
  The walk of the hardware: the entry that it ends with, and how many levels were left. Entries of
  the last level refer to pages; above it, those with the huge bit do.
\<close>

fun walk :: "u64 \<Rightarrow> mem \<Rightarrow> u64 \<Rightarrow> u64 list \<Rightarrow> (nat \<times> u64) option" where
  "walk h m t [] = None"
| "walk h m t (i # is) =
     (let e = pte m t i in
      if e AND PAGE_PRESENT = 0 then None
      else if is = [] \<or> e AND PAGE_HUGE \<noteq> 0 then Some (length is, e)
      else walk h m ((e AND PAGE_FRAME_MASK) + h) is)"

definition path :: "nat \<Rightarrow> u64 list \<Rightarrow> bool" where
  "path n p \<longleftrightarrow> length p \<le> n \<and> set p \<subseteq> {..<512}"

lemma path_Cons [simp]: "path n (i # p) \<longleftrightarrow> i < 512 \<and> 0 < n \<and> path (n - 1) p"
  by (cases n) (auto simp: path_def)

lemma path_Nil [simp]: "path n []"
  by (simp add: path_def)

lemma path_append: "path n (p @ q) \<longleftrightarrow> length p \<le> n \<and> path n p \<and> path (n - length p) q"
  by (auto simp: path_def)

lemma path_mono: "path n p \<Longrightarrow> n \<le> k \<Longrightarrow> path k p"
  by (simp add: path_def)

lemma descend_append:
  "descend h m t (p @ q) = (case descend h m t p of None \<Rightarrow> None | Some u \<Rightarrow> descend h m u q)"
  by (induction p arbitrary: t) auto

lemma walk_append: "descend h m t p = Some u \<Longrightarrow> q \<noteq> [] \<Longrightarrow> walk h m t (p @ q) = walk h m u q"
  by (induction p arbitrary: t) (auto simp: is_table_def split: if_splits)

text \<open>The tables of an address space, of the frames \<open>O\<close>; no table is in two places.\<close>

definition tables_of :: "u64 \<Rightarrow> mem \<Rightarrow> u64 \<Rightarrow> u64 set" where
  "tables_of h m r = {t. \<exists>p. path 3 p \<and> descend h m r p = Some t}"

definition tables_ok :: "u64 \<Rightarrow> mem \<Rightarrow> u64 \<Rightarrow> u64 set \<Rightarrow> bool" where
  "tables_ok h m r frames \<longleftrightarrow>
     (\<forall>p t. path 3 p \<and> descend h m r p = Some t \<longrightarrow> table_at t \<and> t \<in> frames) \<and>
     (\<forall>p q t. path 3 p \<and> path 3 q \<and> descend h m r p = Some t \<and> descend h m r q = Some t \<longrightarrow> p = q)"

lemma tables_okD:
  assumes "tables_ok h m r frames" and "path 3 p" and "descend h m r p = Some t"
  shows "table_at t" and "t \<in> frames" and "path 3 q \<Longrightarrow> descend h m r q = Some t \<Longrightarrow> q = p"
  using assms unfolding tables_ok_def by blast+

text \<open>Only the entries of tables matter.\<close>

lemma same_entries:
  assumes "\<And>p t i. path 3 p \<Longrightarrow> descend h m r p = Some t \<Longrightarrow> i < 512 \<Longrightarrow> \<not> prefix (p @ [i]) full \<Longrightarrow> False \<or> pte m' t i = pte m t i"
  shows "True" ..

text \<open>Entries that lead to the same place.\<close>

definition esim :: "u64 \<Rightarrow> u64 \<Rightarrow> bool" where
  "esim e e' \<longleftrightarrow> is_table e = is_table e' \<and> e AND PAGE_FRAME_MASK = e' AND PAGE_FRAME_MASK"

lemma esim_refl [simp]: "esim e e"
  by (simp add: esim_def)

lemma descend_cong:
  assumes "descend h m r pre = Some u" and "path 3 (pre @ q)"
    and "\<And>p t i. path 3 (p @ [i]) \<Longrightarrow> prefix (p @ [i]) (pre @ q) \<Longrightarrow> descend h m r p = Some t \<Longrightarrow>
      esim (pte m' t i) (pte m t i)"
  shows "descend h m' u q = descend h m u q"
  using assms
proof (induction q arbitrary: pre u)
  case Nil
  then show ?case by simp
next
  case (Cons i q)
  have e: "esim (pte m' u i) (pte m u i)" using Cons.prems by (intro Cons.prems(3) [of pre]) (auto simp: path_append)
  show ?case
  proof (cases "is_table (pte m u i)")
    case True
    then have d: "descend h m r (pre @ [i]) = Some ((pte m u i AND PAGE_FRAME_MASK) + h)"
      using Cons.prems(1) by (simp add: descend_append)
    have "descend h m' ((pte m u i AND PAGE_FRAME_MASK) + h) q = descend h m ((pte m u i AND PAGE_FRAME_MASK) + h) q"
      by (rule Cons.IH [OF d]) (use Cons.prems in auto)
    then show ?thesis using e by (simp add: esim_def)
  qed (use e in \<open>simp add: esim_def\<close>)
qed

text \<open>The walk to the last level may pass through tables whose entries changed their flags.\<close>

lemma walk_cong:
  assumes "descend h m r pre = Some u" and "path 4 (pre @ q)" and "length (pre @ q) = 4"
    and "\<And>p t i. path 4 (p @ [i]) \<Longrightarrow> prefix (p @ [i]) (pre @ q) \<Longrightarrow> descend h m r p = Some t \<Longrightarrow>
      pte m' t i = pte m t i \<or> length p < 3 \<and> is_table (pte m t i) \<and> esim (pte m' t i) (pte m t i)"
  shows "walk h m' u q = walk h m u q"
  using assms
proof (induction q arbitrary: pre u)
  case Nil
  then show ?case by simp
next
  case (Cons i q)
  have e: "pte m' u i = pte m u i \<or> length pre < 3 \<and> is_table (pte m u i) \<and> esim (pte m' u i) (pte m u i)"
    using Cons.prems by (intro Cons.prems(4) [of pre]) (auto simp: path_append)
  show ?case
  proof (cases "is_table (pte m u i)")
    case True
    then have d: "descend h m r (pre @ [i]) = Some ((pte m u i AND PAGE_FRAME_MASK) + h)"
      using Cons.prems(1) by (simp add: descend_append)
    have "walk h m' ((pte m u i AND PAGE_FRAME_MASK) + h) q = walk h m ((pte m u i AND PAGE_FRAME_MASK) + h) q"
      by (rule Cons.IH [OF d]) (use Cons.prems in auto)
    moreover have "q \<noteq> []" if "length pre < 3" using Cons.prems(3) that by auto
    ultimately show ?thesis using e True by (auto simp: Let_def esim_def is_table_def)
  next
    case False
    then have "pte m' u i = pte m u i" using e by simp
    with False show ?thesis by (auto simp: is_table_def Let_def)
  qed
qed

text \<open>Writing entry \<open>i\<close> of the table at the end of \<open>p\<close> only concerns the paths through it.\<close>

lemma write_entry:
  fixes v :: u64
  assumes "tables_ok h m r frames" and "path 3 p" and "descend h m r p = Some t" and "i < 512"
  defines "m' \<equiv> store_u64 m (t + 8 * i) v"
  shows "path 3 q \<Longrightarrow> \<not> prefix (p @ [i]) q \<Longrightarrow> descend h m' r q = descend h m r q"
    and "path 4 q \<Longrightarrow> length q = 4 \<Longrightarrow> \<not> prefix (p @ [i]) q \<Longrightarrow> walk h m' r q = walk h m r q"
    and "descend h m' r (p @ i # q) = (if is_table v then descend h m' ((v AND PAGE_FRAME_MASK) + h) q else None)"
    and "walk h m' r (p @ i # q) = (if v AND PAGE_PRESENT = 0 then None
      else if q = [] \<or> v AND PAGE_HUGE \<noteq> 0 then Some (length q, v) else walk h m' ((v AND PAGE_FRAME_MASK) + h) q)"
proof -
  note t = tables_okD [OF assms(1-3)]
  have other: "pte m' u j = pte m u j"
    if "path 4 (p' @ [j])" "\<not> prefix (p @ [i]) (p' @ [j])" "descend h m r p' = Some u" for p' j u
  proof -
    have p': "path 3 p'" "j < 512" using that(1) by (auto simp: path_append path_def)
    have "table_at u" using tables_okD(1) [OF assms(1) p'(1) that(3)] .
    moreover have "\<not> (u = t \<and> j = i)" using t(3) [OF p'(1)] that(2,3) by auto
    ultimately show ?thesis using pte_store [OF t(1) assms(4) _ p'(2)] by (auto simp: m'_def)
  qed
  have np: "\<not> prefix (p @ [i]) q'" if "prefix q' q" "\<not> prefix (p @ [i]) q" for q' q
    using that prefix_order.trans by blast
  show d: "descend h m' r q = descend h m r q" if "path 3 q" "\<not> prefix (p @ [i]) q" for q
  proof (rule descend_cong [where pre = "[]" and r = r])
    fix p' u j assume a: "path 3 (p' @ [j])" "prefix (p' @ [j]) ([] @ q)" "descend h m r p' = Some u"
    show "esim (pte m' u j) (pte m u j)"
      using other [OF path_mono [OF a(1)] np [OF a(2) [unfolded append_Nil] that(2)] a(3)] by simp
  qed (use that in simp_all)
  show "walk h m' r q = walk h m r q" if "path 4 q" "length q = 4" "\<not> prefix (p @ [i]) q" for q
  proof (rule walk_cong [where pre = "[]" and r = r])
    fix p' u j assume a: "path 4 (p' @ [j])" "prefix (p' @ [j]) ([] @ q)" "descend h m r p' = Some u"
    show "pte m' u j = pte m u j \<or> length p' < 3 \<and> is_table (pte m u j) \<and> esim (pte m' u j) (pte m u j)"
      using other [OF a(1) np [OF a(2) [unfolded append_Nil] that(3)] a(3)] by blast
  qed (use that in simp_all)
  have "\<not> prefix (p @ [i]) p" by (auto dest: prefix_length_le)
  then have dp: "descend h m' r p = Some t" using d [OF assms(2)] assms(3) by simp
  have e: "pte m' t i = v" using pte_store [OF t(1) assms(4) t(1) assms(4)] by (simp add: m'_def)
  show "descend h m' r (p @ i # q) = (if is_table v then descend h m' ((v AND PAGE_FRAME_MASK) + h) q else None)"
    by (simp add: descend_append dp e)
  show "walk h m' r (p @ i # q) = (if v AND PAGE_PRESENT = 0 then None
      else if q = [] \<or> v AND PAGE_HUGE \<noteq> 0 then Some (length q, v) else walk h m' ((v AND PAGE_FRAME_MASK) + h) q)"
    using walk_append [OF dp, of "i # q"] by (simp add: e Let_def)
qed

text \<open>A memory with the same entries in all tables has the same tree.\<close>

lemma same_tables:
  assumes "\<And>p t i. path 3 p \<Longrightarrow> descend h m r p = Some t \<Longrightarrow> i < 512 \<Longrightarrow>
      pte m' t i = pte m t i \<or> length p < 3 \<and> is_table (pte m t i) \<and> esim (pte m' t i) (pte m t i)"
  shows "path 3 q \<Longrightarrow> descend h m' r q = descend h m r q"
    and "path 4 q \<Longrightarrow> length q = 4 \<Longrightarrow> walk h m' r q = walk h m r q"
proof -
  have e: "pte m' u j = pte m u j \<or> length p' < 3 \<and> is_table (pte m u j) \<and> esim (pte m' u j) (pte m u j)"
    if "path 4 (p' @ [j])" "descend h m r p' = Some u" for p' j u
    using that by (intro assms) (auto simp: path_append path_def)
  show "descend h m' r q = descend h m r q" if "path 3 q"
  proof (rule descend_cong [where pre = "[]" and r = r])
    fix p' u j assume "path 3 (p' @ [j])" "descend h m r p' = Some u"
    then show "esim (pte m' u j) (pte m u j)" using e [of p' j u] path_mono [of 3 _ 4] by auto
  qed (use that in simp_all)
  show "walk h m' r q = walk h m r q" if "path 4 q" "length q = 4"
    by (rule walk_cong [where pre = "[]" and r = r]) (use that e in simp_all)
qed

end
