(* ===== verification/Vmm_Correct.thy ===== *)
theory Vmm_Correct
  imports Page_Tables
begin

text \<open>
  Correctness of the virtual memory manager: what the page tables of an address space mean is the
  walk of the hardware, and mapping and unmapping are updates of that function at one page. The
  tables come from free frames, and nothing outside of them changes.
\<close>

section \<open>Address spaces\<close>

definition frames_ok :: "vmm_state \<Rightarrow> bool" where
  "frames_ok s \<longleftrightarrow> pmm_inv (vmm_pmm s) \<and> hhdm_ok (vmm_pmm s) \<and> pmm_hhdm_offset (vmm_pmm s) = hhdm_offset s \<and>
     unat (hhdm_offset s) mod 4096 = 0"

definition space_ok :: "u64 \<Rightarrow> vmm_state \<Rightarrow> bool" where
  "space_ok r s \<longleftrightarrow> frames_ok s \<and> tables_ok (hhdm_offset s) (vmm_mem s) r (owned_frames (vmm_pmm s))"

definition tables :: "u64 \<Rightarrow> vmm_state \<Rightarrow> u64 set" where
  "tables r s = tables_of (hhdm_offset s) (vmm_mem s) r"

definition idx :: "u64 \<Rightarrow> u64 list" where
  "idx v = [PML4_INDEX v, PDPT_INDEX v, PD_INDEX v, PT_INDEX v]"

text \<open>What a virtual address means in the space with root \<open>r\<close>.\<close>

definition translate :: "u64 \<Rightarrow> vmm_state \<Rightarrow> u64 \<Rightarrow> (nat \<times> u64) option" where
  "translate r s v = walk (hhdm_offset s) (vmm_mem s) r (idx v)"

text \<open>
  What an operation on one space leaves alone: the configuration, and all memory outside of the
  tables of the space, which may have grown by frames that were free.
\<close>

definition keeps :: "u64 \<Rightarrow> vmm_state \<Rightarrow> vmm_state \<Rightarrow> bool" where
  "keeps r s s' \<longleftrightarrow> hhdm_offset s' = hhdm_offset s \<and> kernel_directory s' = kernel_directory s \<and>
     current_directory s' = current_directory s \<and>
     owned_frames (vmm_pmm s) \<subseteq> owned_frames (vmm_pmm s') \<and> tables r s \<subseteq> tables r s' \<and>
     tables r s' - tables r s \<subseteq> owned_frames (vmm_pmm s') - owned_frames (vmm_pmm s) \<and>
     (\<forall>x. page_of x \<notin> tables r s' \<longrightarrow> vmm_mem s' x = vmm_mem s x)"

lemma keeps_refl: "keeps r s s"
  by (simp add: keeps_def)

lemma keeps_trans: "keeps r s s' \<Longrightarrow> keeps r s' s'' \<Longrightarrow> keeps r s s''"
  unfolding keeps_def by (auto 0 4)

lemma length_idx [simp]: "length (idx v) = 4"
  by (simp add: idx_def)

lemma path_idx: "path 4 (idx v)"
proof -
  have "x AND 0x1FF < 512" for x :: u64
  proof -
    have "x AND 0x1FF = take_bit 9 x" by (simp add: take_bit_eq_mask mask_eq_exp_minus_1)
    then have "unat (x AND 0x1FF) = unat x mod 512" by (simp add: take_bit_eq_mod unat_mod_distrib)
    then show ?thesis by (simp add: word_less_nat_alt)
  qed
  then show ?thesis by (simp add: idx_def PML4_INDEX_def PDPT_INDEX_def PD_INDEX_def PT_INDEX_def)
qed

lemma idx_align [simp]:
  "PML4_INDEX (PAGE_ALIGN_DOWN v) = PML4_INDEX v" "PDPT_INDEX (PAGE_ALIGN_DOWN v) = PDPT_INDEX v"
  "PD_INDEX (PAGE_ALIGN_DOWN v) = PD_INDEX v" "PT_INDEX (PAGE_ALIGN_DOWN v) = PT_INDEX v"
proof -
  have "drop_bit n (PAGE_ALIGN_DOWN v) = drop_bit n v" if "12 \<le> n" for n
  proof -
    have "PAGE_ALIGN_DOWN v = v AND NOT (mask 12)" by (simp add: PAGE_ALIGN_DOWN_def c_defs mask_eq_exp_minus_1)
    then show ?thesis using that by (intro bit_word_eqI) (auto simp: bit_simps dest: bit_imp_le_length)
  qed
  then show "PML4_INDEX (PAGE_ALIGN_DOWN v) = PML4_INDEX v" "PDPT_INDEX (PAGE_ALIGN_DOWN v) = PDPT_INDEX v"
    "PD_INDEX (PAGE_ALIGN_DOWN v) = PD_INDEX v" "PT_INDEX (PAGE_ALIGN_DOWN v) = PT_INDEX v"
    by (simp_all add: PML4_INDEX_def PDPT_INDEX_def PD_INDEX_def PT_INDEX_def)
qed

text \<open>The frame number of an entry.\<close>

lemma frame_mask:
  assumes "unat x mod 4096 = 0" and "unat x < 4503599627370496"
  shows "x AND PAGE_FRAME_MASK = x"
proof -
  have mask: "PAGE_FRAME_MASK = NOT (mask 12) AND mask 52"
    by (simp add: PAGE_FRAME_MASK_def mask_eq_exp_minus_1)
  have "unat (x AND NOT (mask 12)) = unat x"
    unfolding unat_and_not_mask using assms(1) by (auto simp: mod_eq_0_iff_dvd)
  then have "x AND NOT (mask 12) = x" by (simp only: word_unat_eq_iff)
  moreover have "unat (x AND mask 52) = unat x"
    using assms(2) by (simp only: take_bit_eq_mask [symmetric] take_bit_eq_mod) (simp add: unat_mod_distrib)
  then have "x AND mask 52 = x" by (simp only: word_unat_eq_iff)
  ultimately show ?thesis unfolding mask by (metis and.assoc)
qed

lemma owned_frame:
  assumes "frames_ok s" and "t \<in> owned_frames (vmm_pmm s)"
  shows "table_at t" and "t \<noteq> 0" and "unat (t - hhdm_offset s) mod 4096 = 0"
    and "unat (t - hhdm_offset s) < 4294967296"
proof -
  from assms obtain n where n: "t = block_addr (vmm_pmm s) n" "n < unat (pmm_total_blocks (vmm_pmm s))"
    by (auto simp: owned_frames_def)
  have ok: "pmm_inv (vmm_pmm s)" "hhdm_ok (vmm_pmm s)" "pmm_hhdm_offset (vmm_pmm s) = hhdm_offset s"
    "unat (hhdm_offset s) mod 4096 = 0"
    using assms(1) unfolding frames_ok_def by blast+
  have lt: "n < 1048576" using n(2) ok(1) by (simp add: pmm_inv_def)
  have off: "unat (PMM_BLOCK_TO_ADDR (of_nat n)) = n * 4096" by (rule unat_block_offset [OF lt])
  have t: "unat t = n * 4096 + unat (hhdm_offset s)"
    unfolding n(1) block_addr_def ok(3) using off ok(2,3) lt by (subst unat_add_u64) (simp_all add: hhdm_ok_def)
  show "table_at t" using t ok(4) by (simp add: table_at_def mod_add_eq [symmetric])
  show "t \<noteq> 0" using block_addr_nonzero [OF ok(2) lt] n(1) by simp
  have "t - hhdm_offset s = PMM_BLOCK_TO_ADDR (of_nat n)" by (simp add: n(1) block_addr_def ok(3))
  then show "unat (t - hhdm_offset s) mod 4096 = 0" "unat (t - hhdm_offset s) < 4294967296"
    using off lt by simp_all
qed

lemma entry_frame:
  assumes "frames_ok s" and "t \<in> owned_frames (vmm_pmm s)" and "f AND PAGE_FRAME_MASK = 0"
  shows "(((t - hhdm_offset s) OR f) AND PAGE_FRAME_MASK) + hhdm_offset s = t"
proof -
  note o = owned_frame [OF assms(1,2)]
  have "(t - hhdm_offset s) AND PAGE_FRAME_MASK = t - hhdm_offset s"
    using o(3,4) by (intro frame_mask) simp_all
  then show ?thesis using assms(3) by (simp add: bit.conj_disj_distrib2)
qed

section \<open>Getting or creating a table\<close>

lemma user_flag_sim: "is_table e \<Longrightarrow> is_table (e OR PAGE_USER) \<and> esim (e OR PAGE_USER) e"
  by (simp add: is_table_def esim_def bit.conj_disj_distrib2 c_defs)

lemma space_okD:
  assumes "space_ok r s" and "path 3 p" and "descend (hhdm_offset s) (vmm_mem s) r p = Some t"
  shows "table_at t" and "t \<in> owned_frames (vmm_pmm s)" and "t \<noteq> 0" and "t \<in> tables r s"
  using assms tables_okD [of "hhdm_offset s" "vmm_mem s" r "owned_frames (vmm_pmm s)" p t] owned_frame(2) [of s t]
  by (auto simp: space_ok_def tables_def tables_of_def)

lemma tables_same:
  assumes "\<And>q. path 3 q \<Longrightarrow> descend h m' r q = descend h m r q"
  shows "tables_of h m' r = tables_of h m r" and "tables_ok h m' r frames = tables_ok h m r frames"
  using assms by (simp_all add: tables_of_def tables_ok_def cong: conj_cong)

text \<open>An existing table: at most its flags change.\<close>

lemma get_existing_table:
  assumes "space_ok r s" and "path 2 p" and "descend (hhdm_offset s) (vmm_mem s) r p = Some t" and "i < 512"
    and "is_table (pte (vmm_mem s) t i)"
  obtains t' s' where "get_or_create_table t i flags s = (t', s')" and "t' \<noteq> 0" and "space_ok r s'"
    and "descend (hhdm_offset s') (vmm_mem s') r (p @ [i]) = Some t'" and "keeps r s s'" and "hw_ops s' = hw_ops s"
    and "\<And>q. path 4 q \<Longrightarrow> length q = 4 \<Longrightarrow> walk (hhdm_offset s') (vmm_mem s') r q = walk (hhdm_offset s) (vmm_mem s) r q"
proof -
  let ?h = "hhdm_offset s" and ?m = "vmm_mem s" and ?e = "pte (vmm_mem s) t i"
  let ?t = "(?e AND PAGE_FRAME_MASK) + ?h"
  have p3: "path 3 p" "path 3 (p @ [i])" using assms(2,4) by (auto simp: path_def)
  note t = space_okD [OF assms(1) p3(1) assms(3)]
  have d: "descend ?h ?m r (p @ [i]) = Some ?t" using assms(3,5) by (simp add: descend_append)
  note t' = space_okD [OF assms(1) p3(2) d]
  define s' where "s' = (if flags AND PAGE_USER \<noteq> 0 then set_pte t i (?e OR PAGE_USER) s else s)"
  have f: "hhdm_offset s' = ?h" "kernel_directory s' = kernel_directory s" "current_directory s' = current_directory s"
    "vmm_pmm s' = vmm_pmm s" "hw_ops s' = hw_ops s" by (simp_all add: s'_def)
  have e: "pte (vmm_mem s') u j = pte ?m u j \<or> (u = t \<and> j = i \<and> pte (vmm_mem s') u j = ?e OR PAGE_USER)"
    if "table_at u" "j < 512" for u j
    using pte_store [OF t(1) assms(4) that] by (auto simp: s'_def)
  have sim: "pte (vmm_mem s') u j = pte ?m u j \<or> length p' < 3 \<and> is_table (pte ?m u j) \<and> esim (pte (vmm_mem s') u j) (pte ?m u j)"
    if "path 3 p'" "descend ?h ?m r p' = Some u" "j < 512" for p' u j
  proof -
    have "length p' < 3" if "u = t"
      using tables_okD(3) [of ?h ?m r _ p t p'] assms(1,2,3) p3(1) \<open>path 3 p'\<close> \<open>descend ?h ?m r p' = Some u\<close> that
      by (auto simp: space_ok_def path_def)
    then show ?thesis using e [OF space_okD(1) [OF assms(1) that(1,2)] that(3)] user_flag_sim [OF assms(5)] assms(5) by auto
  qed
  have same: "descend ?h (vmm_mem s') r q = descend ?h ?m r q" if "path 3 q" for q
    by (rule same_tables(1)) (use sim that in blast)+
  have walk: "walk ?h (vmm_mem s') r q = walk ?h ?m r q" if "path 4 q" "length q = 4" for q
    by (rule same_tables(2)) (use sim that in blast)+
  have tree: "tables_ok ?h (vmm_mem s') r frames = tables_ok ?h ?m r frames" "tables_of ?h (vmm_mem s') r = tables_of ?h ?m r"
    for frames by (rule tables_same, erule same)+
  have ok: "space_ok r s'"
    using assms(1) unfolding space_ok_def frames_ok_def f tree .
  have "pte (vmm_mem s') t i AND PAGE_FRAME_MASK = ?e AND PAGE_FRAME_MASK"
    using e [OF t(1) assms(4)] user_flag_sim [OF assms(5)] by (auto simp: esim_def)
  then have g: "get_or_create_table t i flags s = (?t, s')"
    using assms(5) by (simp add: get_or_create_table_def is_table_def s'_def phys_to_virt_def Let_def)
  have "vmm_mem s' x = ?m x" if "page_of x \<notin> tables r s" for x
    using store_entry_other [OF t(1) assms(4), of x] t(4) that by (auto simp: s'_def)
  then have "keeps r s s'"
    by (simp add: keeps_def f tables_def tree)
  moreover have "descend ?h (vmm_mem s') r (p @ [i]) = Some ?t" using same [OF p3(2)] d by simp
  ultimately show thesis using that [OF g t'(3) ok] f walk by simp
qed

lemma pmm_alloc_hhdm: "pmm_inv s \<Longrightarrow> pmm_hhdm_offset (snd (pmm_alloc_block s)) = pmm_hhdm_offset s"
  by (erule pmm_alloc_block_cases) simp_all

text \<open>A new table comes from a free frame and is empty; no memory in use changes.\<close>

lemma alloc_table_cases:
  assumes "frames_ok s"
  obtains (none) "alloc_table s = (0, s)" "fst (pmm_alloc_block (vmm_pmm s)) = 0"
  | (new) n s' where "alloc_table s = (n, s')" "n \<noteq> 0" "frames_ok s'" "table_at n"
      "n \<notin> owned_frames (vmm_pmm s)" "owned_frames (vmm_pmm s') = insert n (owned_frames (vmm_pmm s))"
      "hhdm_offset s' = hhdm_offset s" "kernel_directory s' = kernel_directory s"
      "current_directory s' = current_directory s" "hw_ops s' = hw_ops s"
      "\<And>i. i < 512 \<Longrightarrow> pte (vmm_mem s') n i = 0" "\<And>x. page_of x \<noteq> n \<Longrightarrow> vmm_mem s' x = vmm_mem s x"
      "\<And>t i. table_at t \<Longrightarrow> t \<noteq> n \<Longrightarrow> i < 512 \<Longrightarrow> pte (vmm_mem s') t i = pte (vmm_mem s) t i"
proof -
  obtain n pm where a: "pmm_alloc_block (vmm_pmm s) = (n, pm)" by fastforce
  have inv: "pmm_inv (vmm_pmm s)" "hhdm_ok (vmm_pmm s)" using assms by (simp_all add: frames_ok_def)
  then have I: "pmm_inv (vmm_pmm s) \<and> hhdm_ok (vmm_pmm s)" by simp
  show thesis
  proof (cases "n = 0")
    case True
    then have "pm = vmm_pmm s" using frames.alloc_null [OF I] a by simp
    then show ?thesis using True a by (intro none) (simp_all add: alloc_table_def pmm_alloc_def)
  next
    case False
    let ?s = "s\<lparr>vmm_pmm := pm\<rparr>" and ?z = "\<lambda>s. for_upto 512 (\<lambda>i. set_pte n (of_nat i) 0) s"
    have own: "n \<notin> owned_frames (vmm_pmm s)" "owned_frames pm = insert n (owned_frames (vmm_pmm s))"
      using frames.alloc_fresh [OF I] a False by simp_all
    have "pmm_hhdm_offset pm = pmm_hhdm_offset (vmm_pmm s)" using pmm_alloc_hhdm [OF inv(1)] a by simp
    then have ok: "frames_ok ?s" "frames_ok (?z ?s)"
      using assms frames.alloc_inv [OF I] a by (simp_all add: frames_ok_def zero_table_fields)
    have tn: "table_at n" using owned_frame(1) [OF ok(1)] own(2) by simp
    have "alloc_table s = (n, ?z ?s)" using a False by (simp add: alloc_table_def pmm_alloc_def)
    then show ?thesis
    proof (rule new [OF _ False ok(2) tn own(1)])
      show "pte (vmm_mem (?z ?s)) n i = 0" if "i < 512" for i
        using zero_table_pte [OF tn tn that, of 512 ?s] that by (simp add: word_less_nat_alt)
      show "vmm_mem (?z ?s) x = vmm_mem s x" if "page_of x \<noteq> n" for x
        using zero_table_other [OF tn that, of 512 ?s] by simp
      show "pte (vmm_mem (?z ?s)) t i = pte (vmm_mem s) t i" if "table_at t" "t \<noteq> n" "i < 512" for t i
        using zero_table_pte [OF tn that(1,3), of 512 ?s] that(2) by simp
    qed (use own(2) in \<open>simp_all only: zero_table_fields, simp_all\<close>)
  qed
qed

text \<open>An entry that refers to a fresh, empty table: the tree grows by that table, the walks stay.\<close>

lemma grow_tree:
  assumes ok: "tables_ok h m r frames" and p: "path 2 p" "descend h m r p = Some t" "i < 512"
    and absent: "pte m t i AND PAGE_PRESENT = 0"
    and n: "table_at n" "n \<notin> frames" and e: "is_table e" "(e AND PAGE_FRAME_MASK) + h = n"
    and m1: "\<And>u j. table_at u \<Longrightarrow> u \<noteq> n \<Longrightarrow> j < 512 \<Longrightarrow> pte m1 u j = pte m u j" "\<And>j. j < 512 \<Longrightarrow> pte m1 n j = 0"
  defines "m2 \<equiv> store_u64 m1 (t + 8 * i) e"
  shows "tables_ok h m2 r (insert n frames)" and "descend h m2 r (p @ [i]) = Some n"
    and "tables_of h m2 r = insert n (tables_of h m r)"
    and "path 4 q \<Longrightarrow> length q = 4 \<Longrightarrow> walk h m2 r q = walk h m r q"
proof -
  have p3: "path 3 p" "path 3 (p @ [i])" using p(1,3) by (auto simp: path_def)
  note t = tables_okD [OF ok p3(1) p(2)]
  have tn: "t \<noteq> n" using t(2) n(2) by blast
  have old: "pte m1 u j = pte m u j" if "path 3 p'" "descend h m r p' = Some u" "j < 512" for p' u j
    using m1(1) [of u j] tables_okD [OF ok that(1,2)] n(2) that(3) by blast
  have d1: "descend h m1 r q = descend h m r q" if "path 3 q" for q
    by (rule same_tables(1)) (use old that in blast)+
  have w1: "walk h m1 r q = walk h m r q" if "path 4 q" "length q = 4" for q
    by (rule same_tables(2)) (use old that in blast)+
  have ok1: "tables_ok h m1 r frames" using ok tables_same(2) [of h m1 r m frames] d1 by blast
  have pt1: "descend h m1 r p = Some t" using d1 [OF p3(1)] p(2) by simp
  note w = write_entry [OF ok1 p3(1) pt1 p(3), where v = e, folded m2_def]
  have zero: "pte m2 n j = 0" if "j < 512" for j
    using pte_store [OF t(1) p(3) n(1) that, of m1 e] m1(2) [OF that] tn by (simp add: m2_def)
  have through: "descend h m2 r (p @ i # q) = (if q = [] then Some n else None)" if "path 3 (p @ i # q)" for q
    using w(3) [of q] e zero that by (cases q) (auto simp: is_table_def path_append)
  have pre: "prefix (p @ [i]) q \<Longrightarrow> \<exists>q'. q = p @ i # q'" for q by (auto simp: prefix_def)
  have none: "descend h m r (p @ i # q) = None" for q using p(2) absent by (simp add: descend_append is_table_def)
  have d2: "descend h m2 r q = (if q = p @ [i] then Some n else descend h m r q)" if "path 3 q" for q
  proof (cases "prefix (p @ [i]) q")
    case True
    then obtain q' where "q = p @ i # q'" using pre by blast
    then show ?thesis using through [of q'] none [of q'] that by auto
  next
    case False
    then show ?thesis using w(1) [OF that False] d1 [OF that] by auto
  qed
  show "descend h m2 r (p @ [i]) = Some n" using d2 [OF p3(2)] by simp
  show "tables_of h m2 r = insert n (tables_of h m r)"
  proof (rule set_eqI)
    fix u
    have "(\<exists>q. path 3 q \<and> descend h m2 r q = Some u) \<longleftrightarrow> u = n \<or> (\<exists>q. path 3 q \<and> descend h m r q = Some u)"
      using d2 p3(2) none [of "[]"] by (metis option.inject option.simps(3))
    then show "u \<in> tables_of h m2 r \<longleftrightarrow> u \<in> insert n (tables_of h m r)" by (simp add: tables_of_def)
  qed
  show "tables_ok h m2 r (insert n frames)"
    unfolding tables_ok_def
  proof (intro conjI allI impI)
    fix q u assume a: "path 3 q \<and> descend h m2 r q = Some u"
    then show "table_at u" "u \<in> insert n frames"
      using d2 n(1) tables_okD(1,2) [OF ok, of q u] by (auto split: if_splits)
  next
    fix q q' u
    assume a: "path 3 q \<and> path 3 q' \<and> descend h m2 r q = Some u \<and> descend h m2 r q' = Some u"
    have new: "x = p @ [i] \<longleftrightarrow> u = n" if "path 3 x" "descend h m2 r x = Some u" for x
      using d2 [OF that(1)] that tables_okD(2) [OF ok that(1)] n(2) by (metis option.inject)
    show "q = q'"
    proof (cases "u = n")
      case True
      then show ?thesis using a new by blast
    next
      case False
      then have "descend h m r q = Some u" "descend h m r q' = Some u" using a new d2 by metis+
      then show ?thesis using a tables_okD(3) [OF ok] by blast
    qed
  qed
  show "walk h m2 r q = walk h m r q" if "path 4 q" "length q = 4"
  proof (cases "prefix (p @ [i]) q")
    case True
    then obtain q' where q: "q = p @ i # q'" using pre by blast
    then have "q' \<noteq> []" using that(2) p(1) by (auto simp: path_def)
    then have "walk h m2 n q' = None" using zero that(1) q by (cases q') (auto simp: path_append)
    moreover have "walk h m r q = None" using walk_append [OF p(2), of "i # q'"] absent q by simp
    moreover have "walk h m2 r q = walk h m2 n q'"
      using w(4) [of q'] q e \<open>q' \<noteq> []\<close> by (simp add: is_table_def)
    ultimately show ?thesis by simp
  next
    case False
    then show ?thesis using w(2) [OF that False] w1 [OF that] by simp
  qed
qed

lemma create_table:
  assumes "space_ok r s" and "path 2 p" and "descend (hhdm_offset s) (vmm_mem s) r p = Some t" and "i < 512"
    and "pte (vmm_mem s) t i AND PAGE_PRESENT = 0"
  obtains (none) "get_or_create_table t i flags s = (0, s)" "fst (pmm_alloc_block (vmm_pmm s)) = 0"
  | (new) t' s' where "get_or_create_table t i flags s = (t', s')" and "t' \<noteq> 0" and "space_ok r s'"
    and "descend (hhdm_offset s') (vmm_mem s') r (p @ [i]) = Some t'" and "keeps r s s'" and "hw_ops s' = hw_ops s"
    and "\<And>q. path 4 q \<Longrightarrow> length q = 4 \<Longrightarrow> walk (hhdm_offset s') (vmm_mem s') r q = walk (hhdm_offset s) (vmm_mem s) r q"
proof -
  have ok: "frames_ok s" "tables_ok (hhdm_offset s) (vmm_mem s) r (owned_frames (vmm_pmm s))"
    using assms(1) by (simp_all add: space_ok_def)
  have p3: "path 3 p" using assms(2) by (rule path_mono) simp
  note t = space_okD [OF assms(1) p3 assms(3)]
  from ok(1) show thesis
  proof (cases rule: alloc_table_cases)
    case none
    then show ?thesis using assms(5) by (intro that(1)) (simp_all add: get_or_create_table_def)
  next
    case (new n s1)
    let ?e = "(n - hhdm_offset s) OR (PAGE_PRESENT OR PAGE_RW OR (flags AND PAGE_USER))"
    let ?s = "set_pte t i ?e s1"
    have n: "n \<in> owned_frames (vmm_pmm s1)" using new(6) by simp
    have f: "(PAGE_PRESENT OR PAGE_RW OR (flags AND PAGE_USER)) AND PAGE_FRAME_MASK = 0"
      "(PAGE_PRESENT OR PAGE_RW OR (flags AND PAGE_USER)) AND PAGE_HUGE = 0"
      by (simp_all add: c_defs bit.conj_disj_distrib2 and.assoc)
    have e: "(?e AND PAGE_FRAME_MASK) + hhdm_offset s = n"
      using entry_frame [OF new(3) n f(1)] new(7) by simp
    note o = owned_frame [OF new(3) n, unfolded new(7)]
    have "(n - hhdm_offset s) AND PAGE_FRAME_MASK = n - hhdm_offset s" using o(3,4) by (intro frame_mask) simp_all
    then have "(n - hhdm_offset s) AND PAGE_HUGE = (n - hhdm_offset s) AND (PAGE_FRAME_MASK AND PAGE_HUGE)"
      by (metis and.assoc)
    then have "(n - hhdm_offset s) AND PAGE_HUGE = 0" by (simp add: c_defs)
    then have tbl: "is_table ?e" using f by (auto simp: is_table_def bit.conj_disj_distrib2 c_defs)
    note g = grow_tree [OF ok(2) assms(2-5) new(4,5) tbl e new(13,11)]
    have get: "get_or_create_table t i flags s = (n, ?s)"
      using assms(5) new(1,2,7) by (simp add: get_or_create_table_def virt_to_phys_def or.assoc)
    have sp: "space_ok r ?s" using g(1) new(3,6,7) by (simp add: space_ok_def frames_ok_def)
    have mem: "vmm_mem ?s x = vmm_mem s x" if "page_of x \<notin> tables r ?s" for x
    proof -
      have "page_of x \<noteq> n" "page_of x \<noteq> t" using that g(3) t(4) new(7) by (auto simp: tables_def)
      then show ?thesis using store_entry_other [OF t(1) assms(4)] new(12) by simp
    qed
    have "keeps r s ?s"
      using mem g(3) new(5-9) by (auto simp: keeps_def tables_def)
    then show ?thesis using that(2) [OF get new(2) sp] g(2,4) new(7,10) by simp
  qed
qed

section \<open>Mapping and unmapping\<close>

text \<open>The address is not inside a huge page.\<close>

definition small :: "u64 \<Rightarrow> vmm_state \<Rightarrow> u64 \<Rightarrow> bool" where
  "small r s v \<longleftrightarrow> (\<forall>n e. translate r s v = Some (n, e) \<longrightarrow> n = 0)"

lemma small_entry:
  assumes "small r s v" and "idx v = p @ i # q" and "q \<noteq> []"
    and "descend (hhdm_offset s) (vmm_mem s) r p = Some t" and "pte (vmm_mem s) t i AND PAGE_PRESENT \<noteq> 0"
  shows "is_table (pte (vmm_mem s) t i)"
  using assms walk_append [OF assms(4), of "i # q"]
  by (auto simp: small_def translate_def is_table_def Let_def split: if_splits)

lemma get_or_create_cases:
  assumes "space_ok r s" and "small r s v" and "idx v = p @ i # q" and "q \<noteq> []"
    and "descend (hhdm_offset s) (vmm_mem s) r p = Some t"
  obtains (none) "get_or_create_table t i flags s = (0, s)" "fst (pmm_alloc_block (vmm_pmm s)) = 0"
  | (table) t' s' where "get_or_create_table t i flags s = (t', s')" and "t' \<noteq> 0" and "space_ok r s'"
    and "descend (hhdm_offset s') (vmm_mem s') r (p @ [i]) = Some t'" and "keeps r s s'" and "hw_ops s' = hw_ops s"
    and "\<And>v. translate r s' v = translate r s v" and "small r s' v"
proof -
  have "length (idx v) = 4" by (simp add: idx_def)
  then have "path 4 (p @ i # q)" "length (p @ i # q) = 4" using path_idx [of v] assms(3) by simp_all
  moreover have "length q \<noteq> 0" using assms(4) by simp
  ultimately have "length p \<le> 2" "path 4 (p @ i # q)" unfolding length_append length_Cons by linarith+
  then have p: "path 2 p" "i < 512" by (auto simp: path_def)
  have w: "translate r s' = translate r s"
    if "\<And>q. path 4 q \<Longrightarrow> length q = 4 \<Longrightarrow> walk (hhdm_offset s') (vmm_mem s') r q = walk (hhdm_offset s) (vmm_mem s) r q" for s'
    using that path_idx by (simp add: fun_eq_iff translate_def)
  show thesis
  proof (cases "pte (vmm_mem s) t i AND PAGE_PRESENT = 0")
    case True
    show ?thesis
    proof (rule create_table [OF assms(1) p(1) assms(5) p(2) True, of flags])
      assume "get_or_create_table t i flags s = (0, s)" "fst (pmm_alloc_block (vmm_pmm s)) = 0"
      then show ?thesis by (rule none)
    next
      fix t' s'
      assume a: "get_or_create_table t i flags s = (t', s')" "t' \<noteq> 0" "space_ok r s'"
        "descend (hhdm_offset s') (vmm_mem s') r (p @ [i]) = Some t'" "keeps r s s'" "hw_ops s' = hw_ops s"
        "\<And>q. path 4 q \<Longrightarrow> length q = 4 \<Longrightarrow> walk (hhdm_offset s') (vmm_mem s') r q = walk (hhdm_offset s) (vmm_mem s) r q"
      then show ?thesis using w [OF a(7)] assms(2) by (intro table [OF a(1-6)]) (simp_all add: small_def)
    qed
  next
    case False
    have "is_table (pte (vmm_mem s) t i)" by (rule small_entry [OF assms(2-5) False])
    then show ?thesis
    proof (rule get_existing_table [OF assms(1) p(1) assms(5) p(2), of flags])
      fix t' s'
      assume a: "get_or_create_table t i flags s = (t', s')" "t' \<noteq> 0" "space_ok r s'"
        "descend (hhdm_offset s') (vmm_mem s') r (p @ [i]) = Some t'" "keeps r s s'" "hw_ops s' = hw_ops s"
        "\<And>q. path 4 q \<Longrightarrow> length q = 4 \<Longrightarrow> walk (hhdm_offset s') (vmm_mem s') r q = walk (hhdm_offset s) (vmm_mem s) r q"
      then show ?thesis using w [OF a(7)] assms(2) by (intro table [OF a(1-6)]) (simp_all add: small_def)
    qed
  qed
qed

text \<open>Writing an entry of the last level changes the meaning of one page, and no tables.\<close>

lemma set_leaf:
  fixes e :: u64
  assumes "space_ok r s" and "descend (hhdm_offset s) (vmm_mem s) r [PML4_INDEX v, PDPT_INDEX v, PD_INDEX v] = Some t"
  defines "s' \<equiv> invlpg (PAGE_ALIGN_DOWN v) (set_pte t (PT_INDEX v) e s)"
  shows "space_ok r s'" and "keeps r s s'" and "hw_ops s' = hw_ops s @ [Invlpg (PAGE_ALIGN_DOWN v)]"
    and "translate r s' x = (if idx x = idx v then if e AND PAGE_PRESENT = 0 then None else Some (0, e) else translate r s x)"
proof -
  let ?h = "hhdm_offset s" and ?m = "vmm_mem s" and ?p = "[PML4_INDEX v, PDPT_INDEX v, PD_INDEX v]"
  let ?m' = "store_u64 ?m (t + 8 * PT_INDEX v) e"
  have v: "path 4 (?p @ [PT_INDEX v])" using path_idx [of v] by (simp add: idx_def)
  then have p: "path 3 ?p" "PT_INDEX v < 512" by simp_all
  note t = space_okD [OF assms(1) p(1) assms(2)]
  have ok: "tables_ok ?h ?m r (owned_frames (vmm_pmm s))" using assms(1) by (simp add: space_ok_def)
  note w = write_entry [OF ok p(1) assms(2) p(2), where v = e]
  have d: "descend ?h ?m' r q = descend ?h ?m r q" if "path 3 q" for q
  proof (rule w(1) [OF that])
    show "\<not> prefix (?p @ [PT_INDEX v]) q" using that prefix_length_le [of "?p @ [PT_INDEX v]" q] by (auto simp: path_def)
  qed
  have f: "hhdm_offset s' = ?h" "kernel_directory s' = kernel_directory s" "current_directory s' = current_directory s"
    "vmm_pmm s' = vmm_pmm s" "vmm_mem s' = ?m'" by (simp_all add: s'_def invlpg_def)
  have tree: "tables_ok ?h ?m' r frames = tables_ok ?h ?m r frames" "tables_of ?h ?m' r = tables_of ?h ?m r"
    for frames by (rule tables_same, erule d)+
  show "space_ok r s'" using assms(1) unfolding space_ok_def frames_ok_def f tree .
  have "?m' x = ?m x" if "page_of x \<notin> tables r s" for x
    using store_entry_other [OF t(1) p(2), of x] t(4) that by auto
  then show "keeps r s s'" by (simp add: keeps_def f tables_def tree)
  show "hw_ops s' = hw_ops s @ [Invlpg (PAGE_ALIGN_DOWN v)]" by (simp add: s'_def invlpg_def)
  show "translate r s' x = (if idx x = idx v then if e AND PAGE_PRESENT = 0 then None else Some (0, e) else translate r s x)"
  proof (cases "idx x = idx v")
    case True
    then show ?thesis using w(4) [of "[]"] unfolding translate_def f by (simp add: idx_def)
  next
    case False
    then have "\<not> prefix (?p @ [PT_INDEX v]) (idx x)" by (auto simp: idx_def)
    then show ?thesis using False w(2) [OF path_idx [of x]] unfolding translate_def f by simp
  qed
qed

definition pte_for :: "u64 \<Rightarrow> u64 \<Rightarrow> u64" where
  "pte_for phys flags = PAGE_ALIGN_DOWN phys OR (flags AND (0xFFF OR PAGE_NX)) OR PAGE_PRESENT"

lemma pte_for_present: "pte_for phys flags AND PAGE_PRESENT \<noteq> 0"
  by (simp add: pte_for_def c_defs bit.conj_disj_distrib2)

lemma map_page_at_cases:
  assumes "space_ok r s" and "small r s virt"
  obtains (full) s' where "map_page_at r phys virt flags s = s'" "space_ok r s'" "keeps r s s'" "hw_ops s' = hw_ops s"
      "\<And>v. translate r s' v = translate r s v" "fst (pmm_alloc_block (vmm_pmm s')) = 0"
  | (mapped) s' where "map_page_at r phys virt flags s = s'" "space_ok r s'" "keeps r s s'"
      "hw_ops s' = hw_ops s @ [Invlpg (PAGE_ALIGN_DOWN virt)]"
      "\<And>v. translate r s' v = (if idx v = idx virt then Some (0, pte_for phys flags) else translate r s v)"
proof -
  let ?a = "PML4_INDEX virt" and ?b = "PDPT_INDEX virt" and ?c = "PD_INDEX virt" and ?d = "PT_INDEX virt"
  have i: "idx virt = [] @ ?a # [?b, ?c, ?d]" "idx virt = [?a] @ ?b # [?c, ?d]" "idx virt = [?a, ?b] @ ?c # [?d]"
    by (simp_all add: idx_def)
  have root: "descend (hhdm_offset s) (vmm_mem s) r [] = Some r" by simp
  note def = map_page_at_def idx_align Let_def
  from assms(1,2) i(1) list.distinct(2) root show thesis
  proof (cases rule: get_or_create_cases [where flags = flags])
    case none
    then show ?thesis using assms keeps_refl by (intro full [of s]) (simp_all add: def)
  next
    case one: (table t1 s1)
    then have d1: "descend (hhdm_offset s1) (vmm_mem s1) r [?a] = Some t1" by simp
    from one(3,8) i(2) list.distinct(2) d1 show thesis
    proof (cases rule: get_or_create_cases [where flags = flags])
      case none
      then show ?thesis using one by (intro full [of s1]) (simp_all add: def)
    next
      case two: (table t2 s2)
      then have d2: "descend (hhdm_offset s2) (vmm_mem s2) r [?a, ?b] = Some t2" by simp
      from two(3,8) i(3) list.distinct(2) d2 show thesis
      proof (cases rule: get_or_create_cases [where flags = flags])
        case none
        then show ?thesis
          using one two keeps_trans [OF one(5) two(5)] by (intro full [of s2]) (simp_all add: def)
      next
        case three: (table t3 s3)
        then have d3: "descend (hhdm_offset s3) (vmm_mem s3) r [?a, ?b, ?c] = Some t3" by simp
        note l = set_leaf [OF three(3) d3, of "pte_for phys flags"]
        have k: "keeps r s s3" using keeps_trans [OF keeps_trans [OF one(5) two(5)] three(5)] .
        show ?thesis
        proof (rule mapped [OF _ l(1) keeps_trans [OF k l(2)]])
          show "map_page_at r phys virt flags s = invlpg (PAGE_ALIGN_DOWN virt) (set_pte t3 ?d (pte_for phys flags) s3)"
            using one(1,2) two(1,2) three(1,2) by (simp add: def pte_for_def)
        qed (use l(3,4) one(6,7) two(6,7) three(6,7) pte_for_present in simp_all)
      qed
    qed
  qed
qed

section \<open>Looking up an address\<close>

text \<open>The tables on the way to an entry of the last level.\<close>

lemma walk_leafD:
  assumes "space_ok r s" and "translate r s v = Some (0, e)"
  obtains t1 t2 t3 where "get_table r (PML4_INDEX v) s = t1" "t1 \<noteq> 0" "get_table t1 (PDPT_INDEX v) s = t2" "t2 \<noteq> 0"
    "pte (vmm_mem s) t2 (PD_INDEX v) AND PAGE_HUGE = 0" "get_table t2 (PD_INDEX v) s = t3" "t3 \<noteq> 0"
    "pte (vmm_mem s) t3 (PT_INDEX v) = e" "e AND PAGE_PRESENT \<noteq> 0"
    "descend (hhdm_offset s) (vmm_mem s) r [PML4_INDEX v, PDPT_INDEX v, PD_INDEX v] = Some t3"
proof -
  let ?m = "vmm_mem s" and ?h = "hhdm_offset s" and ?nx = "\<lambda>t i. (pte (vmm_mem s) t i AND PAGE_FRAME_MASK) + hhdm_offset s"
  let ?a = "PML4_INDEX v" and ?b = "PDPT_INDEX v" and ?c = "PD_INDEX v" and ?d = "PT_INDEX v"
  let ?t1 = "?nx r ?a" and ?t2 = "?nx (?nx r ?a) ?b" and ?t3 = "?nx (?nx (?nx r ?a) ?b) ?c"
  have w: "is_table (pte ?m r ?a)" "is_table (pte ?m ?t1 ?b)" "is_table (pte ?m ?t2 ?c)"
    "pte ?m ?t3 ?d = e" "e AND PAGE_PRESENT \<noteq> 0"
    using assms(2) by (auto simp: translate_def idx_def is_table_def Let_def split: if_splits)
  then have d: "descend ?h ?m r [?a] = Some ?t1" "descend ?h ?m r [?a, ?b] = Some ?t2" "descend ?h ?m r [?a, ?b, ?c] = Some ?t3"
    by simp_all
  have "path 3 [?a]" "path 3 [?a, ?b]" "path 3 [?a, ?b, ?c]" using path_idx [of v] by (simp_all add: idx_def)
  then have "?t1 \<noteq> 0" "?t2 \<noteq> 0" "?t3 \<noteq> 0" using d space_okD(3) [OF assms(1)] by blast+
  then show thesis
    using w d(3) by (intro that [of ?t1 ?t2 ?t3]) (simp_all add: get_table_def is_table_def phys_to_virt_def)
qed

lemma phys_addr_leaf:
  assumes "space_ok (dir_pml4 d s) s" and "translate (dir_pml4 d s) s v = Some (0, e)"
  shows "vmm_get_phys_addr (Some d) v s = e AND PAGE_FRAME_MASK"
    and "current_directory s = Some d \<Longrightarrow> vmm_get_physical v s = Some (e AND PAGE_FRAME_MASK)"
proof -
  have off: "PAGE_OFFSET (PAGE_ALIGN_DOWN v) = 0"
  proof -
    have "PAGE_OFFSET (PAGE_ALIGN_DOWN v) = v AND ((- 4096) AND 0xFFF)"
      by (simp only: PAGE_OFFSET_def PAGE_ALIGN_DOWN_def c_defs and.assoc) simp
    then show ?thesis by simp
  qed
  obtain t1 t2 t3 where t: "get_table (dir_pml4 d s) (PML4_INDEX v) s = t1" "t1 \<noteq> 0" "get_table t1 (PDPT_INDEX v) s = t2" "t2 \<noteq> 0"
    "pte (vmm_mem s) t2 (PD_INDEX v) AND PAGE_HUGE = 0" "get_table t2 (PD_INDEX v) s = t3" "t3 \<noteq> 0"
    "pte (vmm_mem s) t3 (PT_INDEX v) = e" "e AND PAGE_PRESENT \<noteq> 0"
    "descend (hhdm_offset s) (vmm_mem s) (dir_pml4 d s) [PML4_INDEX v, PDPT_INDEX v, PD_INDEX v] = Some t3"
    using assms by (rule walk_leafD)
  then show "vmm_get_phys_addr (Some d) v s = e AND PAGE_FRAME_MASK"
    by (simp add: vmm_get_phys_addr_def Let_def)
  show "vmm_get_physical v s = Some (e AND PAGE_FRAME_MASK)" if "current_directory s = Some d"
    using t that off by (simp add: vmm_get_physical_def Let_def)
qed

text \<open>The structure of an address space is in a frame of its own.\<close>

definition dir_ok :: "dir_ptr \<Rightarrow> vmm_state \<Rightarrow> bool" where
  "dir_ok d s \<longleftrightarrow> (\<forall>a. d = Directory_At a \<longrightarrow> a \<in> owned_frames (vmm_pmm s) \<and> a \<notin> tables (dir_pml4 d s) s)"

lemma page_of_frame:
  assumes "table_at a" and "k < 4096"
  shows "page_of (a + of_nat k) = a"
proof -
  obtain n where n: "unat a = 4096 * n" using assms(1) by (auto simp: table_at_def mod_eq_0_iff_dvd elim: dvdE)
  then have "n + 1 \<le> 4503599627370496" using unat_u64_lt [of a] by simp
  then have "unat (a + of_nat k) = unat a + k" using n assms(2) by (subst unat_add_u64) simp_all
  then have "unat (page_of (a + of_nat k)) = unat a" using n assms(2) by (simp add: unat_page_of)
  then show ?thesis by (simp only: word_unat_eq_iff)
qed

lemma load_field_keeps:
  assumes "table_at a" and "k + 8 \<le> 4096" and "\<And>x. page_of x = a \<Longrightarrow> m' x = m x"
  shows "load_u64 m' (a + of_nat k) = load_u64 m (a + of_nat k)"
proof -
  have "m' (a + of_nat k + of_nat i) = m (a + of_nat k + of_nat i)" if "i < 8" for i
    using assms(3) [OF page_of_frame [OF assms(1), of "k + i"]] assms(2) that by (simp add: add.assoc)
  then have "load_bytes m' (a + of_nat k) 8 = load_bytes m (a + of_nat k) 8"
    unfolding load_bytes_def by (intro map_cong refl) auto
  then show ?thesis by (simp only: load_u64_def)
qed

lemma dir_pml4_keeps:
  assumes "frames_ok s" and "dir_ok d s" and "keeps (dir_pml4 d s) s s'"
  shows "dir_pml4 d s' = dir_pml4 d s"
proof (cases d)
  case Kernel_Directory
  then show ?thesis using assms(3) by (simp add: dir_pml4_def keeps_def)
next
  case (Directory_At a)
  have a: "a \<in> owned_frames (vmm_pmm s)" "a \<notin> tables (dir_pml4 d s) s" using assms(2) Directory_At by (auto simp: dir_ok_def)
  have "a \<notin> tables (dir_pml4 d s) s'" using assms(3) a unfolding keeps_def by blast
  then have "vmm_mem s' x = vmm_mem s x" if "page_of x = a" for x using assms(3) that by (simp add: keeps_def)
  from load_field_keeps [OF owned_frame(1) [OF assms(1) a(1)], of 8, OF _ this] show ?thesis
    using Directory_At by (simp add: dir_pml4_def)
qed

text \<open>What an operation on the space with root \<open>r\<close> means for other spaces.\<close>

definition apart :: "u64 \<Rightarrow> u64 \<Rightarrow> vmm_state \<Rightarrow> u64 \<Rightarrow> bool" where
  "apart r r' s v \<longleftrightarrow> (\<forall>p t. prefix p (idx v) \<and> length p \<le> 3 \<and> descend (hhdm_offset s) (vmm_mem s) r' p = Some t \<longrightarrow>
     t \<in> owned_frames (vmm_pmm s) \<and> t \<notin> tables r s)"

lemma keeps_other:
  assumes "frames_ok s" and "keeps r s s'" and "apart r r' s v"
  shows "translate r' s' v = translate r' s v"
proof -
  have h: "hhdm_offset s' = hhdm_offset s" using assms(2) by (simp add: keeps_def)
  have e: "pte (vmm_mem s') t i = pte (vmm_mem s) t i"
    if "path 4 (p @ [i])" "prefix (p @ [i]) (idx v)" "descend (hhdm_offset s) (vmm_mem s) r' p = Some t" for p t i
  proof -
    have p: "length p \<le> 3" "prefix p (idx v)" "i < 512"
      using that(1,2) append_prefixD by (auto simp: path_append path_def)
    then have t: "t \<in> owned_frames (vmm_pmm s)" "t \<notin> tables r s"
      using assms(3) that(3) by (auto simp: apart_def)
    have "t \<notin> tables r s'" using assms(2) t unfolding keeps_def by blast
    then have m: "vmm_mem s' x = vmm_mem s x" if "page_of x = t" for x using assms(2) that by (simp add: keeps_def)
    have "unat i < 512" using p(3) by (simp add: word_less_nat_alt)
    then show ?thesis
      using load_field_keeps [OF owned_frame(1) [OF assms(1) t(1)], of "8 * unat i", OF _ m] by (simp add: pte_def)
  qed
  have "walk (hhdm_offset s) (vmm_mem s') r' (idx v) = walk (hhdm_offset s) (vmm_mem s) r' (idx v)"
    by (rule walk_cong [where pre = "[]" and r = r']) (use e path_idx in auto)
  then show ?thesis by (simp add: translate_def h)
qed

lemma vmm_map_page_in_dir_eq:
  "vmm_map_page_in_dir (Some d) phys virt flags s =
   Some (0, (map_page_at (dir_pml4 d s) phys virt flags (s\<lparr>current_directory := Some d\<rparr>))\<lparr>current_directory := current_directory s\<rparr>)"
  by (simp add: vmm_map_page_in_dir_def vmm_map_page_def dir_pml4_def Let_def split: dir_ptr.split)

lemma current_irrelevant [simp]:
  "space_ok r (s\<lparr>current_directory := c\<rparr>) = space_ok r s" "small r (s\<lparr>current_directory := c\<rparr>) v = small r s v"
  "translate r (s\<lparr>current_directory := c\<rparr>) v = translate r s v" "dir_pml4 d (s\<lparr>current_directory := c\<rparr>) = dir_pml4 d s"
  "tables r (s\<lparr>current_directory := c\<rparr>) = tables r s" "frames_ok (s\<lparr>current_directory := c\<rparr>) = frames_ok s"
  by (simp_all add: space_ok_def frames_ok_def small_def translate_def dir_pml4_def tables_def split: dir_ptr.split)

lemma pte_for_frame: "pte_for phys flags AND PAGE_FRAME_MASK = phys AND PAGE_FRAME_MASK"
proof -
  have "PAGE_ALIGN_DOWN phys AND PAGE_FRAME_MASK = phys AND ((- 4096) AND PAGE_FRAME_MASK)"
    by (simp only: PAGE_ALIGN_DOWN_def c_defs and.assoc) simp
  moreover have "(flags AND (0xFFF OR PAGE_NX)) AND PAGE_FRAME_MASK = flags AND ((0xFFF OR PAGE_NX) AND PAGE_FRAME_MASK)"
    by (rule and.assoc)
  ultimately show ?thesis by (simp add: pte_for_def bit.conj_disj_distrib2 c_defs)
qed

lemma keeps_current: "keeps r (s\<lparr>current_directory := c\<rparr>) s' \<Longrightarrow> keeps r s (s'\<lparr>current_directory := current_directory s\<rparr>)"
  by (simp add: keeps_def)

lemma map_page_in_dir_cases:
  assumes "space_ok (dir_pml4 d s) s" and "dir_ok d s" and "small (dir_pml4 d s) s virt"
  obtains (full) s' where "vmm_map_page_in_dir (Some d) phys virt flags s = Some (0, s')" "space_ok (dir_pml4 d s) s'"
      "keeps (dir_pml4 d s) s s'" "dir_pml4 d s' = dir_pml4 d s" "hw_ops s' = hw_ops s"
      "\<And>v. translate (dir_pml4 d s) s' v = translate (dir_pml4 d s) s v" "fst (pmm_alloc_block (vmm_pmm s')) = 0"
  | (mapped) s' where "vmm_map_page_in_dir (Some d) phys virt flags s = Some (0, s')" "space_ok (dir_pml4 d s) s'"
      "keeps (dir_pml4 d s) s s'" "dir_pml4 d s' = dir_pml4 d s" "hw_ops s' = hw_ops s @ [Invlpg (PAGE_ALIGN_DOWN virt)]"
      "\<And>v. translate (dir_pml4 d s) s' v =
         (if idx v = idx virt then Some (0, pte_for phys flags) else translate (dir_pml4 d s) s v)"
proof -
  let ?r = "dir_pml4 d s" and ?s = "s\<lparr>current_directory := Some d\<rparr>"
  have ok: "space_ok ?r ?s" "small ?r ?s virt" "frames_ok s" using assms(1,3) by (simp_all add: space_ok_def)
  from ok(1,2) show thesis
  proof (cases rule: map_page_at_cases [where phys = phys and flags = flags])
    case (full s1)
    have k: "keeps ?r s (s1\<lparr>current_directory := current_directory s\<rparr>)" using full(3) by (rule keeps_current)
    show ?thesis
      by (rule that(1) [OF _ _ k dir_pml4_keeps [OF ok(3) assms(2) k]]) (use full in \<open>simp_all add: vmm_map_page_in_dir_eq\<close>)
  next
    case (mapped s1)
    have k: "keeps ?r s (s1\<lparr>current_directory := current_directory s\<rparr>)" using mapped(3) by (rule keeps_current)
    show ?thesis
      by (rule that(2) [OF _ _ k dir_pml4_keeps [OF ok(3) assms(2) k]]) (use mapped in \<open>simp_all add: vmm_map_page_in_dir_eq\<close>)
  qed
qed

lemma unmap_cases:
  assumes "space_ok (dir_pml4 d s) s" and "current_directory s = Some d" and "translate (dir_pml4 d s) s virt = Some (0, e)"
  obtains s' where "vmm_unmap_page virt s = Some s'" "space_ok (dir_pml4 d s) s'" "keeps (dir_pml4 d s) s s'"
    "hw_ops s' = hw_ops s @ [Invlpg (PAGE_ALIGN_DOWN virt)]"
    "\<And>v. translate (dir_pml4 d s) s' v = (if idx v = idx virt then None else translate (dir_pml4 d s) s v)"
proof -
  obtain t1 t2 t3 where t: "get_table (dir_pml4 d s) (PML4_INDEX virt) s = t1" "t1 \<noteq> 0" "get_table t1 (PDPT_INDEX virt) s = t2" "t2 \<noteq> 0"
    "pte (vmm_mem s) t2 (PD_INDEX virt) AND PAGE_HUGE = 0" "get_table t2 (PD_INDEX virt) s = t3" "t3 \<noteq> 0"
    "pte (vmm_mem s) t3 (PT_INDEX virt) = e" "e AND PAGE_PRESENT \<noteq> 0"
    "descend (hhdm_offset s) (vmm_mem s) (dir_pml4 d s) [PML4_INDEX virt, PDPT_INDEX virt, PD_INDEX virt] = Some t3"
    using assms(1,3) by (rule walk_leafD)
  note l = set_leaf [OF assms(1) t(10), of 0]
  show thesis
    by (rule that [OF _ l(1-3)]) (use l(4) t(1-7) assms(2) in \<open>simp_all add: vmm_unmap_page_def Let_def\<close>)
qed

end
