(* ===== verification/Vmm_Spaces.thy ===== *)
theory Vmm_Spaces
  imports Vmm_Correct
begin

text \<open>
  Address spaces as a whole: \<^verbatim>\<open>vmm_create_directory\<close> and \<^verbatim>\<open>vmm_free_directory\<close> of \<^verbatim>\<open>src/src/mm/vmm.c\<close>,
  which share the upper half of the kernel's root table, and the properties of the virtual memory
  manager.
\<close>

section \<open>Removing a page\<close>

lemma small_table:
  assumes "space_ok r s" and "small r s v" and "idx v = p @ i # q" and "q \<noteq> []"
    and "descend (hhdm_offset s) (vmm_mem s) r p = Some t"
  obtains (absent) "get_table t i s = 0" "translate r s v = None"
  | (table) t' where "get_table t i s = t'" "t' \<noteq> 0" "descend (hhdm_offset s) (vmm_mem s) r (p @ [i]) = Some t'"
proof (cases "pte (vmm_mem s) t i AND PAGE_PRESENT = 0")
  case True
  then have "walk (hhdm_offset s) (vmm_mem s) r (p @ i # q) = None" using assms(5) by (simp add: walk_append)
  then show ?thesis using True assms(3) by (intro absent) (simp_all add: get_table_def translate_def)
next
  case False
  then have d: "descend (hhdm_offset s) (vmm_mem s) r (p @ [i]) = Some (get_table t i s)"
    using small_entry [OF assms(2-5) False] assms(5) by (simp add: descend_append get_table_def phys_to_virt_def)
  have "path 3 (p @ [i])" using path_idx [of v] assms(3,4) length_idx [of v] by (cases q) (auto simp: path_def)
  then show ?thesis using d space_okD(3) [OF assms(1)] by (intro table) auto
qed

lemma unmap_small:
  assumes "space_ok (dir_pml4 d s) s" and "current_directory s = Some d" and "small (dir_pml4 d s) s virt"
  obtains s' where "vmm_unmap_page virt s = Some s'" "space_ok (dir_pml4 d s) s'" "keeps (dir_pml4 d s) s s'"
    "\<And>v. translate (dir_pml4 d s) s' v = (if idx v = idx virt then None else translate (dir_pml4 d s) s v)"
proof -
  let ?r = "dir_pml4 d s" and ?d = "descend (hhdm_offset s) (vmm_mem s) (dir_pml4 d s)"
  let ?a = "PML4_INDEX virt" and ?b = "PDPT_INDEX virt" and ?c = "PD_INDEX virt"
  note def = vmm_unmap_page_def idx_align Let_def assms(2)
  have same: "vmm_unmap_page virt s = Some s \<Longrightarrow> translate ?r s virt = None \<Longrightarrow> thesis"
    by (rule that [of s]) (use assms(1) keeps_refl in \<open>auto simp: translate_def\<close>)
  have i: "idx virt = [] @ ?a # [?b, ?c, PT_INDEX virt]" "idx virt = [?a] @ ?b # [?c, PT_INDEX virt]"
    "idx virt = [?a, ?b] @ ?c # [PT_INDEX virt]" by (simp_all add: idx_def)
  have root: "?d [] = Some ?r" by simp
  show thesis
  proof (rule small_table [OF assms(1,3) i(1) list.distinct(2) root])
    fix t1 assume one: "get_table ?r ?a s = t1" "t1 \<noteq> 0" "?d ([] @ [?a]) = Some t1"
    then have d1: "?d [?a] = Some t1" by simp
    show thesis
    proof (rule small_table [OF assms(1,3) i(2) list.distinct(2) d1])
      fix t2 assume two: "get_table t1 ?b s = t2" "t2 \<noteq> 0" "?d ([?a] @ [?b]) = Some t2"
      then have d2: "?d [?a, ?b] = Some t2" by simp
      show thesis
      proof (rule small_table [OF assms(1,3) i(3) list.distinct(2) d2])
        fix t3 assume three: "get_table t2 ?c s = t3" "t3 \<noteq> 0" "?d ([?a, ?b] @ [?c]) = Some t3"
        then have d3: "?d [?a, ?b, ?c] = Some t3" by simp
        show thesis
          by (rule that [OF _ set_leaf(1,2) [OF assms(1) d3, of 0]])
            (use one two three set_leaf(4) [OF assms(1) d3, of 0] in \<open>simp_all add: def\<close>)
      qed (rule same, use one two in \<open>simp_all add: def\<close>)
    qed (rule same, use one in \<open>simp_all add: def\<close>)
  qed (rule same, simp_all add: def)
qed

section \<open>Sharing tables with the kernel\<close>

declare for_upto_numeral [simp del]

lemma pmm_free_fields [simp]:
  "vmm_mem (pmm_free p s) = vmm_mem s" "hhdm_offset (pmm_free p s) = hhdm_offset s"
  "kernel_directory (pmm_free p s) = kernel_directory s" "get_table t i (pmm_free p s) = get_table t i s"
  by (simp_all add: pmm_free_def get_table_def phys_to_virt_def)

text \<open>Giving frames back, whatever they are, never makes one owned.\<close>

lemma pmm_free_shrinks:
  assumes "frames_ok s"
  shows "frames_ok (pmm_free p s)" and "owned_frames (vmm_pmm (pmm_free p s)) \<subseteq> owned_frames (vmm_pmm s)"
    and "p \<in> owned_frames (vmm_pmm s) \<Longrightarrow> p \<notin> owned_frames (vmm_pmm (pmm_free p s))"
proof -
  have I: "pmm_inv (vmm_pmm s) \<and> hhdm_ok (vmm_pmm s)" using assms by (simp add: frames_ok_def)
  then have n: "unat (pmm_total_blocks (vmm_pmm s)) \<le> 1048576" by (simp add: pmm_inv_def)
  let ?pm = "pmm_free_block p (vmm_pmm s)"
  have eq: "?pm = vmm_pmm s \<or> (\<exists>k < 1048576. ?pm = drop_block k (vmm_pmm s))"
    unfolding pmm_free_block_eq free_blocks_body_eq [OF n] using less_le_trans [OF _ n] by (simp only: split: if_split) blast
  then have h: "pmm_hhdm_offset ?pm = pmm_hhdm_offset (vmm_pmm s)" by auto
  then show "frames_ok (pmm_free p s)"
    using assms frames.free_inv [OF I] by (simp add: frames_ok_def pmm_free_def)
  show "owned_frames (vmm_pmm (pmm_free p s)) \<subseteq> owned_frames (vmm_pmm s)"
    using eq by (auto simp: owned_frames_def pmm_free_def split: if_splits)
  show "p \<notin> owned_frames (vmm_pmm (pmm_free p s))" if "p \<in> owned_frames (vmm_pmm s)"
    using frames.free_owned [OF I that] by (simp add: pmm_free_def)
qed

lemma copy_pte_fields [simp]:
  "hhdm_offset (copy_pte t k i s) = hhdm_offset s" "kernel_directory (copy_pte t k i s) = kernel_directory s"
  "vmm_pmm (copy_pte t k i s) = vmm_pmm s" "current_directory (copy_pte t k i s) = current_directory s"
  by (simp_all add: copy_pte_def)

lemma copy_ptes_step:
  assumes "table_at t" and "table_at k" and "t \<noteq> k" and "j < 512"
  shows "i < 512 \<Longrightarrow> pte (vmm_mem (copy_pte t k j u)) t i = (if i = j then pte (vmm_mem u) k i else pte (vmm_mem u) t i)"
    and "i < 512 \<Longrightarrow> pte (vmm_mem (copy_pte t k j u)) k i = pte (vmm_mem u) k i"
    and "page_of x \<noteq> t \<Longrightarrow> vmm_mem (copy_pte t k j u) x = vmm_mem u x"
  using pte_store [OF assms(1,4) assms(1)] pte_store [OF assms(1,4) assms(2)] store_entry_other [OF assms(1,4)] assms(3)
  by (simp_all add: copy_pte_def)

lemma copy_ptes_fields:
  "hhdm_offset (for_upto n (\<lambda>i. copy_pte t k (g i)) s) = hhdm_offset s"
  "vmm_pmm (for_upto n (\<lambda>i. copy_pte t k (g i)) s) = vmm_pmm s"
  "kernel_directory (for_upto n (\<lambda>i. copy_pte t k (g i)) s) = kernel_directory s"
  by (induction n) simp_all

lemma copy_ptes:
  fixes s :: vmm_state and t k x i :: u64 and c n :: nat
  assumes "table_at t" and "table_at k" and "t \<noteq> k" and "c + n \<le> 512"
  defines "s' \<equiv> for_upto n (\<lambda>i. copy_pte t k (of_nat (c + i))) s"
  shows "(page_of x \<noteq> t \<longrightarrow> vmm_mem s' x = vmm_mem s x) \<and> (i < 512 \<longrightarrow> pte (vmm_mem s') k i = pte (vmm_mem s) k i \<and>
    pte (vmm_mem s') t i = (if c \<le> unat i \<and> unat i < c + n then pte (vmm_mem s) k i else pte (vmm_mem s) t i))"
  unfolding s'_def using assms(4)
proof (induction n)
  case (Suc n)
  have j: "unat (of_nat (c + n) :: u64) = c + n" "(of_nat (c + n) :: u64) < 512"
    using Suc.prems by (simp_all add: word_less_nat_alt del: of_nat_add)
  have eq: "(i = of_nat (c + n)) = (unat i = c + n)" using j(1) by (metis of_nat_unat_id)
  note st = copy_ptes_step [OF assms(1-3) j(2)]
  show ?case using Suc eq st(1) [of i] st(2) [of i] st(3) [of x] unfolding for_upto.simps
    by (simp add: less_Suc_eq del: of_nat_add)
qed auto

lemma create_directory_cases:
  assumes "frames_ok s" and "k \<in> owned_frames (vmm_pmm s)" and "pml4 (kernel_directory s) = k"
  obtains (none) s' where "vmm_create_directory s = (None, s')" "frames_ok s'" "vmm_mem s' = vmm_mem s"
      "owned_frames (vmm_pmm s') = owned_frames (vmm_pmm s)"
      "fst (pmm_alloc_block (snd (pmm_alloc_block (vmm_pmm s)))) = 0"
  | (new) a r s' where "vmm_create_directory s = (Some (Directory_At a), s')" "frames_ok s'" "dir_pml4 (Directory_At a) s' = r"
      "a \<noteq> r" "a \<notin> owned_frames (vmm_pmm s)" "r \<notin> owned_frames (vmm_pmm s)"
      "owned_frames (vmm_pmm s') = insert r (insert a (owned_frames (vmm_pmm s)))"
      "hhdm_offset s' = hhdm_offset s" "kernel_directory s' = kernel_directory s"
      "\<And>i. i < 512 \<Longrightarrow> pte (vmm_mem s') r i =
         (if 256 \<le> unat i \<or> i = 0 \<and> pte (vmm_mem s) k 0 AND PAGE_PRESENT \<noteq> 0 then pte (vmm_mem s) k i else 0)"
      "\<And>x. page_of x \<noteq> a \<Longrightarrow> page_of x \<noteq> r \<Longrightarrow> vmm_mem s' x = vmm_mem s x"
proof -
  have I: "pmm_inv (vmm_pmm s) \<and> hhdm_ok (vmm_pmm s)" using assms(1) by (simp add: frames_ok_def)
  obtain a pm where al: "pmm_alloc_block (vmm_pmm s) = (a, pm)" by fastforce
  let ?s = "s\<lparr>vmm_pmm := pm\<rparr>"
  show thesis
  proof (cases "a = 0")
    case True
    then have "pm = vmm_pmm s" using frames.alloc_null [OF I] al by simp
    then show ?thesis using True al assms(1) by (intro none [of s]) (simp_all add: vmm_create_directory_def pmm_alloc_def)
  next
    case False
    have own: "a \<notin> owned_frames (vmm_pmm s)" "owned_frames pm = insert a (owned_frames (vmm_pmm s))"
      using frames.alloc_fresh [OF I] al False by simp_all
    have "pmm_hhdm_offset pm = pmm_hhdm_offset (vmm_pmm s)" using pmm_alloc_hhdm al I by fastforce
    then have ok: "frames_ok ?s" using assms(1) frames.alloc_inv [OF I] al by (simp add: frames_ok_def)
    have ta: "table_at a" "table_at k" using owned_frame(1) [OF ok] own(2) assms(2) by simp_all
    from ok show ?thesis
    proof (cases rule: alloc_table_cases)
      case none
      let ?f = "pmm_free a ?s"
      have "owned_frames (vmm_pmm ?f) = owned_frames (vmm_pmm s)"
        using frames.free_owned [of pm a] ok own by (simp add: pmm_free_def frames_ok_def)
      then show ?thesis
        using none al False pmm_free_shrinks(1) [OF ok, of a]
        by (intro that(1) [of ?f]) (simp_all add: vmm_create_directory_def pmm_alloc_def)
    next
      case n: (new r s1)
      have d: "r \<noteq> a" "r \<noteq> k" "a \<noteq> k" "r \<notin> owned_frames (vmm_pmm s)" using n(5) own assms(2) by auto
      define s2 where "s2 = set_pte a 0 (virt_to_phys s1 r) (set_pte a 1 r s1)"
      define s3 where "s3 = for_upto 256 (\<lambda>i. copy_pte r k (of_nat (256 + i))) s2"
      define s4 where "s4 = (if pte (vmm_mem s3) k 0 AND PAGE_PRESENT \<noteq> 0 then copy_pte r k 0 s3 else s3)"
      have f: "hhdm_offset s4 = hhdm_offset s" "kernel_directory s4 = kernel_directory s" "vmm_pmm s4 = vmm_pmm s1"
        by (simp_all add: s4_def s3_def s2_def copy_ptes_fields n(7,8) del: for_upto_numeral)
      note c = copy_ptes [OF n(4) ta(2) d(2), of 256 256 _ s2, folded s3_def, simplified]
      have m2: "page_of x \<noteq> a \<Longrightarrow> page_of x \<noteq> r \<Longrightarrow> vmm_mem s2 x = vmm_mem s x" for x
        using store_entry_other [OF ta(1), of 0] store_entry_other [OF ta(1), of 1] n(12) by (simp add: s2_def)
      have p2: "table_at t \<Longrightarrow> t \<noteq> a \<Longrightarrow> i < 512 \<Longrightarrow> pte (vmm_mem s2) t i = pte (vmm_mem s1) t i" for t i
        using pte_store [OF ta(1), of 0 t i] pte_store [OF ta(1), of 1 t i] by (simp add: s2_def)
      have pa: "pte (vmm_mem s2) a 1 = r" using pte_store [OF ta(1) _ ta(1), of 0 1] pte_store [OF ta(1) _ ta(1), of 1 1]
        by (simp add: s2_def)
      have pk: "pte (vmm_mem s3) k i = pte (vmm_mem s) k i" if "i < 512" for i
        using c [of undefined i] that p2 [OF ta(2)] d n(13) [OF ta(2)] by simp
      have s2: "s1\<lparr>vmm_mem := store_u64 (store_u64 (vmm_mem s1) (a + 8) r) a (virt_to_phys (s1\<lparr>vmm_mem := store_u64 (vmm_mem s1) (a + 8) r\<rparr>) r)\<rparr> = s2"
        by (simp add: s2_def set_pte_def virt_to_phys_def)
      have k1: "pml4 (kernel_directory s1) = k" "pml4 (kernel_directory s2) = k" using n(8) assms(3) by (simp_all add: s2_def)
      have r0: "0 < (512 :: u64)" by simp
      note st = copy_ptes_step [OF n(4) ta(2) d(2) r0, of _ s3]
      show ?thesis
      proof (rule that(2) [of a s4 r])
        show "vmm_create_directory s = (Some (Directory_At a), s4)"
          using al False n(1,2) s2 k1 by (simp add: vmm_create_directory_def pmm_alloc_def Let_def s4_def s3_def)
        show "frames_ok s4" using n(3) f n(7) by (simp add: frames_ok_def)
        have "vmm_mem s4 x = vmm_mem s2 x" if "page_of x = a" for x
          using c [of x 0] st(3) [of x] that d(1) by (simp add: s4_def)
        from load_field_keeps [OF ta(1), of 8, OF _ this] show "dir_pml4 (Directory_At a) s4 = r"
          using pa by (simp add: dir_pml4_def pte_def)
        show "owned_frames (vmm_pmm s4) = insert r (insert a (owned_frames (vmm_pmm s)))" using n(6) own(2) f(3) by simp
        show "pte (vmm_mem s4) r i =
         (if 256 \<le> unat i \<or> i = 0 \<and> pte (vmm_mem s) k 0 AND PAGE_PRESENT \<noteq> 0 then pte (vmm_mem s) k i else 0)"
          if "i < 512" for i
          using c [of undefined i] st(1) [of i] that d(1) pk [OF r0] pk [OF that] p2 [OF n(4) d(1)] n(11) [OF that] p2 [OF ta(2)] n(13) [OF ta(2)] d
          by (auto simp: s4_def word_less_nat_alt)
        show "vmm_mem s4 x = vmm_mem s x" if "page_of x \<noteq> a" "page_of x \<noteq> r" for x
          using c [of x 0] m2 [OF that] st(3) [of x] that by (simp add: s4_def)
      qed (use d own f in simp_all)
    qed
  qed
qed

text \<open>Deleting a space only gives frames back; memory stays as it is.\<close>

definition shrinks :: "vmm_state \<Rightarrow> vmm_state \<Rightarrow> bool" where
  "shrinks s s' \<longleftrightarrow> frames_ok s' \<and> vmm_mem s' = vmm_mem s \<and> hhdm_offset s' = hhdm_offset s \<and>
     kernel_directory s' = kernel_directory s \<and> owned_frames (vmm_pmm s') \<subseteq> owned_frames (vmm_pmm s)"

lemma shrinks_free: "shrinks s s' \<Longrightarrow> shrinks s (free_table p s')"
  using pmm_free_shrinks [of s' p] unfolding shrinks_def free_table_def by auto

lemma shrinks_body:
  assumes "shrinks s s'"
  shows "shrinks s (free_pt_body pd i s')" and "shrinks s (free_pd_body pdpt i s')" and "shrinks s (free_pdpt_body r i s')"
proof -
  have pt: "shrinks s (free_pt_body pd i u)" if "shrinks s u" for pd i u
    using that by (auto simp: free_pt_body_def Let_def intro: shrinks_free)
  have pd: "shrinks s (free_pd_body pdpt i u)" if "shrinks s u" for pdpt i u
    using that for_upto_invariant [where I = "\<lambda>_. shrinks s", OF that pt]
    by (auto simp: free_pd_body_def Let_def intro: shrinks_free)
  show "shrinks s (free_pt_body pd i s')" "shrinks s (free_pd_body pdpt i s')" using pt pd assms by blast+
  show "shrinks s (free_pdpt_body r i s')"
    using assms for_upto_invariant [where I = "\<lambda>_. shrinks s", OF assms pd]
    by (auto simp: free_pdpt_body_def Let_def intro: shrinks_free)
qed

lemma free_pdpt_body_frees:
  assumes "shrinks s s'" and "get_table r (of_nat i) s = t" and "t \<noteq> 0"
  shows "t \<notin> owned_frames (vmm_pmm (free_pdpt_body r i s'))"
proof -
  have g: "get_table r (of_nat i) s' = t" using assms(1,2) by (auto simp: shrinks_def get_table_def phys_to_virt_def)
  then have "pte (vmm_mem s') r (of_nat i) AND PAGE_PRESENT \<noteq> 0" using assms(3) by (auto simp: get_table_def Let_def split: if_splits)
  moreover have u: "shrinks s (for_upto 512 (free_pd_body t) s')"
    by (rule for_upto_invariant [where I = "\<lambda>_. shrinks s", OF assms(1) shrinks_body(2)])
  ultimately show ?thesis
    using g assms(3) pmm_free_shrinks(2,3) [of "for_upto 512 (free_pd_body t) s'" t] unfolding shrinks_def
    by (auto simp: free_pdpt_body_def free_table_def Let_def)
qed

lemma free_directory_frees:
  assumes "frames_ok s" and "dir_pml4 (Directory_At a) s = r" and "i < 256" and "get_table r (of_nat i) s = t" and "t \<noteq> 0"
  defines "s' \<equiv> vmm_free_directory (Some (Directory_At a)) s"
  shows "shrinks s s'" and "t \<notin> owned_frames (vmm_pmm s')"
proof -
  have s: "shrinks s s" using assms(1) by (simp add: shrinks_def)
  let ?I = "\<lambda>n u. shrinks s u \<and> (i < n \<longrightarrow> t \<notin> owned_frames (vmm_pmm u))"
  have step: "?I (Suc j) (free_pdpt_body r j u)" if "?I j u" for j u
  proof -
    have "shrinks u u" using that by (auto simp: shrinks_def)
    then have "owned_frames (vmm_pmm (free_pdpt_body r j u)) \<subseteq> owned_frames (vmm_pmm u)"
      using shrinks_body(3) [of u u r j] by (simp add: shrinks_def)
    then show ?thesis
      using that shrinks_body(3) [of s u r j] free_pdpt_body_frees [of s u r i t] assms(4,5) by (auto simp: less_Suc_eq)
  qed
  have "?I 256 (for_upto 256 (free_pdpt_body r) s)"
    by (rule for_upto_invariant [where I = ?I]) (use s step in simp_all)
  then have u: "shrinks s (for_upto 256 (free_pdpt_body r) s)" "t \<notin> owned_frames (vmm_pmm (for_upto 256 (free_pdpt_body r) s))"
    using assms(3) by simp_all
  have "s' = free_table a (free_table r (for_upto 256 (free_pdpt_body r) s))"
    using assms(2) by (simp add: s'_def vmm_free_directory_def Let_def free_table_def)
  then show "shrinks s s'" "t \<notin> owned_frames (vmm_pmm s')"
    using shrinks_free [OF shrinks_free [OF u(1)], of a r] u pmm_free_shrinks(1,2) unfolding shrinks_def free_table_def
    by (simp, blast)
qed

text \<open>A space made from the kernel's: what its addresses mean.\<close>

lemma created_translate:
  assumes "space_ok k s" and "\<And>t i. t \<in> owned_frames (vmm_pmm s) \<Longrightarrow> i < 512 \<Longrightarrow> pte (vmm_mem s') t i = pte (vmm_mem s) t i"
    and "hhdm_offset s' = hhdm_offset s"
    and "\<And>i. i < 512 \<Longrightarrow> pte (vmm_mem s') r i =
      (if 256 \<le> unat i \<or> i = 0 \<and> pte (vmm_mem s) k 0 AND PAGE_PRESENT \<noteq> 0 then pte (vmm_mem s) k i else 0)"
  shows "translate k s' v = translate k s v"
    and "translate r s' v = (if PML4_INDEX v = 0 \<or> 256 \<le> unat (PML4_INDEX v) then translate k s v else None)"
proof -
  have d: "descend (hhdm_offset s) (vmm_mem s) k p = Some t \<Longrightarrow> path 3 p \<Longrightarrow> t \<in> owned_frames (vmm_pmm s)" for p t
    using space_okD(2) [OF assms(1)] by blast
  have "walk (hhdm_offset s) (vmm_mem s') k (idx v) = walk (hhdm_offset s) (vmm_mem s) k (idx v)"
    by (rule walk_cong [where pre = "[]" and r = k]) (use d assms(2) path_idx in \<open>auto simp: path_append path_def\<close>)
  then show k: "translate k s' v = translate k s v" using assms(3) by (simp add: translate_def)
  have k0: "k \<in> owned_frames (vmm_pmm s)" using d [of "[]" k] by (simp add: path_def)
  have i: "PML4_INDEX v < 512" using path_idx [of v] by (simp add: idx_def path_def)
  have "translate r s' v = (if PML4_INDEX v = 0 \<or> 256 \<le> unat (PML4_INDEX v) then translate k s' v else None)"
    using assms(4) [OF i] assms(2) [OF k0 i] unfolding translate_def idx_def by (auto simp: Let_def)
  then show "translate r s' v = (if PML4_INDEX v = 0 \<or> 256 \<le> unat (PML4_INDEX v) then translate k s v else None)"
    using k by simp
qed

section \<open>Properties\<close>

text \<open>
  C6: \<^verbatim>\<open>vmm_map_page_in_dir\<close> returns 0. Either it has installed the page, and then exactly the
  addresses of that page of that space have a new meaning, which is the one that
  \<^verbatim>\<open>vmm_get_phys_addr\<close> reports, and the stale translation is flushed; or physical memory is
  exhausted, and then no address has a new meaning. The tables of the space still form a tree in
  frames that the physical memory manager has handed out, and addresses of other spaces that do not
  go through its tables are not affected.
\<close>

theorem vmm_map_page_in_dir_maps:
  assumes "space_ok (dir_pml4 d s) s" and "dir_ok d s" and "small (dir_pml4 d s) s virt"
  shows "\<exists>s'. vmm_map_page_in_dir (Some d) phys virt flags s = Some (0, s') \<and> dir_pml4 d s' = dir_pml4 d s \<and>
    space_ok (dir_pml4 d s) s' \<and> (\<forall>r v. apart (dir_pml4 d s) r s v \<longrightarrow> translate r s' v = translate r s v) \<and>
    ((\<forall>v. translate (dir_pml4 d s) s' v =
        (if idx v = idx virt then Some (0, pte_for phys flags) else translate (dir_pml4 d s) s v)) \<and>
      vmm_get_phys_addr (Some d) virt s' = phys AND PAGE_FRAME_MASK \<and>
      hw_ops s' = hw_ops s @ [Invlpg (PAGE_ALIGN_DOWN virt)] \<or>
     (\<forall>v. translate (dir_pml4 d s) s' v = translate (dir_pml4 d s) s v) \<and>
      fst (pmm_alloc_block (vmm_pmm s')) = 0 \<and> hw_ops s' = hw_ops s)"
proof -
  have ok: "frames_ok s" using assms(1) by (simp add: space_ok_def)
  from assms show ?thesis
  proof (cases rule: map_page_in_dir_cases [where phys = phys and flags = flags])
    case (full s')
    then show ?thesis using keeps_other [OF ok full(3)] by auto
  next
    case (mapped s')
    then have "vmm_get_phys_addr (Some d) virt s' = phys AND PAGE_FRAME_MASK"
      using phys_addr_leaf(1) [of d s' virt "pte_for phys flags"] pte_for_frame by simp
    then show ?thesis using mapped keeps_other [OF ok mapped(3)] by auto
  qed
qed

text \<open>
  C8: Mapping a page in the current space and then unmapping it leaves every other page as it was and
  this page unmapped, whether or not the first step had the memory for the tables it needed.
\<close>

theorem vmm_map_unmap_roundtrip:
  assumes "space_ok (dir_pml4 d s) s" and "dir_ok d s" and "small (dir_pml4 d s) s virt" and "current_directory s = Some d"
  shows "\<exists>s1 s2. vmm_map_page phys virt flags s = Some s1 \<and> vmm_unmap_page virt s1 = Some s2 \<and>
    space_ok (dir_pml4 d s) s2 \<and> (\<forall>r v. apart (dir_pml4 d s) r s v \<longrightarrow> translate r s2 v = translate r s v) \<and>
    (\<forall>v. translate (dir_pml4 d s) s2 v = (if idx v = idx virt then None else translate (dir_pml4 d s) s v))"
proof -
  let ?r = "dir_pml4 d s"
  have ok: "frames_ok s" using assms(1) by (simp add: space_ok_def)
  obtain s1 where s1: "vmm_map_page phys virt flags s = Some s1" "space_ok ?r s1" "keeps ?r s s1" "small ?r s1 virt"
    "\<And>v. idx v \<noteq> idx virt \<Longrightarrow> translate ?r s1 v = translate ?r s v"
    by (rule map_page_at_cases [OF assms(1,3), of phys flags])
      (use assms(3,4) that in \<open>auto simp: vmm_map_page_def small_def\<close>)
  have r: "dir_pml4 d s1 = ?r" and c: "current_directory s1 = Some d"
    using dir_pml4_keeps [OF ok assms(2) s1(3)] s1(3) assms(4) by (simp_all add: keeps_def)
  obtain s2 where s2: "vmm_unmap_page virt s1 = Some s2" "space_ok ?r s2" "keeps ?r s1 s2"
    "\<And>v. translate ?r s2 v = (if idx v = idx virt then None else translate ?r s1 v)"
    using unmap_small [of d s1 virt] s1(2,4) r c by (metis (no_types, lifting))
  have "translate r s2 v = translate r s v" if "apart ?r r s v" for r v
    using keeps_other [OF ok keeps_trans [OF s1(3) s2(3)] that] .
  then show ?thesis using s1 s2 by auto
qed

text \<open>
  C9: \<^verbatim>\<open>vmm_create_directory\<close> fails for want of two free frames and keeps none, or gives a new space in two fresh frames,
  in which the upper half of the addresses and the first entry of the root table mean what they mean
  to the kernel and all other addresses are unmapped. The kernel's own addresses are not affected.
\<close>

theorem vmm_create_directory_shares_kernel:
  assumes "space_ok k s" and "pml4 (kernel_directory s) = k"
  shows "case vmm_create_directory s of
      (None, s') \<Rightarrow> vmm_mem s' = vmm_mem s \<and> owned_frames (vmm_pmm s') = owned_frames (vmm_pmm s) \<and>
        fst (pmm_alloc_block (snd (pmm_alloc_block (vmm_pmm s)))) = 0
    | (Some d, s') \<Rightarrow> (\<exists>a. d = Directory_At a \<and> a \<noteq> dir_pml4 d s' \<and>
        {a, dir_pml4 d s'} \<inter> owned_frames (vmm_pmm s) = {} \<and>
        owned_frames (vmm_pmm s') = {a, dir_pml4 d s'} \<union> owned_frames (vmm_pmm s)) \<and>
        (\<forall>v. translate k s' v = translate k s v \<and> translate (dir_pml4 d s') s' v =
          (if PML4_INDEX v = 0 \<or> 256 \<le> unat (PML4_INDEX v) then translate k s v else None))"
proof -
  have ok: "frames_ok s" "k \<in> owned_frames (vmm_pmm s)"
    using assms(1) space_okD(2) [OF assms(1), of "[]" k] by (simp_all add: space_ok_def path_def)
  from ok assms(2) show ?thesis
  proof (cases rule: create_directory_cases)
    case none
    then show ?thesis by simp
  next
    case (new a r s')
    have "pte (vmm_mem s') t i = pte (vmm_mem s) t i" if "t \<in> owned_frames (vmm_pmm s)" "i < 512" for t i
    proof -
      have "t \<noteq> a" "t \<noteq> r" using that new(5,6) by auto
      moreover have "unat i < 512" using that(2) by (simp add: word_less_nat_alt)
      ultimately show ?thesis
        using load_field_keeps [OF owned_frame(1) [OF ok(1) that(1)], of "8 * unat i" "vmm_mem s'" "vmm_mem s"] new(11)
        by (simp add: pte_def)
    qed
    note tr = created_translate [OF assms(1) this new(8) new(10)]
    show ?thesis using new(1,3-7) tr by auto
  qed
qed

text \<open>
  C37: Deleting a space that was just created gives back the frame of the kernel's own table for the
  lowest 512 GiB, although the kernel's root table still refers to it: the loop that frees the
  tables of the user half starts at entry 0, which \<^verbatim>\<open>vmm_create_directory\<close> shares with the kernel.
\<close>

theorem vmm_free_directory_frees_kernel_table:
  assumes "frames_ok s" and "pml4 (kernel_directory s) = k" and "k \<in> owned_frames (vmm_pmm s)"
    and "get_table k 0 s = t" and "t \<in> owned_frames (vmm_pmm s)" and "vmm_create_directory s = (Some d, s1)"
  shows "t \<in> owned_frames (vmm_pmm s1) \<and> t \<notin> owned_frames (vmm_pmm (vmm_free_directory (Some d) s1)) \<and>
    get_table k 0 (vmm_free_directory (Some d) s1) = t"
proof -
  have t0: "t \<noteq> 0" using owned_frame(2) [OF assms(1,5)] .
  then have pr: "pte (vmm_mem s) k 0 AND PAGE_PRESENT \<noteq> 0" using assms(4) by (auto simp: get_table_def)
  from assms(1,3,2) show ?thesis
  proof (cases rule: create_directory_cases)
    case none
    then show ?thesis using assms(6) by simp
  next
    case (new a r s')
    then have d: "d = Directory_At a" "s' = s1" using assms(6) by simp_all
    have k: "k \<noteq> a" "k \<noteq> r" using assms(3) new(5,6) by auto
    have "load_u64 (vmm_mem s1) (k + of_nat 0) = load_u64 (vmm_mem s) (k + of_nat 0)"
      by (rule load_field_keeps [OF owned_frame(1) [OF assms(1,3)]]) (use k new(11) d(2) in auto)
    then have g: "get_table k 0 s1 = t" "get_table r (of_nat 0) s1 = t"
      using assms(4) pr new(8) new(10) [of 0] d(2) by (simp_all add: get_table_def pte_def phys_to_virt_def split: if_splits)
    note f = free_directory_frees [OF new(2,3) _ g(2) [folded d(2)] t0]
    show ?thesis
      using f(2) f(1) g(1) new(7) assms(5) d by (auto simp: shrinks_def get_table_def phys_to_virt_def)
  qed
qed

section \<open>Witnesses\<close>

text \<open>A kernel space with an empty root table in block 0, and one whose first entry refers to block 1.\<close>

definition vmm_example :: vmm_state where
  "vmm_example = \<lparr>hhdm_offset = 0xffff800000000000, kernel_directory = \<lparr>pml4_phys = 0, pml4 = 0xffff800000000000\<rparr>,
     current_directory = Some Kernel_Directory, vmm_pmm = pmm_example, vmm_mem = (\<lambda>_. 0), hw_ops = []\<rparr>"

definition vmm_example_low :: vmm_state where
  "vmm_example_low = vmm_example\<lparr>vmm_mem := store_u64 (\<lambda>_. 0) 0xffff800000000000 0x1003\<rparr>"

lemma vmm_example_fields [simp]:
  "hhdm_offset vmm_example = 0xffff800000000000" "pml4 (kernel_directory vmm_example) = 0xffff800000000000"
  "current_directory vmm_example = Some Kernel_Directory" "vmm_pmm vmm_example = pmm_example" "vmm_mem vmm_example = (\<lambda>_. 0)"
  "dir_pml4 Kernel_Directory vmm_example = 0xffff800000000000"
  by (simp_all add: vmm_example_def dir_pml4_def)

lemma vmm_example_owned: "0xffff800000000000 \<in> owned_frames pmm_example" "0xffff800000001000 \<in> owned_frames pmm_example"
proof -
  have "block_addr pmm_example 0 = 0xffff800000000000 \<and> blk_used pmm_example 0"
    "block_addr pmm_example 1 = 0xffff800000001000 \<and> blk_used pmm_example 1"
    "unat (pmm_total_blocks pmm_example) = 20" by code_simp+
  then show "0xffff800000000000 \<in> owned_frames pmm_example" "0xffff800000001000 \<in> owned_frames pmm_example"
    unfolding owned_frames_def by force+
qed

lemma vmm_example_frames: "frames_ok vmm_example"
  using pmm_example_inv pmm_example_hhdm by (simp add: frames_ok_def, simp add: pmm_example_def)

lemma vmm_example_pte: "pte (\<lambda>_. 0) t i = 0"
  by (simp add: pte_def load_u64_def load_bytes_def upt_conv_Cons)

lemma vmm_example_space: "space_ok 0xffff800000000000 vmm_example"
proof -
  have d: "descend h (\<lambda>_. 0) r p = Some t \<longleftrightarrow> p = [] \<and> t = r" for h r p t
    by (cases p) (auto simp: vmm_example_pte is_table_def)
  have "table_at (0xffff800000000000 :: u64)" by (simp add: table_at_def)
  then show ?thesis using vmm_example_frames vmm_example_owned by (simp add: space_ok_def tables_ok_def d)
qed

lemma vmm_example_small: "small 0xffff800000000000 vmm_example v" "translate 0xffff800000000000 vmm_example v = None"
  by (simp_all add: small_def translate_def idx_def vmm_example_pte)

lemma vmm_example_dir: "dir_ok Kernel_Directory vmm_example"
  by (simp add: dir_ok_def)

lemmas vmm_example_ok = vmm_example_space vmm_example_dir vmm_example_small(1)

theorem vmm_map_page_in_dir_maps_witness:
  "\<exists>s'. vmm_map_page_in_dir (Some Kernel_Directory) 0x5000 0x400000 PAGE_RW vmm_example = Some (0, s') \<and>
    space_ok 0xffff800000000000 s' \<and> translate 0xffff800000000000 s' 0x401000 = None"
  using vmm_map_page_in_dir_maps [of Kernel_Directory vmm_example "0x400000" "0x5000" PAGE_RW] vmm_example_ok vmm_example_small(2)
  by (auto simp: idx_def PML4_INDEX_def PDPT_INDEX_def PD_INDEX_def PT_INDEX_def)

theorem vmm_map_unmap_roundtrip_witness:
  "\<exists>s1 s2. vmm_map_page 0x5000 0x400000 PAGE_RW vmm_example = Some s1 \<and> vmm_unmap_page 0x400000 s1 = Some s2 \<and>
    (\<forall>v. translate 0xffff800000000000 s2 v = None)"
  using vmm_map_unmap_roundtrip [of Kernel_Directory vmm_example "0x400000" "0x5000" PAGE_RW] vmm_example_ok vmm_example_small(2)
  by auto

lemma vmm_example_two_frames: "fst (pmm_alloc_block (snd (pmm_alloc_block pmm_example))) \<noteq> 0"
  by code_simp

theorem vmm_create_directory_shares_kernel_witness:
  "\<exists>d s'. vmm_create_directory vmm_example = (Some d, s') \<and> (\<forall>v. translate (dir_pml4 d s') s' v = None)"
  using vmm_create_directory_shares_kernel [OF vmm_example_space] vmm_example_small(2) vmm_example_two_frames
  by (auto split: prod.splits option.splits)

theorem vmm_free_directory_frees_kernel_table_witness:
  "\<exists>d s1. vmm_create_directory vmm_example_low = (Some d, s1) \<and>
    0xffff800000001000 \<notin> owned_frames (vmm_pmm (vmm_free_directory (Some d) s1)) \<and>
    get_table 0xffff800000000000 0 (vmm_free_directory (Some d) s1) = 0xffff800000001000"
proof -
  have f: "frames_ok vmm_example_low" "pml4 (kernel_directory vmm_example_low) = 0xffff800000000000" "vmm_pmm vmm_example_low = pmm_example"
    using vmm_example_frames by (simp_all add: vmm_example_low_def frames_ok_def)
  have t: "get_table 0xffff800000000000 0 vmm_example_low = 0xffff800000001000" by code_simp
  obtain d s1 where d: "vmm_create_directory vmm_example_low = (Some d, s1)"
    by (rule create_directory_cases [OF f(1) _ f(2)]) (use vmm_example_owned(1) vmm_example_two_frames f(3) in auto)
  show ?thesis
    using vmm_free_directory_frees_kernel_table [OF f(1,2) _ t _ d] vmm_example_owned d unfolding f(3) by blast
qed

end
