(* ===== verification/Spinlock.thy ===== *)
theory Spinlock
  imports Alos_Prelude
begin

text \<open>
  The test-and-set spinlock of \<^verbatim>\<open>kernel/thread.h\<close>: its operations as the lock holder's code sees
  them, and the interleaving of any number of processors that run lock, critical section and
  unlock, with mutual exclusion as an invariant of every reachable state.
\<close>

section \<open>Operations\<close>

text \<open>The structure has the single field \<^verbatim>\<open>value\<close>; the pointer tests of the source guard against NULL.\<close>

type_synonym spinlock = u32

definition spinlock_init :: "spinlock option \<Rightarrow> spinlock option" where
  "spinlock_init lock = map_option (\<lambda>_. 0) lock"

text \<open>\<^verbatim>\<open>__sync_lock_test_and_set(&value, 1)\<close>: the old value, and the new contents.\<close>

definition sync_lock_test_and_set :: "spinlock \<Rightarrow> u32 \<Rightarrow> u32 \<times> spinlock" where
  "sync_lock_test_and_set lock v = (lock, v)"

text \<open>
  \<open>spinlock_lock\<close> as one caller executes it while nobody else writes the lock: taken at once if
  it is free, and never returning (\<open>None\<close>) if it is held.
\<close>

definition spinlock_lock :: "spinlock \<Rightarrow> spinlock option" where
  "spinlock_lock lock =
     (let (old, new) = sync_lock_test_and_set lock 1 in if old \<noteq> 0 then None else Some new)"

definition spinlock_unlock :: "spinlock \<Rightarrow> spinlock" where
  "spinlock_unlock lock = 0"

definition spinlock_trylock :: "spinlock option \<Rightarrow> bool \<times> spinlock option" where
  "spinlock_trylock lock = (case lock of
     None \<Rightarrow> (False, None)
   | Some v \<Rightarrow> (let (old, new) = sync_lock_test_and_set v 1 in (old = 0, Some new)))"

lemma spinlock_lock_free [simp]: "spinlock_lock 0 = Some 1"
  by (simp add: spinlock_lock_def sync_lock_test_and_set_def)

lemma spinlock_lock_held: "v \<noteq> 0 \<Longrightarrow> spinlock_lock v = None"
  by (simp add: spinlock_lock_def sync_lock_test_and_set_def)

lemma spinlock_unlock_0 [simp]: "spinlock_unlock v = 0"
  by (simp add: spinlock_unlock_def)

section \<open>Concurrent processors\<close>

text \<open>
  Where a processor is in \<^verbatim>\<open>lock; critical section; unlock\<close>: outside, about to execute the
  test-and-set, in the inner loop that reads the value, or inside the critical section.
\<close>

datatype cpu_pc = Outside | Test_And_Set | Spinning | Critical

record lock_state =
  lock_value :: spinlock
  pcs :: "nat \<Rightarrow> cpu_pc"

text \<open>One atomic step of processor \<open>i\<close>.\<close>

inductive lock_step :: "nat \<Rightarrow> lock_state \<Rightarrow> lock_state \<Rightarrow> bool" where
  enter: "pcs s i = Outside \<Longrightarrow> lock_step i s (s\<lparr>pcs := (pcs s)(i := Test_And_Set)\<rparr>)"
| acquire: "pcs s i = Test_And_Set \<Longrightarrow> sync_lock_test_and_set (lock_value s) 1 = (0, v) \<Longrightarrow>
    lock_step i s (s\<lparr>lock_value := v, pcs := (pcs s)(i := Critical)\<rparr>)"
| contended: "pcs s i = Test_And_Set \<Longrightarrow>
    sync_lock_test_and_set (lock_value s) 1 = (old, v) \<Longrightarrow> old \<noteq> 0 \<Longrightarrow>
    lock_step i s (s\<lparr>lock_value := v, pcs := (pcs s)(i := Spinning)\<rparr>)"
| pause: "pcs s i = Spinning \<Longrightarrow> lock_value s \<noteq> 0 \<Longrightarrow> lock_step i s s"
| retry: "pcs s i = Spinning \<Longrightarrow> lock_value s = 0 \<Longrightarrow>
    lock_step i s (s\<lparr>pcs := (pcs s)(i := Test_And_Set)\<rparr>)"
| try_acquire: "pcs s i = Outside \<Longrightarrow>
    spinlock_trylock (Some (lock_value s)) = (True, Some v) \<Longrightarrow>
    lock_step i s (s\<lparr>lock_value := v, pcs := (pcs s)(i := Critical)\<rparr>)"
| try_fail: "pcs s i = Outside \<Longrightarrow>
    spinlock_trylock (Some (lock_value s)) = (False, Some v) \<Longrightarrow>
    lock_step i s (s\<lparr>lock_value := v\<rparr>)"
| leave: "pcs s i = Critical \<Longrightarrow>
    lock_step i s (s\<lparr>lock_value := spinlock_unlock (lock_value s), pcs := (pcs s)(i := Outside)\<rparr>)"

inductive lock_reachable :: "lock_state \<Rightarrow> bool" where
  init: "spinlock_init (Some v) = Some v0 \<Longrightarrow>
    lock_reachable \<lparr>lock_value = v0, pcs = (\<lambda>_. Outside)\<rparr>"
| step: "lock_reachable s \<Longrightarrow> lock_step i s t \<Longrightarrow> lock_reachable t"

text \<open>The lock is 1 while some processor \<open>h\<close>, and only that one, is critical, and 0 otherwise.\<close>

definition held_by :: "nat option \<Rightarrow> lock_state \<Rightarrow> bool" where
  "held_by h s \<longleftrightarrow>
     lock_value s = (case h of None \<Rightarrow> 0 | Some _ \<Rightarrow> 1) \<and> (\<forall>i. pcs s i = Critical \<longleftrightarrow> h = Some i)"

definition lock_inv :: "lock_state \<Rightarrow> bool" where
  "lock_inv s \<longleftrightarrow> (\<exists>h. held_by h s)"

lemma held_by_move:
  "held_by h s \<Longrightarrow> pcs s i \<noteq> Critical \<Longrightarrow> pc \<noteq> Critical \<Longrightarrow> v = lock_value s \<Longrightarrow>
   held_by h (s\<lparr>lock_value := v, pcs := (pcs s)(i := pc)\<rparr>)"
  by (auto simp: held_by_def)

lemma held_by_take:
  "held_by h s \<Longrightarrow> lock_value s = 0 \<Longrightarrow>
   held_by (Some i) (s\<lparr>lock_value := 1, pcs := (pcs s)(i := Critical)\<rparr>)"
  by (auto simp: held_by_def split: option.splits)

lemma held_by_release:
  "held_by h s \<Longrightarrow> pcs s i = Critical \<Longrightarrow>
   held_by None (s\<lparr>lock_value := 0, pcs := (pcs s)(i := Outside)\<rparr>)"
  by (auto simp: held_by_def)

lemma held_by_value: "held_by h s \<Longrightarrow> lock_value s = 0 \<or> lock_value s = 1"
  by (auto simp: held_by_def split: option.splits)

lemma lock_step_held:
  assumes "lock_step i s t" and "held_by h s"
  shows "\<exists>h'. held_by h' t"
  using assms
proof (cases rule: lock_step.cases)
  case enter
  then show ?thesis using held_by_move [OF assms(2), of i Test_And_Set] by auto
next
  case (acquire v)
  then show ?thesis
    using held_by_take [OF assms(2), of i] by (auto simp: sync_lock_test_and_set_def)
next
  case (contended old v)
  then have "lock_value s = 1" "v = 1"
    using held_by_value [OF assms(2)] by (auto simp: sync_lock_test_and_set_def)
  then show ?thesis using contended held_by_move [OF assms(2), of i Spinning v] by auto
next
  case pause
  then show ?thesis using assms(2) by auto
next
  case retry
  then show ?thesis using assms(2) by (intro exI [of _ h]) (auto simp: held_by_def)
next
  case (try_acquire v)
  then show ?thesis
    using held_by_take [OF assms(2), of i]
    by (auto simp: spinlock_trylock_def sync_lock_test_and_set_def)
next
  case (try_fail v)
  then have "lock_value s = 1" "v = 1"
    using held_by_value [OF assms(2)]
    by (auto simp: spinlock_trylock_def sync_lock_test_and_set_def)
  then have "t = s" using try_fail by (cases s) simp
  then show ?thesis using assms(2) by auto
next
  case leave
  then show ?thesis using held_by_release [OF assms(2), of i] by auto
qed

lemma lock_reachable_inv: "lock_reachable s \<Longrightarrow> lock_inv s"
proof (induction rule: lock_reachable.induct)
  case (init v v0)
  then have "held_by None \<lparr>lock_value = v0, pcs = (\<lambda>_. Outside)\<rparr>"
    by (simp add: held_by_def spinlock_init_def)
  then show ?case by (auto simp: lock_inv_def)
next
  case (step s i t)
  then show ?case using lock_step_held by (auto simp: lock_inv_def)
qed

text \<open>
  C7: No interleaving of processors that take the spinlock with lock or trylock puts two of
  them into the critical section, and the lock word is non-zero exactly while one is inside.
\<close>

theorem spinlock_mutual_exclusion:
  assumes "lock_reachable s"
  shows "(pcs s i = Critical \<and> pcs s j = Critical \<longrightarrow> i = j) \<and>
         (lock_value s \<noteq> 0 \<longleftrightarrow> (\<exists>k. pcs s k = Critical))"
proof -
  from lock_reachable_inv [OF assms] obtain h where "held_by h s" by (auto simp: lock_inv_def)
  then show ?thesis by (auto simp: held_by_def split: option.splits)
qed

lemma lock_reachable_two_cpus:
  "lock_reachable \<lparr>lock_value = 1, pcs = (\<lambda>_. Outside)(0 := Critical, Suc 0 := Spinning)\<rparr>"
proof -
  let ?s = "\<lambda>v p. \<lparr>lock_value = v, pcs = p\<rparr>"
  have 0: "lock_reachable (?s 0 (\<lambda>_. Outside))"
    by (rule lock_reachable.init [of 0]) (simp add: spinlock_init_def)
  have 1: "lock_reachable (?s 0 ((\<lambda>_. Outside)(0 := Test_And_Set)))"
    by (rule lock_reachable.step [OF 0], use lock_step.enter [of "?s 0 (\<lambda>_. Outside)" 0] in simp)
  have 2: "lock_reachable (?s 1 ((\<lambda>_. Outside)(0 := Critical)))"
    by (rule lock_reachable.step [OF 1],
        use lock_step.acquire [of "?s 0 ((\<lambda>_. Outside)(0 := Test_And_Set))" 0 1] in
        \<open>simp add: sync_lock_test_and_set_def\<close>)
  have 3: "lock_reachable (?s 1 ((\<lambda>_. Outside)(0 := Critical, Suc 0 := Test_And_Set)))"
    by (rule lock_reachable.step [OF 2],
        use lock_step.enter [of "?s 1 ((\<lambda>_. Outside)(0 := Critical))" "Suc 0"] in simp)
  show ?thesis
    by (rule lock_reachable.step [OF 3],
        use lock_step.contended
          [of "?s 1 ((\<lambda>_. Outside)(0 := Critical, Suc 0 := Test_And_Set))" "Suc 0" 1 1] in
        \<open>simp add: sync_lock_test_and_set_def\<close>)
qed

theorem spinlock_mutual_exclusion_witness:
  "pcs \<lparr>lock_value = 1, pcs = (\<lambda>_. Outside)(0 := Critical, Suc 0 := Spinning)\<rparr> 0 = Critical \<and>
   lock_value \<lparr>lock_value = 1 :: u32, pcs = (\<lambda>_. Outside)(0 := Critical, Suc 0 := Spinning)\<rparr> \<noteq> 0"
  using spinlock_mutual_exclusion [OF lock_reachable_two_cpus, of 0 0] by auto

end
