(* ===== verification/Kheap.thy ===== *)
theory Kheap
  imports Interfaces Spinlock
begin

text \<open>
  The kernel heap, \<^verbatim>\<open>mm/kheap.c\<close>: a singly linked list of blocks whose headers live in the
  heap memory itself. The first part translates the functions of the source over the flat
  memory; the second part relates a heap to the list of its blocks, shows that the code
  implements first fit with splitting and coalescing on that list, and derives that live
  allocations never overlap and keep their contents.
\<close>

section \<open>Model of the source\<close>

text \<open>
  \<^verbatim>\<open>KHeapBlock\<close> is 24 bytes: \<^verbatim>\<open>size\<close> at offset 0, \<^verbatim>\<open>is_free\<close> at offset 8 (then padding), \<^verbatim>\<open>next\<close> at
  offset 16.
\<close>

definition sizeof_KHeapBlock :: u64 where [c_defs]: "sizeof_KHeapBlock = 24"
definition KHEAP_MIN_BLOCK_SIZE :: u64 where [c_defs]: "KHEAP_MIN_BLOCK_SIZE = 16"

definition KHEAP_BLOCK_DATA :: "u64 \<Rightarrow> u64" where
  "KHEAP_BLOCK_DATA block = block + sizeof_KHeapBlock"

definition KHEAP_DATA_BLOCK :: "u64 \<Rightarrow> u64" where
  "KHEAP_DATA_BLOCK ptr = ptr - sizeof_KHeapBlock"

text \<open>The fields of the header at an address.\<close>

definition blk_size :: "mem \<Rightarrow> u64 \<Rightarrow> u64" where "blk_size m b = load_u64 m b"
definition blk_is_free :: "mem \<Rightarrow> u64 \<Rightarrow> bool" where "blk_is_free m b \<longleftrightarrow> m (b + 8) \<noteq> 0"
definition blk_next :: "mem \<Rightarrow> u64 \<Rightarrow> u64" where "blk_next m b = load_u64 m (b + 16)"

definition set_blk_size :: "u64 \<Rightarrow> u64 \<Rightarrow> mem \<Rightarrow> mem" where
  "set_blk_size b v m = store_u64 m b v"
definition set_blk_is_free :: "u64 \<Rightarrow> bool \<Rightarrow> mem \<Rightarrow> mem" where
  "set_blk_is_free b v m = m(b + 8 := (if v then 1 else 0))"
definition set_blk_next :: "u64 \<Rightarrow> u64 \<Rightarrow> mem \<Rightarrow> mem" where
  "set_blk_next b v m = store_u64 m (b + 16) v"

text \<open>The static variables, and the memory they point into. Address 0 is NULL.\<close>

record kheap_state =
  heap_start :: u64
  heap_total_size :: u64
  heap_lock :: spinlock
  heap_mem :: mem

definition align8 :: "u64 \<Rightarrow> u64" where
  "align8 sz = (sz + 7) AND NOT 7"

definition split_block :: "u64 \<Rightarrow> u64 \<Rightarrow> mem \<Rightarrow> mem" where
  "split_block block sz m =
     (let remaining = blk_size m block - sz;
          min_split_size = sizeof_KHeapBlock + KHEAP_MIN_BLOCK_SIZE
      in if remaining \<ge> min_split_size then
           let new_block = block + sizeof_KHeapBlock + sz;
               m1 = set_blk_size new_block (remaining - sizeof_KHeapBlock) m;
               m2 = set_blk_is_free new_block True m1;
               m3 = set_blk_next new_block (blk_next m2 block) m2;
               m4 = set_blk_size block sz m3
           in set_blk_next block new_block m4
         else m)"

definition heap_end :: "kheap_state \<Rightarrow> u64" where
  "heap_end s = heap_start s + heap_total_size s"

text \<open>The recursion of \<open>coalesce_block\<close> need not end on a cyclic list: not returning is \<open>None\<close>.\<close>

partial_function (option) coalesce_block :: "u64 \<Rightarrow> kheap_state \<Rightarrow> kheap_state option" where
  "coalesce_block block s =
     (if block = 0 \<or> blk_next (heap_mem s) block = 0 then Some s
      else
        let nxt = blk_next (heap_mem s) block in
        if nxt < heap_start s \<or> nxt \<ge> heap_end s then
          Some (s\<lparr>heap_mem := set_blk_next block 0 (heap_mem s)\<rparr>)
        else if blk_is_free (heap_mem s) nxt then
          let m = heap_mem s;
              m1 = set_blk_size block (blk_size m block + (sizeof_KHeapBlock + blk_size m nxt)) m;
              m2 = set_blk_next block (blk_next m1 (blk_next m1 block)) m1
          in coalesce_block block (s\<lparr>heap_mem := m2\<rparr>)
        else Some s)"

definition kheap_init :: "u64 \<Rightarrow> u64 \<Rightarrow> kheap_state \<Rightarrow> kheap_state" where
  "kheap_init start_addr size_bytes s =
     (let s1 = s\<lparr>heap_lock := the (spinlock_init (Some (heap_lock s)))\<rparr> in
      if start_addr = 0 \<or> size_bytes < sizeof_KHeapBlock + KHEAP_MIN_BLOCK_SIZE then s1
      else
        s1\<lparr>heap_start := start_addr, heap_total_size := size_bytes,
           heap_mem :=
             set_blk_next start_addr 0
               (set_blk_is_free start_addr True
                 (set_blk_size start_addr (size_bytes - sizeof_KHeapBlock) (heap_mem s1)))\<rparr>)"

text \<open>The search loop of \<open>kmalloc\<close>: the first free block that is large enough, or 0.\<close>

partial_function (option) find_fit :: "u64 \<Rightarrow> mem \<Rightarrow> u64 \<Rightarrow> u64 option" where
  "find_fit sz m current =
     (if current = 0 then Some 0
      else if blk_is_free m current \<and> blk_size m current \<ge> sz then Some current
      else find_fit sz m (blk_next m current))"

definition kmalloc :: "u64 \<Rightarrow> kheap_state \<Rightarrow> (u64 \<times> kheap_state) option" where
  "kmalloc sz s =
     (if sz = 0 \<or> heap_start s = 0 then Some (0, s)
      else
        let sz1 = align8 sz;
            sz2 = (if sz1 < KHEAP_MIN_BLOCK_SIZE then KHEAP_MIN_BLOCK_SIZE else sz1)
        in do {
          l \<leftarrow> spinlock_lock (heap_lock s);
          current \<leftarrow> find_fit sz2 (heap_mem s) (heap_start s);
          if current \<noteq> 0 then
            let m1 = split_block current sz2 (heap_mem s);
                m2 = set_blk_is_free current False m1
            in Some (KHEAP_BLOCK_DATA current,
                     s\<lparr>heap_lock := spinlock_unlock l, heap_mem := m2\<rparr>)
          else Some (0, s\<lparr>heap_lock := spinlock_unlock l\<rparr>)
        })"

text \<open>The second loop of \<open>kfree\<close>, with its iteration budget as the C \<^verbatim>\<open>int\<close> it is.\<close>

function coalesce_walk :: "int \<Rightarrow> u64 \<Rightarrow> kheap_state \<Rightarrow> kheap_state option" where
  "coalesce_walk max_iterations current s =
     (if current \<noteq> 0 \<and> max_iterations > 0 then
        if current < heap_start s \<or> current \<ge> heap_end s then Some s
        else do {
          s1 \<leftarrow> (if blk_is_free (heap_mem s) current then coalesce_block current s else Some s);
          coalesce_walk (max_iterations - 1) (blk_next (heap_mem s1) current) s1
        }
      else Some s)"
  by auto
termination by (relation "measure (\<lambda>(k, _, _). nat k)") auto

declare coalesce_walk.simps [simp del]

definition kfree :: "u64 \<Rightarrow> kheap_state \<Rightarrow> kheap_state option" where
  "kfree ptr s =
     (if ptr = 0 \<or> heap_start s = 0 then Some s
      else
        let block = KHEAP_DATA_BLOCK ptr in do {
          l \<leftarrow> spinlock_lock (heap_lock s);
          let s = s\<lparr>heap_lock := l\<rparr>;
          if block < heap_start s \<or> block \<ge> heap_end s then
            Some (s\<lparr>heap_lock := spinlock_unlock l\<rparr>)
          else do {
            let s = s\<lparr>heap_mem := set_blk_is_free block True (heap_mem s)\<rparr>;
            s \<leftarrow> coalesce_block block s;
            s \<leftarrow> coalesce_walk 10000 (heap_start s) s;
            Some (s\<lparr>heap_lock := spinlock_unlock (heap_lock s)\<rparr>)
          }
        })"

definition krealloc :: "u64 \<Rightarrow> u64 \<Rightarrow> kheap_state \<Rightarrow> (u64 \<times> kheap_state) option" where
  "krealloc ptr new_size s =
     (if ptr = 0 then kmalloc new_size s
      else if new_size = 0 then do { s \<leftarrow> kfree ptr s; Some (0, s) }
      else
        let block = KHEAP_DATA_BLOCK ptr in
        if block < heap_start s \<or> block \<ge> heap_end s then kmalloc new_size s
        else if blk_is_free (heap_mem s) block then kmalloc new_size s
        else
          let old_size = blk_size (heap_mem s) block;
              new_size = (new_size + 7) AND NOT 7
          in if new_size \<le> old_size then Some (ptr, s)
          else do {
            (new_ptr, s) \<leftarrow> kmalloc new_size s;
            if new_ptr = 0 then Some (0, s)
            else do {
              let copy_size = (if old_size < new_size then old_size else new_size);
              let s = s\<lparr>heap_mem := copy_loop new_ptr ptr (unat copy_size) (heap_mem s)\<rparr>;
              s \<leftarrow> kfree ptr s;
              Some (new_ptr, s)
            }
          })"

definition kheap_get_total_size :: "kheap_state \<Rightarrow> u64" where
  "kheap_get_total_size s = heap_total_size s"

text \<open>The list walks of the statistics functions: \<open>acc\<close> is folded over the headers.\<close>

partial_function (option) walk_blocks :: "(mem \<Rightarrow> u64 \<Rightarrow> u64 \<Rightarrow> u64) \<Rightarrow> mem \<Rightarrow> u64 \<Rightarrow> u64 \<Rightarrow> u64 option" where
  "walk_blocks f m current acc =
     (if current = 0 then Some acc
      else walk_blocks f m (blk_next m current) (f m current acc))"

definition locked_walk ::
  "(mem \<Rightarrow> u64 \<Rightarrow> u64 \<Rightarrow> u64) \<Rightarrow> kheap_state \<Rightarrow> (u64 \<times> kheap_state) option" where
  "locked_walk f s = do {
     l \<leftarrow> spinlock_lock (heap_lock s);
     r \<leftarrow> walk_blocks f (heap_mem s) (heap_start s) 0;
     Some (r, s\<lparr>heap_lock := spinlock_unlock l\<rparr>)
   }"

definition kheap_get_free_size :: "kheap_state \<Rightarrow> (u64 \<times> kheap_state) option" where
  "kheap_get_free_size =
     locked_walk (\<lambda>m b free_size. if blk_is_free m b then free_size + blk_size m b else free_size)"

definition kheap_get_block_count :: "kheap_state \<Rightarrow> (u64 \<times> kheap_state) option" where
  "kheap_get_block_count = locked_walk (\<lambda>m b count. count + 1)"

definition kheap_get_free_block_count :: "kheap_state \<Rightarrow> (u64 \<times> kheap_state) option" where
  "kheap_get_free_block_count =
     locked_walk (\<lambda>m b count. if blk_is_free m b then count + 1 else count)"

definition malloc :: "u64 \<Rightarrow> kheap_state \<Rightarrow> (u64 \<times> kheap_state) option" where
  "malloc sz = kmalloc sz"

definition free_std :: "u64 \<Rightarrow> kheap_state \<Rightarrow> kheap_state option" where
  "free_std ptr = kfree ptr"

section \<open>Headers in memory\<close>

text \<open>Two memories that agree on the byte addresses of a set.\<close>

definition agree :: "nat set \<Rightarrow> mem \<Rightarrow> mem \<Rightarrow> bool" where
  "agree A m m' \<longleftrightarrow> (\<forall>x \<in> A. x < addr_space \<longrightarrow> m' (of_nat x) = m (of_nat x))"

lemma agree_refl [simp]: "agree A m m"
  by (simp add: agree_def)

lemma agree_trans: "agree A m m' \<Longrightarrow> agree A m' m'' \<Longrightarrow> agree A m m''"
  by (simp add: agree_def)

lemma agree_mono: "agree A m m' \<Longrightarrow> B \<subseteq> A \<Longrightarrow> agree B m m'"
  by (auto simp: agree_def)

lemma agree_sym: "agree A m m' \<Longrightarrow> agree A m' m"
  by (simp add: agree_def)

text \<open>The header at address \<open>a\<close> says: \<open>n\<close> bytes, free or not, next block at \<open>nx\<close>.\<close>

definition header :: "mem \<Rightarrow> nat \<Rightarrow> nat \<Rightarrow> bool \<Rightarrow> u64 \<Rightarrow> bool" where
  "header m a n f nx \<longleftrightarrow>
     blk_size m (of_nat a) = of_nat n \<and> blk_is_free m (of_nat a) = f \<and> blk_next m (of_nat a) = nx"

lemma header_agree:
  assumes "agree {a..<a + 24} m m'" and "a + 24 \<le> addr_space" and "header m a n f nx"
  shows "header m' a n f nx"
proof -
  have eq: "m' (of_nat x) = m (of_nat x)" if "a \<le> x" "x < a + 24" for x
    using assms(1,2) that by (auto simp: agree_def)
  have "load_u64 m' (of_nat a) = load_u64 m (of_nat a)"
    by (rule load_u64_cong) (use eq in auto)
  moreover have "load_u64 m' (of_nat (a + 16)) = load_u64 m (of_nat (a + 16))"
    by (rule load_u64_cong) (use eq in auto)
  moreover have "m' (of_nat (a + 8)) = m (of_nat (a + 8))"
    by (rule eq) auto
  ultimately show ?thesis
    using assms(3) by (simp add: header_def blk_size_def blk_is_free_def blk_next_def)
qed

lemma set_blk_size_agree:
  "a + 24 \<le> addr_space \<Longrightarrow> agree (- {a..<a + 24}) m (set_blk_size (of_nat a) v m)"
  unfolding agree_def set_blk_size_def by (auto simp: store_u64_at)

lemma set_blk_is_free_agree:
  assumes "a + 24 \<le> addr_space"
  shows "agree (- {a..<a + 24}) m (set_blk_is_free (of_nat a) v m)"
proof -
  have "(of_nat x :: u64) \<noteq> of_nat (a + 8)" if "x \<notin> {a..<a + 24}" "x < addr_space" for x
    using that assms by (subst of_nat_addr_eq_iff) auto
  then show ?thesis by (auto simp: agree_def set_blk_is_free_def)
qed

lemma set_blk_next_agree:
  assumes "a + 24 \<le> addr_space"
  shows "agree (- {a..<a + 24}) m (set_blk_next (of_nat a) v m)"
proof -
  have "store_u64 m (of_nat (a + 16)) v (of_nat x) = m (of_nat x)"
    if "x \<notin> {a..<a + 24}" "x < addr_space" for x
    using that assms by (subst store_u64_at) auto
  then show ?thesis by (auto simp: agree_def set_blk_next_def)
qed

lemmas set_blk_agree = set_blk_size_agree set_blk_is_free_agree set_blk_next_agree

text \<open>Each setter changes its own field of the header and leaves the other two alone.\<close>

lemma header_set_size:
  assumes "a + 24 \<le> addr_space" and "header m a n f nx"
  shows "header (set_blk_size (of_nat a) (of_nat n') m) a n' f nx"
proof -
  have "load_u64 (store_u64 m (of_nat a) v) (of_nat (a + 16)) = load_u64 m (of_nat (a + 16))" for v
    using assms(1) by (intro load_store_u64_other) auto
  moreover have "store_u64 m (of_nat a) v (of_nat (a + 8)) = m (of_nat (a + 8))" for v
    using assms(1) by (subst store_u64_at) auto
  ultimately show ?thesis
    using assms by (simp add: header_def set_blk_size_def blk_size_def blk_is_free_def blk_next_def)
qed

lemma header_set_next:
  assumes "a + 24 \<le> addr_space" and "header m a n f nx"
  shows "header (set_blk_next (of_nat a) nx' m) a n f nx'"
proof -
  have "load_u64 (store_u64 m (of_nat (a + 16)) v) (of_nat a) = load_u64 m (of_nat a)" for v
    using assms(1) by (intro load_store_u64_other) auto
  moreover have "store_u64 m (of_nat (a + 16)) v (of_nat (a + 8)) = m (of_nat (a + 8))" for v
    using assms(1) by (subst store_u64_at) auto
  moreover have "load_u64 (store_u64 m (of_nat (a + 16)) v) (of_nat (a + 16)) = v" for v
    using assms(1) by (intro load_store_u64_same) auto
  ultimately show ?thesis
    using assms by (simp add: header_def set_blk_next_def blk_size_def blk_is_free_def blk_next_def)
qed

lemma header_set_is_free:
  assumes "a + 24 \<le> addr_space" and "header m a n f nx"
  shows "header (set_blk_is_free (of_nat a) f' m) a n f' nx"
proof -
  let ?m = "m(of_nat (a + 8) := (if f' then 1 else 0))"
  have ne: "(of_nat x :: u64) \<noteq> of_nat (a + 8)" if "x < a + 24" "x \<noteq> a + 8" for x
    using that assms(1) by (subst of_nat_addr_eq_iff) auto
  have "load_u64 ?m (of_nat a) = load_u64 m (of_nat a)"
    by (rule load_u64_cong) (use ne in auto)
  moreover have "load_u64 ?m (of_nat (a + 16)) = load_u64 m (of_nat (a + 16))"
    by (rule load_u64_cong) (use ne in auto)
  ultimately show ?thesis
    using assms
    by (simp add: header_def set_blk_is_free_def blk_size_def blk_is_free_def blk_next_def)
qed

lemma header_write:
  assumes "a + 24 \<le> addr_space"
  shows "header (set_blk_next (of_nat a) nx (set_blk_is_free (of_nat a) f
           (set_blk_size (of_nat a) (of_nat n) m))) a n f nx"
proof -
  let ?m0 = "set_blk_size (of_nat a) (of_nat n) m"
  have "header ?m0 a n (blk_is_free ?m0 (of_nat a)) (blk_next ?m0 (of_nat a))"
    using assms by (simp add: header_def set_blk_size_def blk_size_def)
  then show ?thesis by (rule header_set_next [OF assms header_set_is_free [OF assms]])
qed

section \<open>Heaps as block lists\<close>

text \<open>A block is its number of data bytes and whether it is free; blocks follow each other.\<close>

type_synonym block_list = "(nat \<times> bool) list"

primrec extent :: "block_list \<Rightarrow> nat" where
  "extent [] = 0"
| "extent (b # bs) = 24 + fst b + extent bs"

text \<open>The byte addresses of the headers of blocks laid out from address \<open>a\<close>.\<close>

fun headers :: "nat \<Rightarrow> block_list \<Rightarrow> nat set" where
  "headers a [] = {}"
| "headers a ((n, f) # bs) = {a..<a + 24} \<union> headers (a + 24 + n) bs"

text \<open>The allocations: data address and size of the blocks in use.\<close>

fun live :: "nat \<Rightarrow> block_list \<Rightarrow> (nat \<times> nat) set" where
  "live a [] = {}"
| "live a ((n, f) # bs) = (if f then {} else {(a + 24, n)}) \<union> live (a + 24 + n) bs"

text \<open>The linked list of headers from address \<open>a\<close>, its last \<^verbatim>\<open>next\<close> being \<open>e\<close>.\<close>

definition link :: "nat \<Rightarrow> block_list \<Rightarrow> u64 \<Rightarrow> u64" where
  "link a bs e = (if bs = [] then e else of_nat a)"

fun seg :: "mem \<Rightarrow> nat \<Rightarrow> block_list \<Rightarrow> u64 \<Rightarrow> bool" where
  "seg m a [] e \<longleftrightarrow> True"
| "seg m a ((n, f) # bs) e \<longleftrightarrow>
     header m a n f (link (a + 24 + n) bs e) \<and> seg m (a + 24 + n) bs e"

lemma link_simps [simp]: "link a [] e = e" "link a (b # bs) e = of_nat a"
  by (simp_all add: link_def)

lemma extent_append [simp]: "extent (xs @ ys) = extent xs + extent ys"
  by (induction xs) auto

lemma headers_subset: "headers a bs \<subseteq> {a..<a + extent bs}"
  by (induction a bs rule: headers.induct) (force simp: subset_iff)+

lemma headers_above: "x \<in> headers a bs \<Longrightarrow> a \<le> x"
  using headers_subset [of a bs] by auto

lemma headers_append: "headers a (xs @ ys) = headers a xs \<union> headers (a + extent xs) ys"
  by (induction a xs rule: headers.induct) (auto simp: add.assoc)

lemma live_append: "live a (xs @ ys) = live a xs \<union> live (a + extent xs) ys"
  by (induction a xs rule: live.induct) (auto simp: add.assoc)

lemma live_bounds:
  "(p, n) \<in> live a bs \<Longrightarrow> a + 24 \<le> p \<and> p + n \<le> a + extent bs"
  by (induction a bs rule: live.induct) (fastforce split: if_splits)+

lemma live_not_header:
  "(p, n) \<in> live a bs \<Longrightarrow> {p..<p + n} \<inter> headers a bs = {}"
proof (induction a bs rule: live.induct)
  case (1 a)
  then show ?case by simp
next
  case (2 a k f bs)
  show ?case
  proof (cases "(p, n) \<in> live (a + 24 + k) bs")
    case True
    then show ?thesis using "2.IH" live_bounds [OF True] by fastforce
  next
    case False
    then have "p = a + 24" "n = k" using "2.prems" by (auto split: if_splits)
    then show ?thesis using headers_subset [of "a + 24 + k" bs] by fastforce
  qed
qed

lemma live_disjoint:
  "(p, n) \<in> live a bs \<Longrightarrow> (q, k) \<in> live a bs \<Longrightarrow> (p, n) \<noteq> (q, k) \<Longrightarrow> p + n < q \<or> q + k < p"
proof (induction a bs rule: live.induct)
  case (1 a)
  then show ?case by simp
next
  case (2 a l f bs)
  then show ?case
    using live_bounds [of p n "a + 24 + l" bs] live_bounds [of q k "a + 24 + l" bs]
    by (auto split: if_splits)
qed

lemma seg_agree:
  "seg m a bs e \<Longrightarrow> agree (headers a bs) m m' \<Longrightarrow> a + extent bs \<le> addr_space \<Longrightarrow> seg m' a bs e"
proof (induction a bs rule: headers.induct)
  case (1 a)
  then show ?case by simp
next
  case (2 a n f bs)
  have "header m' a n f (link (a + 24 + n) bs e)"
    by (rule header_agree [of a m]) (use 2 in \<open>auto elim: agree_mono\<close>)
  moreover have "seg m' (a + 24 + n) bs e"
    by (rule "2.IH") (use 2 in \<open>auto elim: agree_mono\<close>)
  ultimately show ?case by simp
qed

lemma seg_append:
  "seg m a (xs @ ys) e \<longleftrightarrow>
   seg m a xs (link (a + extent xs) ys e) \<and> seg m (a + extent xs) ys e"
  by (induction a xs rule: headers.induct) (auto simp: link_def add.assoc)

section \<open>Specification on block lists\<close>

text \<open>What a free block of \<open>n\<close> bytes becomes when \<open>k\<close> of them are taken.\<close>

definition carve :: "nat \<Rightarrow> nat \<Rightarrow> block_list" where
  "carve k n = (if 40 \<le> n - k then [(k, False), (n - k - 24, True)] else [(n, False)])"

text \<open>First fit: the data address and the new list, if some free block has \<open>k\<close> bytes.\<close>

fun spec_alloc :: "nat \<Rightarrow> nat \<Rightarrow> block_list \<Rightarrow> (nat \<times> block_list) option" where
  "spec_alloc k a [] = None"
| "spec_alloc k a ((n, f) # bs) =
     (if f \<and> k \<le> n then Some (a + 24, carve k n @ bs)
      else map_option (\<lambda>(p, bs'). (p, (n, f) # bs')) (spec_alloc k (a + 24 + n) bs))"

text \<open>A block of \<open>n\<close> bytes takes over the free blocks that follow it.\<close>

fun absorb :: "nat \<Rightarrow> block_list \<Rightarrow> nat \<times> block_list" where
  "absorb n [] = (n, [])"
| "absorb n ((k, f) # bs) = (if f then absorb (n + 24 + k) bs else (n, (k, f) # bs))"

text \<open>Release of the block with data address \<open>p\<close>, and the merging pass over \<open>k\<close> blocks.\<close>

fun release :: "nat \<Rightarrow> nat \<Rightarrow> block_list \<Rightarrow> block_list" where
  "release p a [] = []"
| "release p a ((n, f) # bs) =
     (if p = a + 24 then (fst (absorb n bs), True) # snd (absorb n bs)
      else (n, f) # release p (a + 24 + n) bs)"

fun merge :: "nat \<Rightarrow> block_list \<Rightarrow> block_list" where
  "merge 0 bs = bs"
| "merge (Suc k) [] = []"
| "merge (Suc k) ((n, f) # bs) =
     (if f then (fst (absorb n bs), True) # merge k (snd (absorb n bs))
      else (n, f) # merge k bs)"

definition spec_free :: "nat \<Rightarrow> nat \<Rightarrow> block_list \<Rightarrow> block_list" where
  "spec_free p a bs = merge 10000 (release p a bs)"

text \<open>No two neighbours are free.\<close>

fun coalesced :: "block_list \<Rightarrow> bool" where
  "coalesced (x # y # bs) \<longleftrightarrow> \<not> (snd x \<and> snd y) \<and> coalesced (y # bs)"
| "coalesced _ \<longleftrightarrow> True"

definition big_enough :: "block_list \<Rightarrow> bool" where
  "big_enough bs \<longleftrightarrow> (\<forall>b \<in> set bs. 16 \<le> fst b)"

lemma extent_carve [simp]: "k \<le> n \<Longrightarrow> extent (carve k n) = 24 + n"
  by (auto simp: carve_def)

lemma absorb_extent: "24 + fst (absorb n bs) + extent (snd (absorb n bs)) = 24 + n + extent bs"
  by (induction n bs rule: absorb.induct) auto

lemma absorb_length: "length (snd (absorb n bs)) \<le> length bs"
  by (induction n bs rule: absorb.induct) auto

lemma absorb_ge: "n \<le> fst (absorb n bs)"
  by (induction n bs rule: absorb.induct) auto

lemma absorb_big: "big_enough bs \<Longrightarrow> big_enough (snd (absorb n bs))"
  by (induction n bs rule: absorb.induct) (auto simp: big_enough_def)

lemma absorb_live:
  "live (a + 24 + fst (absorb n bs)) (snd (absorb n bs)) = live (a + 24 + n) bs"
  by (induction n bs rule: absorb.induct) (auto simp: add.assoc)

lemma absorb_headers: "headers (a + 24 + fst (absorb n bs)) (snd (absorb n bs)) \<subseteq> headers (a + 24 + n) bs"
  by (induction n bs rule: absorb.induct) (auto simp: add.assoc)

lemma absorb_stops: "snd (absorb n bs) = [] \<or> \<not> snd (hd (snd (absorb n bs)))"
  by (induction n bs rule: absorb.induct) auto

lemma absorb_idem: "bs = [] \<or> \<not> snd (hd bs) \<Longrightarrow> absorb n bs = (n, bs)"
  by (cases bs) auto

lemma merge_Nil: "merge k bs = [] \<longleftrightarrow> bs = []"
  by (cases "(k, bs)" rule: merge.cases) auto

lemma merge_extent: "extent (merge k bs) = extent bs"
proof (induction k bs rule: merge.induct)
  case (3 k n f bs)
  then show ?case using absorb_extent [of n bs] by auto
qed auto

lemma merge_big: "big_enough bs \<Longrightarrow> big_enough (merge k bs)"
proof (induction k bs rule: merge.induct)
  case (3 k n f bs)
  then show ?case using absorb_ge [of n bs] absorb_big [of bs n] by (auto simp: big_enough_def)
qed auto

lemma merge_live: "live a (merge k bs) = live a bs"
proof (induction k bs arbitrary: a rule: merge.induct)
  case (3 k n f bs)
  then show ?case using absorb_live [of a n bs] by auto
qed auto

lemma merge_hd: "bs = [] \<or> \<not> snd (hd bs) \<Longrightarrow> merge k bs = [] \<or> \<not> snd (hd (merge k bs))"
  by (cases "(k, bs)" rule: merge.cases) auto

lemma coalesced_Cons:
  "coalesced (x # bs) \<longleftrightarrow> (bs = [] \<or> \<not> (snd x \<and> snd (hd bs))) \<and> coalesced bs"
  by (cases bs) auto

lemma merge_coalesced: "length bs \<le> k \<Longrightarrow> coalesced (merge k bs)"
proof (induction k bs rule: merge.induct)
  case (3 k n f bs)
  show ?case
  proof (cases f)
    case True
    have "coalesced (merge k (snd (absorb n bs)))"
      using 3 True absorb_length [of n bs] by auto
    then show ?thesis
      using True merge_hd [OF absorb_stops, of k n bs] by (auto simp: coalesced_Cons)
  next
    case False
    then show ?thesis using 3 by (auto simp: coalesced_Cons)
  qed
qed auto

lemma merge_idem: "coalesced bs \<Longrightarrow> merge k bs = bs"
proof (induction k bs rule: merge.induct)
  case (3 k n f bs)
  then have "f \<Longrightarrow> absorb n bs = (n, bs)" by (intro absorb_idem) (auto simp: coalesced_Cons)
  with 3 show ?case by (auto simp: coalesced_Cons)
qed auto

lemma release_append:
  assumes "p = a + extent xs + 24"
  shows "release p a (xs @ (n, f) # ys) =
    xs @ (fst (absorb n ys), True) # snd (absorb n ys)"
  using assms by (induction a xs rule: headers.induct) auto

lemma live_split:
  "(p, n) \<in> live a bs \<Longrightarrow> \<exists>xs ys. bs = xs @ (n, False) # ys \<and> p = a + extent xs + 24"
proof (induction a bs rule: live.induct)
  case (1 a)
  then show ?case by simp
next
  case (2 a k f bs)
  show ?case
  proof (cases "(p, n) \<in> live (a + 24 + k) bs")
    case True
    from "2.IH" [OF True] obtain xs ys
      where "bs = xs @ (n, False) # ys" "p = a + 24 + k + extent xs + 24" by blast
    then show ?thesis by (intro exI [of _ "(k, f) # xs"] exI [of _ ys]) simp
  next
    case False
    then have "p = a + 24" "n = k" "\<not> f" using "2.prems" by (auto split: if_splits)
    then show ?thesis by (intro exI [of _ "[]"] exI [of _ bs]) simp
  qed
qed

section \<open>The code implements the specification\<close>

lemma of_nat_diff_u64: "k \<le> n \<Longrightarrow> (of_nat n - of_nat k :: u64) = of_nat (n - k)"
  by (simp add: of_nat_diff)

lemma split_block_small:
  assumes "header m a n True nx" and "k \<le> n" and "n < addr_space" and "n - k < 40"
  shows "split_block (of_nat a) (of_nat k) m = m"
proof -
  have "\<not> (40 :: u64) \<le> of_nat (n - k)"
    using assms(3,4) by (simp add: word_le_nat_alt)
  with assms(1,2) show ?thesis
    by (simp add: split_block_def header_def c_defs of_nat_diff_u64 Let_def del: of_nat_diff)
qed

lemma split_block_large:
  assumes "header m a n True nx" and "k \<le> n" and "a + 24 + n \<le> addr_space" and "40 \<le> n - k"
  defines "c \<equiv> a + 24 + k"
  shows "header (split_block (of_nat a) (of_nat k) m) a k True (of_nat c) \<and>
         header (split_block (of_nat a) (of_nat k) m) c (n - k - 24) True nx \<and>
         agree (- ({a..<a + 24} \<union> {c..<c + 24})) m (split_block (of_nat a) (of_nat k) m)"
proof -
  have ge: "(40 :: u64) \<le> of_nat (n - k)"
    using assms(3,4) by (simp add: word_le_nat_alt del: of_nat_diff)
  have bnd: "a + 24 \<le> addr_space" "c + 24 \<le> addr_space" "a + 24 \<le> c"
    using assms(2-4) by (auto simp: c_def)
  have c: "(of_nat a + 24 + of_nat k :: u64) = of_nat c" by (simp add: c_def)
  have r: "(of_nat (n - k) - 24 :: u64) = of_nat (n - k - 24)"
    using of_nat_diff_u64 [of 24 "n - k"] assms(4) by simp
  define m2 where "m2 = set_blk_is_free (of_nat c) True
    (set_blk_size (of_nat c) (of_nat (n - k - 24)) m)"
  define m3 where "m3 = set_blk_next (of_nat c) nx m2"
  define m5 where "m5 = set_blk_next (of_nat a) (of_nat c) (set_blk_size (of_nat a) (of_nat k) m3)"
  have ag2: "agree (- {c..<c + 24}) m m2"
    unfolding m2_def by (rule agree_trans [OF set_blk_size_agree set_blk_is_free_agree]) (use bnd in auto)
  then have ag3: "agree (- {c..<c + 24}) m m3"
    unfolding m3_def by (rule agree_trans [OF _ set_blk_next_agree]) (use bnd in auto)
  have ag5: "agree (- {a..<a + 24}) m3 m5"
    unfolding m5_def by (rule agree_trans [OF set_blk_size_agree set_blk_next_agree]) (use bnd in auto)
  have "header m2 a n True nx"
    by (rule header_agree [OF _ _ assms(1)]) (use ag2 bnd in \<open>auto elim!: agree_mono\<close>)
  then have nx: "blk_next m2 (of_nat a) = nx" by (simp add: header_def)
  have "split_block (of_nat a) (of_nat k) m = m5"
    using assms(1,2) ge nx
    by (simp add: split_block_def header_def c_defs of_nat_diff_u64 Let_def c r m5_def m3_def m2_def
             del: of_nat_diff)
  moreover have "header m3 a n True nx"
    by (rule header_agree [OF _ _ assms(1)]) (use ag3 bnd in \<open>auto elim!: agree_mono\<close>)
  then have "header m5 a k True (of_nat c)"
    unfolding m5_def by (intro header_set_next header_set_size) (use bnd in auto)
  moreover have "header m3 c (n - k - 24) True nx"
    unfolding m3_def m2_def by (rule header_write) (use bnd in auto)
  then have "header m5 c (n - k - 24) True nx"
    by (rule header_agree [rotated 2]) (use ag5 bnd in \<open>auto elim!: agree_mono\<close>)
  moreover have "agree (- ({a..<a + 24} \<union> {c..<c + 24})) m m5"
    by (rule agree_trans [of _ _ m3]) (use ag3 ag5 in \<open>auto elim!: agree_mono\<close>)
  ultimately show ?thesis by simp
qed

text \<open>Taking \<open>k\<close> bytes of the free block at \<open>a\<close>: split it if it is large, and mark it used.\<close>

lemma take_block_seg:
  assumes "seg m a ((n, True) # bs) e" and "k \<le> n" and "a + 24 + n + extent bs \<le> addr_space"
  defines "m' \<equiv> set_blk_is_free (of_nat a) False (split_block (of_nat a) (of_nat k) m)"
  shows "seg m' a (carve k n @ bs) e \<and> agree (- {a..<a + 24 + n}) m m'"
proof -
  let ?s = "split_block (of_nat a) (of_nat k) m"
  have hd: "header m a n True (link (a + 24 + n) bs e)" and tl: "seg m (a + 24 + n) bs e"
    using assms(1) by simp_all
  have bnd: "a + 24 \<le> addr_space" "a + 24 + n \<le> addr_space" using assms(3) by auto
  have ag': "agree (- {a..<a + 24}) ?s m'"
    unfolding m'_def by (rule set_blk_is_free_agree [OF bnd(1)])
  have tl': "seg m' (a + 24 + n) bs e" if "agree (- {a..<a + 24 + n}) m m'"
    using that headers_subset [of "a + 24 + n" bs] assms(3)
    by (intro seg_agree [OF tl]) (auto elim!: agree_mono)
  show ?thesis
  proof (cases "40 \<le> n - k")
    case True
    let ?c = "a + 24 + k"
    note split = split_block_large [OF hd assms(2) bnd(2) True]
    have "header m' a k False (of_nat ?c)"
      using split unfolding m'_def by (intro header_set_is_free bnd) auto
    moreover have "agree {?c..<?c + 24} ?s m'" by (rule agree_mono [OF ag']) auto
    then have "header m' ?c (n - k - 24) True (link (a + 24 + n) bs e)"
      using split True bnd by (intro header_agree [of ?c ?s m']) auto
    moreover have "agree (- {a..<a + 24 + n}) m ?s"
      by (rule agree_mono [OF split [THEN conjunct2, THEN conjunct2]]) (use True in auto)
    then have "agree (- {a..<a + 24 + n}) m m'"
      by (rule agree_trans) (rule agree_mono [OF ag'], auto)
    ultimately show ?thesis using True tl' assms(2)
      by (simp add: carve_def add.commute add.left_commute)
  next
    case False
    then have "?s = m" using split_block_small [OF hd assms(2)] bnd by auto
    then have "agree (- {a..<a + 24 + n}) m m'" using ag' by (auto elim!: agree_mono)
    moreover have "header m' a n False (link (a + 24 + n) bs e)"
      using hd bnd \<open>?s = m\<close> unfolding m'_def by (auto intro: header_set_is_free)
    ultimately show ?thesis using False tl' by (auto simp: carve_def)
  qed
qed

lemma find_fit_step:
  assumes "seg m a ((n, f) # bs) 0" and "0 < a" and "a + 24 + n < addr_space" and "k < addr_space"
  shows "find_fit (of_nat k) m (of_nat a) =
    (if f \<and> k \<le> n then Some (of_nat a) else find_fit (of_nat k) m (link (a + 24 + n) bs 0))"
  using assms by (subst find_fit.simps) (simp add: header_def)

lemma find_fit_none:
  assumes "seg m a bs 0" and "0 < a" and "a + extent bs < addr_space" and "k < addr_space"
    and "\<forall>(n, f) \<in> set bs. \<not> (f \<and> k \<le> n)"
  shows "find_fit (of_nat k) m (link a bs 0) = Some 0"
  using assms
proof (induction a bs rule: headers.induct)
  case (1 a)
  then show ?case by (simp add: find_fit.simps)
next
  case (2 a n f bs)
  then show ?case by (simp add: find_fit_step)
qed

lemma find_fit_some:
  assumes "seg m a (xs @ (n, True) # ys) 0" and "0 < a" and "k \<le> n"
    and "a + extent (xs @ (n, True) # ys) < addr_space"
    and "\<forall>(n, f) \<in> set xs. \<not> (f \<and> k \<le> n)"
  shows "find_fit (of_nat k) m (link a (xs @ (n, True) # ys) 0) = Some (of_nat (a + extent xs))"
  using assms
proof (induction a xs rule: headers.induct)
  case (1 a)
  then show ?case by (simp add: find_fit_step)
next
  case (2 a l f bs)
  let ?bs = "bs @ (n, True) # ys"
  have "find_fit (of_nat k) m (of_nat a) = find_fit (of_nat k) m (link (a + 24 + l) ?bs 0)"
    using find_fit_step [of m a l f ?bs k] "2.prems" by auto
  moreover have "find_fit (of_nat k) m (link (a + 24 + l) ?bs 0) =
      Some (of_nat (a + 24 + l + extent bs))"
    using "2.prems" by (intro "2.IH") auto
  ultimately show ?case by (simp add: add.assoc)
qed

lemma spec_alloc_None: "spec_alloc k a bs = None \<longleftrightarrow> (\<forall>(n, f) \<in> set bs. \<not> (f \<and> k \<le> n))"
  by (induction k a bs rule: spec_alloc.induct) auto

lemma spec_alloc_Some:
  "spec_alloc k a bs = Some (p, bs') \<Longrightarrow>
   \<exists>xs n ys. bs = xs @ (n, True) # ys \<and> k \<le> n \<and> (\<forall>(n, f) \<in> set xs. \<not> (f \<and> k \<le> n)) \<and>
     p = a + extent xs + 24 \<and> bs' = xs @ carve k n @ ys"
proof (induction k a bs arbitrary: bs' rule: spec_alloc.induct)
  case (1 k a)
  then show ?case by simp
next
  case (2 k a n f bs)
  show ?case
  proof (cases "f \<and> k \<le> n")
    case True
    then show ?thesis using "2.prems" by (intro exI [of _ "[]"] exI [of _ n] exI [of _ bs]) simp
  next
    case False
    with "2.prems" obtain cs where cs: "spec_alloc k (a + 24 + n) bs = Some (p, cs)"
      "bs' = (n, f) # cs" by auto
    from "2.IH" [OF False cs(1)] obtain xs l ys where
      "bs = xs @ (l, True) # ys" "k \<le> l" "\<forall>(n, f) \<in> set xs. \<not> (f \<and> k \<le> n)"
      "p = a + 24 + n + extent xs + 24" "cs = xs @ carve k l @ ys" by blast
    then show ?thesis using False cs(2)
      by (intro exI [of _ "(n, f) # xs"] exI [of _ l] exI [of _ ys]) auto
  qed
qed

text \<open>Coalescing: the block at \<open>a\<close> absorbs the free blocks behind it, writing only its own header.\<close>

definition heap_holds :: "kheap_state \<Rightarrow> nat \<Rightarrow> block_list \<Rightarrow> bool" where
  "heap_holds s a bs \<longleftrightarrow> unat (heap_start s) \<le> a \<and> 0 < unat (heap_start s) \<and>
     a + extent bs = unat (heap_start s) + unat (heap_total_size s) \<and> a + extent bs < addr_space"

lemma heap_holds_update [simp]:
  "heap_holds (s\<lparr>heap_mem := m\<rparr>) a bs = heap_holds s a bs"
  "heap_holds (s\<lparr>heap_lock := l\<rparr>) a bs = heap_holds s a bs"
  by (simp_all add: heap_holds_def)

lemma heap_holds_same_extent: "heap_holds s a bs \<Longrightarrow> extent bs' = extent bs \<Longrightarrow> heap_holds s a bs'"
  by (simp add: heap_holds_def)

lemma heap_holds_suffix: "heap_holds s a (xs @ ys) \<Longrightarrow> heap_holds s (a + extent xs) ys"
  by (auto simp: heap_holds_def)

lemma heap_holds_Cons: "heap_holds s a ((n, f) # bs) \<Longrightarrow> heap_holds s (a + 24 + n) bs"
  by (auto simp: heap_holds_def)

lemma heap_end_eq:
  assumes "heap_holds s a bs"
  shows "heap_end s = of_nat (a + extent bs)"
proof -
  have "heap_end s = of_nat (unat (heap_start s) + unat (heap_total_size s))"
    by (simp add: heap_end_def)
  moreover have "unat (heap_start s) + unat (heap_total_size s) = a + extent bs"
    using assms by (simp add: heap_holds_def)
  ultimately show ?thesis by (simp only:)
qed

lemma heap_holds_in:
  assumes "heap_holds s a (b # bs)"
  shows "(of_nat a :: u64) \<noteq> 0" "\<not> of_nat a < heap_start s" "\<not> heap_end s \<le> of_nat a"
proof -
  have lt: "a < a + extent (b # bs)" "a + extent (b # bs) < addr_space"
    using assms by (auto simp: heap_holds_def)
  show "\<not> heap_end s \<le> of_nat a"
    unfolding heap_end_eq [OF assms] using lt by (subst of_nat_addr_le_iff) auto
  show "(of_nat a :: u64) \<noteq> 0" "\<not> of_nat a < heap_start s"
    using assms lt by (auto simp: heap_holds_def word_less_nat_alt)
qed

lemma coalesce_block_seg:
  assumes "seg (heap_mem s) a ((n, f) # bs) 0" and "heap_holds s a ((n, f) # bs)"
  shows "\<exists>m'. coalesce_block (of_nat a) s = Some (s\<lparr>heap_mem := m'\<rparr>) \<and>
    seg m' a ((fst (absorb n bs), f) # snd (absorb n bs)) 0 \<and>
    agree (- {a..<a + 24}) (heap_mem s) m'"
  using assms
proof (induction n bs arbitrary: s rule: absorb.induct)
  case (1 n)
  then show ?case
    by (intro exI [of _ "heap_mem s"], subst coalesce_block.simps) (simp add: header_def)
next
  case (2 n k g bs)
  let ?b = "a + 24 + n" and ?m = "heap_mem s"
  have hd: "header ?m a n f (of_nat ?b)" and hb: "header ?m ?b k g (link (?b + 24 + k) bs 0)"
    and tl: "seg ?m (?b + 24 + k) bs 0" using "2.prems"(1) by simp_all
  have a0: "(of_nat a :: u64) \<noteq> 0" using heap_holds_in [OF "2.prems"(2)] by simp
  have "heap_holds s ?b ((k, g) # bs)"
    by (rule heap_holds_Cons [OF "2.prems"(2)])
  note inb = heap_holds_in [OF this]
  have bnd: "a + 24 \<le> addr_space" "?b + 24 + k + extent bs \<le> addr_space"
    using "2.prems"(2) by (auto simp: heap_holds_def)
  show ?case
  proof (cases g)
    case False
    then show ?thesis using hd hb a0 inb "2.prems"(1)
      by (intro exI [of _ "heap_mem s"], subst coalesce_block.simps) (simp add: header_def Let_def)
  next
    case True
    define m1 where "m1 = set_blk_size (of_nat a) (of_nat (n + 24 + k)) ?m"
    define m2 where "m2 = set_blk_next (of_nat a) (link (?b + 24 + k) bs 0) m1"
    have ag1: "agree (- {a..<a + 24}) ?m m1" unfolding m1_def by (rule set_blk_size_agree [OF bnd(1)])
    have ag2: "agree (- {a..<a + 24}) ?m m2" unfolding m2_def
      by (rule agree_trans [OF ag1 set_blk_next_agree [OF bnd(1)]])
    have h1: "header m1 a (n + 24 + k) f (of_nat ?b)"
      unfolding m1_def by (rule header_set_size [OF bnd(1) hd])
    have "header m1 ?b k g (link (?b + 24 + k) bs 0)"
      by (rule header_agree [OF agree_mono [OF ag1] _ hb]) (use bnd in auto)
    then have "coalesce_block (of_nat a) s = coalesce_block (of_nat a) (s\<lparr>heap_mem := m2\<rparr>)"
      using hd hb h1 a0 inb True
      by (subst coalesce_block.simps) (simp add: header_def c_defs m1_def m2_def Let_def add.assoc)
    moreover have "header m2 a (n + 24 + k) f (link (?b + 24 + k) bs 0)"
      unfolding m2_def by (rule header_set_next [OF bnd(1) h1])
    moreover have "seg m2 (?b + 24 + k) bs 0"
      by (rule seg_agree [OF tl agree_mono [OF ag2]])
        (use headers_subset [of "?b + 24 + k" bs] bnd in auto)
    ultimately show ?thesis
      using "2.IH" [OF True, of "s\<lparr>heap_mem := m2\<rparr>"] "2.prems"(2) True ag2
      by (auto simp: add.assoc heap_holds_def intro: agree_trans)
  qed
qed

lemma seg_nonfree_next:
  "header m a n f (link (a + 24 + n) bs 0) \<Longrightarrow> blk_next m (of_nat a) = link (a + 24 + n) bs 0"
  by (simp add: header_def)

lemma coalesce_walk_seg:
  assumes "seg (heap_mem s) a bs 0" and "heap_holds s a bs"
  shows "\<exists>m'. coalesce_walk (int k) (link a bs 0) s = Some (s\<lparr>heap_mem := m'\<rparr>) \<and>
    seg m' a (merge k bs) 0 \<and> agree (- headers a bs) (heap_mem s) m'"
  using assms
proof (induction k bs arbitrary: a s rule: merge.induct)
  case (1 bs)
  then show ?case by (intro exI [of _ "heap_mem s"], subst coalesce_walk.simps) simp
next
  case (2 k)
  then show ?case by (intro exI [of _ "heap_mem s"], subst coalesce_walk.simps) simp
next
  case (3 k n f bs)
  note inb = heap_holds_in [OF "3.prems"(2)]
  define r where "r = (if f then absorb n bs else (n, bs))"
  have "\<exists>m1. (if f then coalesce_block (of_nat a) s else Some s) = Some (s\<lparr>heap_mem := m1\<rparr>) \<and>
      seg m1 a ((fst r, f) # snd r) 0 \<and> agree (- {a..<a + 24}) (heap_mem s) m1"
  proof (cases f)
    case True
    then show ?thesis using coalesce_block_seg [OF "3.prems"] by (simp add: r_def)
  next
    case False
    then show ?thesis using "3.prems"(1) by (intro exI [of _ "heap_mem s"]) (simp add: r_def)
  qed
  then obtain m1 where
    m1: "(if f then coalesce_block (of_nat a) s else Some s) = Some (s\<lparr>heap_mem := m1\<rparr>)"
      "seg m1 a ((fst r, f) # snd r) 0" "agree (- {a..<a + 24}) (heap_mem s) m1" by blast
  let ?s1 = "s\<lparr>heap_mem := m1\<rparr>" and ?a1 = "a + 24 + fst r"
  have ext: "extent ((fst r, f) # snd r) = extent ((n, f) # bs)"
    using absorb_extent [of n bs] by (auto simp: r_def)
  have holds1: "heap_holds s a ((fst r, f) # snd r)"
    by (rule heap_holds_same_extent [OF "3.prems"(2) ext])
  have bnd: "a + 24 \<le> addr_space" using "3.prems"(2) by (simp add: heap_holds_def)
  have fr: "blk_is_free (heap_mem s) (of_nat a) = f"
    using "3.prems"(1) by (simp add: header_def)
  have nx: "blk_next m1 (of_nat a) = link ?a1 (snd r) 0"
    using m1(2) by (simp add: header_def)
  have step: "coalesce_walk (int (Suc k)) (of_nat a) s = coalesce_walk (int k) (link ?a1 (snd r) 0) ?s1"
    using inb m1(1) fr nx by (subst coalesce_walk.simps) auto
  have "\<exists>m'. coalesce_walk (int k) (link ?a1 (snd r) 0) ?s1 = Some (?s1\<lparr>heap_mem := m'\<rparr>) \<and>
      seg m' ?a1 (merge k (snd r)) 0 \<and> agree (- headers ?a1 (snd r)) m1 m'"
    using "3.IH"(1) [of ?s1 ?a1] "3.IH"(2) [of ?s1 ?a1] m1(2) heap_holds_Cons [OF holds1]
    by (cases f) (auto simp: r_def)
  then obtain m' where m': "coalesce_walk (int k) (link ?a1 (snd r) 0) ?s1 = Some (s\<lparr>heap_mem := m'\<rparr>)"
    "seg m' ?a1 (merge k (snd r)) 0" "agree (- headers ?a1 (snd r)) m1 m'" by auto
  have sub: "headers ?a1 (snd r) \<subseteq> headers (a + 24 + n) bs"
    using absorb_headers [of a n bs] by (auto simp: r_def)
  have link_eq: "link ?a1 (merge k (snd r)) 0 = link ?a1 (snd r) 0"
    by (cases "(k, snd r)" rule: merge.cases) auto
  have "agree {a..<a + 24} m1 m'"
    by (rule agree_mono [OF m'(3)]) (auto dest: headers_above)
  then have "header m' a (fst r) f (link ?a1 (merge k (snd r)) 0)"
    using bnd
  proof (rule header_agree)
    show "header m1 a (fst r) f (link ?a1 (merge k (snd r)) 0)" using m1(2) link_eq by simp
  qed
  then have "seg m' a (merge (Suc k) ((n, f) # bs)) 0"
    using m'(2) by (auto simp: r_def split: if_splits)
  moreover have "agree (- headers a ((n, f) # bs)) (heap_mem s) m'"
    by (rule agree_trans [OF agree_mono [OF m1(3)] agree_mono [OF m'(3)]]) (use sub in auto)
  ultimately show ?case using step m'(1) by (intro exI [of _ m']) simp
qed

text \<open>
  A well-formed heap: unlocked, covered from start to end by the blocks, every block with at
  least \<^const>\<open>KHEAP_MIN_BLOCK_SIZE\<close> data bytes, the headers in memory linked in address order.
\<close>

definition heap_rep :: "kheap_state \<Rightarrow> block_list \<Rightarrow> bool" where
  "heap_rep s bs \<longleftrightarrow> heap_lock s = 0 \<and> bs \<noteq> [] \<and> big_enough bs \<and>
     heap_holds s (unat (heap_start s)) bs \<and> seg (heap_mem s) (unat (heap_start s)) bs 0"

abbreviation base :: "kheap_state \<Rightarrow> nat" where
  "base s \<equiv> unat (heap_start s)"

lemma kheap_init_rep:
  assumes "start_addr \<noteq> 0" and "40 \<le> size_bytes" and "unat start_addr + unat size_bytes < addr_space"
  shows "heap_rep (kheap_init start_addr size_bytes s) [(unat size_bytes - 24, True)]"
proof -
  let ?a = "unat start_addr" and ?n = "unat size_bytes - 24"
  have ge: "40 \<le> unat size_bytes" using assms(2) by (simp add: word_le_nat_alt)
  have pos: "0 < ?a" using assms(1) by (simp add: unat_gt_0)
  have "header (set_blk_next (of_nat ?a) 0 (set_blk_is_free (of_nat ?a) True
      (set_blk_size (of_nat ?a) (of_nat ?n) m))) ?a ?n True 0" for m
    using assms(3) ge by (intro header_write) simp
  moreover have "\<not> size_bytes < 40" using assms(2) by simp
  ultimately show ?thesis
    using assms(1,3) ge pos
    by (simp add: kheap_init_def heap_rep_def heap_holds_def big_enough_def c_defs
        spinlock_init_def Let_def)
qed

text \<open>The bytes that belong to allocations are outside the headers and the free blocks.\<close>

lemma data_bytes_not_header: "data_bytes (live a bs) \<subseteq> - headers a bs"
  using live_not_header [of _ _ a bs] by (fastforce simp: data_bytes_def)

lemma data_bytes_mono: "L \<subseteq> L' \<Longrightarrow> data_bytes L \<subseteq> data_bytes L'"
  by (auto simp: data_bytes_def)

lemma data_bytes_outside_free:
  "data_bytes (live a (xs @ (n, True) # ys)) \<inter> {a + extent xs..<a + extent xs + 24 + n} = {}"
  using live_bounds [of _ _ a xs] live_bounds [of _ _ "a + extent xs + 24 + n" ys]
  by (fastforce simp: data_bytes_def live_append add.assoc)

text \<open>The size that \<open>kmalloc\<close> searches for, with the wrap-around of \<open>align8\<close>.\<close>

definition rounded :: "u64 \<Rightarrow> nat" where
  "rounded sz = max 16 ((unat sz + 7) mod addr_space div 8 * 8)"

lemma unat_align8: "unat (align8 sz) = (unat sz + 7) mod addr_space div 8 * 8"
  by (simp add: align8_def unat_align_down_8 unat_word_ariths addr_space_def)

lemma rounded_lt: "rounded sz < addr_space"
proof -
  have "unat (align8 sz) < addr_space" by (rule unat_lt_addr_space)
  then show ?thesis by (simp add: rounded_def unat_align8) (simp add: addr_space_def)
qed

lemma rounded_word:
  "(if align8 sz < KHEAP_MIN_BLOCK_SIZE then KHEAP_MIN_BLOCK_SIZE else align8 sz) = of_nat (rounded sz)"
proof -
  have "unat (if align8 sz < KHEAP_MIN_BLOCK_SIZE then KHEAP_MIN_BLOCK_SIZE else align8 sz) = rounded sz"
    by (auto simp: c_defs rounded_def word_less_nat_alt unat_align8 max_def)
  then show ?thesis by (simp only: word_unat_eq_iff unat_of_nat_addr [OF rounded_lt])
qed

lemma heap_lock_idem: "heap_lock s = 0 \<Longrightarrow> s\<lparr>heap_lock := 0\<rparr> = s"
  by (cases s) simp

lemma heap_lock_idem_mem: "heap_lock s = 0 \<Longrightarrow> s\<lparr>heap_lock := 0, heap_mem := m\<rparr> = s\<lparr>heap_mem := m\<rparr>"
  by (cases s) simp

lemma kmalloc_found:
  assumes "heap_lock s = 0" and "sz \<noteq> 0" and "heap_start s \<noteq> 0"
    and "find_fit (of_nat (rounded sz)) (heap_mem s) (heap_start s) = Some c"
  shows "kmalloc sz s = Some (if c = 0 then (0, s) else
    (c + 24, s\<lparr>heap_mem :=
       set_blk_is_free c False (split_block c (of_nat (rounded sz)) (heap_mem s))\<rparr>))"
proof -
  have "kmalloc sz s = do {
      l \<leftarrow> spinlock_lock (heap_lock s);
      current \<leftarrow> find_fit (of_nat (rounded sz)) (heap_mem s) (heap_start s);
      if current \<noteq> 0 then
        Some (KHEAP_BLOCK_DATA current, s\<lparr>heap_lock := spinlock_unlock l, heap_mem :=
          set_blk_is_free current False (split_block current (of_nat (rounded sz)) (heap_mem s))\<rparr>)
      else Some (0, s\<lparr>heap_lock := spinlock_unlock l\<rparr>) }"
    using assms(2,3) unfolding kmalloc_def Let_def rounded_word by (simp cong: if_cong)
  then show ?thesis
    using assms(1,4)
    by (simp add: KHEAP_BLOCK_DATA_def sizeof_KHeapBlock_def heap_lock_idem heap_lock_idem_mem)
qed

lemma kmalloc_zero [simp]: "kmalloc 0 s = Some (0, s)"
  by (simp add: kmalloc_def)

lemma kmalloc_none:
  assumes "heap_rep s bs" and "spec_alloc (rounded sz) (base s) bs = None"
  shows "kmalloc sz s = Some (0, s)"
proof -
  have "find_fit (of_nat (rounded sz)) (heap_mem s) (link (base s) bs 0) = Some 0"
    using assms rounded_lt [of sz]
    by (intro find_fit_none) (auto simp: heap_rep_def heap_holds_def spec_alloc_None)
  then have "find_fit (of_nat (rounded sz)) (heap_mem s) (heap_start s) = Some 0"
    using assms(1) by (simp add: heap_rep_def link_def)
  then show ?thesis
    using assms(1) kmalloc_found [of s sz 0]
    by (cases "sz = 0") (auto simp: kmalloc_def heap_rep_def heap_holds_def)
qed

lemma kmalloc_some:
  assumes "heap_rep s bs" and "sz \<noteq> 0" and "spec_alloc (rounded sz) (base s) bs = Some (p, bs')"
  shows "\<exists>s'. kmalloc sz s = Some (of_nat p, s') \<and> heap_rep s' bs' \<and> heap_start s' = heap_start s \<and>
    agree (data_bytes (live (base s) bs)) (heap_mem s) (heap_mem s')"
proof -
  let ?k = "rounded sz" and ?m = "heap_mem s"
  from spec_alloc_Some [OF assms(3)] obtain xs n ys where
    bs: "bs = xs @ (n, True) # ys" and k: "?k \<le> n" and nf: "\<forall>(n, f) \<in> set xs. \<not> (f \<and> ?k \<le> n)"
    and p: "p = base s + extent xs + 24" and bs': "bs' = xs @ carve ?k n @ ys" by blast
  let ?b = "base s + extent xs"
  have holds: "heap_holds s (base s) bs" and sg: "seg ?m (base s) bs 0" and big: "big_enough bs"
    and lk: "heap_lock s = 0" using assms(1) by (auto simp: heap_rep_def)
  have bnd: "base s + extent bs < addr_space" "0 < base s" using holds by (auto simp: heap_holds_def)
  then have hs: "heap_start s \<noteq> 0" by auto
  define m' where "m' = set_blk_is_free (of_nat ?b) False (split_block (of_nat ?b) (of_nat ?k) ?m)"
  have "find_fit (of_nat ?k) ?m (link (base s) bs 0) = Some (of_nat ?b)"
    unfolding bs by (rule find_fit_some) (use sg bnd k nf bs in auto)
  then have ff: "find_fit (of_nat ?k) ?m (heap_start s) = Some (of_nat ?b)"
    using bs by (simp add: link_def)
  have "seg ?m ?b ((n, True) # ys) 0" and pre: "seg ?m (base s) xs (of_nat ?b)"
    using sg unfolding bs by (simp_all add: seg_append)
  then have tk: "seg m' ?b (carve ?k n @ ys) 0" "agree (- {?b..<?b + 24 + n}) ?m m'"
    using take_block_seg [of ?m ?b n ys 0 ?k] k bnd bs by (simp_all add: m'_def)
  have "seg m' (base s) xs (of_nat ?b)"
    by (rule seg_agree [OF pre agree_mono [OF tk(2)]])
      (use headers_subset [of "base s" xs] bnd bs in auto)
  then have "seg m' (base s) bs' 0"
    using tk(1) by (simp add: bs' seg_append link_def carve_def)
  moreover have "extent bs' = extent bs" using k by (simp add: bs bs')
  then have "heap_holds s (base s) bs'" by (rule heap_holds_same_extent [OF holds])
  moreover have "big_enough bs'" using big by (auto simp: bs bs' big_enough_def carve_def rounded_def)
  ultimately have "heap_rep (s\<lparr>heap_mem := m'\<rparr>) bs'"
    using lk by (simp add: heap_rep_def bs' carve_def)
  moreover have "(of_nat ?b :: u64) \<noteq> 0" using bnd bs by (subst of_nat_addr_0_iff) auto
  then have "kmalloc sz s = Some (of_nat p, s\<lparr>heap_mem := m'\<rparr>)"
    using kmalloc_found [OF lk assms(2) hs ff] unfolding p m'_def by auto
  moreover have "agree (data_bytes (live (base s) bs)) ?m m'"
    by (rule agree_mono [OF tk(2)]) (use data_bytes_outside_free [of "base s" xs n ys] bs in auto)
  ultimately show ?thesis by (intro exI [of _ "s\<lparr>heap_mem := m'\<rparr>"]) simp
qed

lemma release_seg:
  assumes "seg m a (xs @ (n, f) # ys) 0" and "base s \<le> a" and "heap_holds s a (xs @ (n, f) # ys)"
    and "heap_mem s = set_blk_is_free (of_nat (a + extent xs)) True m"
  shows "\<exists>m'. coalesce_block (of_nat (a + extent xs)) s = Some (s\<lparr>heap_mem := m'\<rparr>) \<and>
    seg m' a (xs @ (fst (absorb n ys), True) # snd (absorb n ys)) 0 \<and>
    agree (- {a + extent xs..<a + extent xs + 24}) m m'"
proof -
  let ?b = "a + extent xs"
  have holds: "heap_holds s ?b ((n, f) # ys)" by (rule heap_holds_suffix [OF assms(3)])
  have bnd: "?b + 24 + n + extent ys \<le> addr_space" using holds by (simp add: heap_holds_def)
  have hd: "header m ?b n f (link (?b + 24 + n) ys 0)" and tl: "seg m (?b + 24 + n) ys 0"
    and pre: "seg m a xs (of_nat ?b)" using assms(1) by (simp_all add: seg_append)
  have ag: "agree (- {?b..<?b + 24}) m (heap_mem s)"
    unfolding assms(4) by (rule set_blk_is_free_agree) (use bnd in simp)
  have "header (heap_mem s) ?b n True (link (?b + 24 + n) ys 0)"
    unfolding assms(4) by (rule header_set_is_free [OF _ hd]) (use bnd in simp)
  moreover have "seg (heap_mem s) (?b + 24 + n) ys 0"
    by (rule seg_agree [OF tl agree_mono [OF ag]]) (use bnd in \<open>auto dest: headers_above\<close>)
  ultimately have "seg (heap_mem s) ?b ((n, True) # ys) 0" by simp
  moreover have "heap_holds s ?b ((n, True) # ys)"
    by (rule heap_holds_same_extent [OF holds]) simp
  ultimately obtain m' where m': "coalesce_block (of_nat ?b) s = Some (s\<lparr>heap_mem := m'\<rparr>)"
    "seg m' ?b ((fst (absorb n ys), True) # snd (absorb n ys)) 0"
    "agree (- {?b..<?b + 24}) (heap_mem s) m'"
    using coalesce_block_seg [of s ?b n True ys] by blast
  have ag': "agree (- {?b..<?b + 24}) m m'" by (rule agree_trans [OF ag m'(3)])
  have "seg m' a xs (of_nat ?b)"
    by (rule seg_agree [OF pre agree_mono [OF ag']]) (use headers_subset [of a xs] bnd in auto)
  with m'(2) have "seg m' a (xs @ (fst (absorb n ys), True) # snd (absorb n ys)) 0"
    by (simp add: seg_append)
  with m'(1) ag' show ?thesis by blast
qed

lemma kfree_live:
  assumes "heap_rep s bs" and "(p, n) \<in> live (base s) bs"
  shows "\<exists>s'. kfree (of_nat p) s = Some s' \<and> heap_rep s' (spec_free p (base s) bs) \<and>
    heap_start s' = heap_start s \<and>
    agree (data_bytes (live (base s) bs)) (heap_mem s) (heap_mem s')"
proof -
  from live_split [OF assms(2)] obtain xs ys where bs: "bs = xs @ (n, False) # ys"
    and p: "p = base s + extent xs + 24" by blast
  let ?b = "base s + extent xs" and ?bs1 = "xs @ (fst (absorb n ys), True) # snd (absorb n ys)"
  have holds: "heap_holds s (base s) bs" and sg: "seg (heap_mem s) (base s) bs 0"
    and big: "big_enough bs" and lk: "heap_lock s = 0" using assms(1) by (auto simp: heap_rep_def)
  have hs: "heap_start s \<noteq> 0" using holds by (auto simp: heap_holds_def)
  have blk: "KHEAP_DATA_BLOCK (of_nat p) = of_nat ?b"
    by (simp add: KHEAP_DATA_BLOCK_def c_defs p)
  have p0: "(of_nat p :: u64) \<noteq> 0"
    using holds p bs by (subst of_nat_addr_0_iff) (auto simp: heap_holds_def)
  note inb = heap_holds_in [OF heap_holds_suffix [OF holds [unfolded bs]]]
  define s1 where "s1 = s\<lparr>heap_lock := 1, heap_mem := set_blk_is_free (of_nat ?b) True (heap_mem s)\<rparr>"
  have h1: "heap_holds s1 (base s) bs" using holds by (simp add: s1_def heap_holds_def)
  obtain m1 where m1: "coalesce_block (of_nat ?b) s1 = Some (s1\<lparr>heap_mem := m1\<rparr>)"
    "seg m1 (base s) ?bs1 0" "agree (- {?b..<?b + 24}) (heap_mem s) m1"
    using release_seg [OF sg [unfolded bs], of s1] h1 by (auto simp: s1_def bs)
  have ext: "extent ?bs1 = extent bs" using absorb_extent [of n ys] by (simp add: bs)
  have rel: "release p (base s) bs = ?bs1" unfolding bs by (rule release_append [OF p])
  let ?s2 = "s1\<lparr>heap_mem := m1\<rparr>"
  have h2: "heap_holds ?s2 (base s) ?bs1"
    using heap_holds_same_extent [OF h1 ext] by simp
  have lnk: "link (base s) ?bs1 0 = heap_start s" by (simp add: link_def)
  obtain m2 where m2: "coalesce_walk 10000 (heap_start s) ?s2 = Some (s1\<lparr>heap_mem := m2\<rparr>)"
    "seg m2 (base s) (merge 10000 ?bs1) 0" "agree (- headers (base s) ?bs1) m1 m2"
    using coalesce_walk_seg [of ?s2 "base s" ?bs1 10000] m1(2) h2 lnk by auto
  let ?s' = "s\<lparr>heap_mem := m2\<rparr>"
  have "kfree (of_nat p) s = Some ?s'"
    using p0 hs lk inb m1(1) m2(1)
    by (simp add: kfree_def blk Let_def s1_def heap_end_def heap_lock_idem_mem)
  moreover have "big_enough ?bs1"
    using big absorb_ge [of n ys] absorb_big [of ys n] by (auto simp: bs big_enough_def)
  then have "heap_rep ?s' (spec_free p (base s) bs)"
    using m2(2) lk merge_big [of ?bs1 10000] heap_holds_same_extent [OF holds, of "merge 10000 ?bs1"] ext
    by (simp add: heap_rep_def spec_free_def rel merge_extent merge_Nil)
  moreover have "headers (base s) ?bs1 \<subseteq> headers (base s) bs" "{?b..<?b + 24} \<subseteq> headers (base s) bs"
    using absorb_headers [of ?b n ys] by (auto simp: bs headers_append)
  then have "agree (data_bytes (live (base s) bs)) (heap_mem s) m2"
    using data_bytes_not_header [of "base s" bs]
    by (intro agree_trans [OF agree_mono [OF m1(3)] agree_mono [OF m2(3)]]) auto
  ultimately show ?thesis by (intro exI [of _ ?s']) simp
qed

text \<open>What the two operations do to the set of allocations.\<close>

lemma live_carve:
  "k \<le> n \<Longrightarrow> \<exists>k'. k \<le> k' \<and> live a (carve k n @ bs) = insert (a + 24, k') (live (a + 24 + n) bs)"
  by (auto simp: carve_def add.commute add.left_commute)

lemma spec_alloc_live:
  assumes "spec_alloc k a bs = Some (p, bs')"
  shows "\<exists>k'. k \<le> k' \<and> live a bs' = insert (p, k') (live a bs) \<and> p \<notin> fst ` live a bs"
proof -
  from spec_alloc_Some [OF assms] obtain xs n ys where
    bs: "bs = xs @ (n, True) # ys" and k: "k \<le> n" and p: "p = a + extent xs + 24"
    and bs': "bs' = xs @ carve k n @ ys" by blast
  obtain k' where k': "k \<le> k'"
    "live (a + extent xs) (carve k n @ ys) = insert (p, k') (live (a + extent xs + 24 + n) ys)"
    using live_carve [OF k, of "a + extent xs" ys] p by auto
  have "p \<notin> fst ` live a bs"
    using live_bounds [of p _ a xs] live_bounds [of p _ "p + n" ys] p
    by (auto simp: bs live_append)
  with k' show ?thesis by (intro exI [of _ k']) (auto simp: bs bs' live_append p)
qed

lemma spec_free_live:
  assumes "(p, n) \<in> live a bs"
  shows "live a (spec_free p a bs) = live a bs - {(p, n)}"
proof -
  from live_split [OF assms] obtain xs ys where bs: "bs = xs @ (n, False) # ys"
    and p: "p = a + extent xs + 24" by blast
  have "(p, n) \<notin> live a xs" "(p, n) \<notin> live (p + n) ys"
    using live_bounds [of p n a xs] live_bounds [of p n "p + n" ys] p by auto
  moreover have "live a bs = live a xs \<union> insert (p, n) (live (p + n) ys)"
    by (simp add: bs live_append p)
  moreover have "live a (spec_free p a bs) = live a xs \<union> live (p + n) ys"
    unfolding spec_free_def merge_live bs release_append [OF p]
    using absorb_live [of "a + extent xs" n ys] by (simp add: live_append p)
  ultimately show ?thesis by auto
qed

section \<open>The heap as an allocator for clients\<close>

definition heap_allocs :: "kheap_state \<Rightarrow> (nat \<times> nat) set \<Rightarrow> bool" where
  "heap_allocs s L \<longleftrightarrow> (\<exists>bs. heap_rep s bs \<and> L = live (base s) bs)"

text \<open>A client's own accesses to the memory it was given.\<close>

definition kheap_peek :: "nat \<Rightarrow> kheap_state \<Rightarrow> u8" where
  "kheap_peek x s = heap_mem s (of_nat x)"

definition kheap_poke :: "nat \<Rightarrow> u8 \<Rightarrow> kheap_state \<Rightarrow> kheap_state" where
  "kheap_poke x v s = s\<lparr>heap_mem := (heap_mem s)(of_nat x := v)\<rparr>"

lemma kheap_poke_base: "heap_start (kheap_poke x v s) = heap_start s"
  by (simp add: kheap_poke_def)

text \<open>Sizes whose rounding to a multiple of 8 does not wrap around.\<close>

definition size_fits :: "u64 \<Rightarrow> bool" where
  "size_fits sz \<longleftrightarrow> unat sz + 7 < addr_space"

lemma rounded_ge: "size_fits sz \<Longrightarrow> unat sz \<le> rounded sz"
  unfolding size_fits_def rounded_def by (simp add: max_def) linarith

lemma live_in_space:
  assumes "heap_rep s bs" and "(p, n) \<in> live (base s) bs"
  shows "p + n < addr_space" "base s + 24 \<le> p" "0 < base s"
  using live_bounds [OF assms(2)] assms(1) by (auto simp: heap_rep_def heap_holds_def)

lemma agree_peek:
  assumes "heap_rep s bs" and "agree (data_bytes (live (base s) bs)) (heap_mem s) (heap_mem s')"
    and "x \<in> data_bytes (live (base s) bs)"
  shows "kheap_peek x s' = kheap_peek x s"
proof -
  have "x < addr_space" using assms(3) live_in_space [OF assms(1)] by (force simp: data_bytes_def)
  then show ?thesis using assms(2,3) by (auto simp: agree_def kheap_peek_def)
qed

lemma heap_poke_rep:
  assumes "heap_rep s bs" and "x \<in> data_bytes (live (base s) bs)"
  shows "heap_rep (kheap_poke x v s) bs"
proof -
  have x: "x < addr_space" using assms(2) live_in_space [OF assms(1)] by (force simp: data_bytes_def)
  have "agree (headers (base s) bs) (heap_mem s) ((heap_mem s)(of_nat x := v))"
    using data_bytes_not_header [of "base s" bs] assms(2) x by (auto simp: agree_def)
  then show ?thesis
    using assms(1) seg_agree [of "heap_mem s" "base s" bs 0]
    by (auto simp: heap_rep_def kheap_poke_def heap_holds_def)
qed

lemma kmalloc_alloc_law:
  assumes "heap_allocs s L" and "size_fits n"
  shows "\<exists>a s'. kmalloc n s = Some (a, s') \<and>
      (a = 0 \<and> heap_allocs s' L \<or>
       (\<exists>k \<ge> unat n. a \<noteq> 0 \<and> heap_allocs s' (insert (unat a, k) L) \<and> unat a \<notin> fst ` L)) \<and>
      (\<forall>x \<in> data_bytes L. kheap_peek x s' = kheap_peek x s)"
proof -
  from assms(1) obtain bs where rep: "heap_rep s bs" and L: "L = live (base s) bs"
    by (auto simp: heap_allocs_def)
  show ?thesis
  proof (cases "n = 0 \<or> spec_alloc (rounded n) (base s) bs = None")
    case True
    then have "kmalloc n s = Some (0, s)" using kmalloc_none [OF rep] by auto
    then show ?thesis using assms(1) by auto
  next
    case False
    then obtain p bs' where sp: "spec_alloc (rounded n) (base s) bs = Some (p, bs')" and "n \<noteq> 0" by auto
    from kmalloc_some [OF rep \<open>n \<noteq> 0\<close> sp] obtain s' where s': "kmalloc n s = Some (of_nat p, s')"
      "heap_rep s' bs'" "heap_start s' = heap_start s"
      "agree (data_bytes (live (base s) bs)) (heap_mem s) (heap_mem s')" by blast
    from spec_alloc_live [OF sp] obtain k where k: "rounded n \<le> k"
      "live (base s) bs' = insert (p, k) L" "p \<notin> fst ` L" by (auto simp: L)
    have p: "p < addr_space" "p \<noteq> 0" using live_in_space [OF s'(2), of p k] k(2) s'(3) by auto
    have "heap_allocs s' (insert (p, k) L)" using s'(2,3) k(2) by (auto simp: heap_allocs_def)
    moreover have "unat n \<le> k" using rounded_ge [OF assms(2)] k(1) by simp
    ultimately show ?thesis
      using s'(1) p k(3) agree_peek [OF rep s'(4)] L by (intro exI conjI) auto
  qed
qed

interpretation kh: heap_allocator heap_allocs kmalloc kfree kheap_peek kheap_poke size_fits
proof unfold_locales
  fix s L sz
  assume "heap_allocs s L" "size_fits sz"
  then show "\<exists>a s'. kmalloc sz s = Some (a, s') \<and>
      (a = 0 \<and> heap_allocs s' L \<or>
       (\<exists>k \<ge> unat sz. a \<noteq> 0 \<and> heap_allocs s' (insert (unat a, k) L) \<and> unat a \<notin> fst ` L)) \<and>
      (\<forall>x \<in> data_bytes L. kheap_peek x s' = kheap_peek x s)" by (rule kmalloc_alloc_law)
next
  fix s L p n
  assume "heap_allocs s L" "(p, n) \<in> L"
  then obtain bs where rep: "heap_rep s bs" and L: "L = live (base s) bs" by (auto simp: heap_allocs_def)
  from kfree_live [OF rep] \<open>(p, n) \<in> L\<close> L obtain s' where s': "kfree (of_nat p) s = Some s'"
    "heap_rep s' (spec_free p (base s) bs)" "heap_start s' = heap_start s"
    "agree (data_bytes (live (base s) bs)) (heap_mem s) (heap_mem s')" by blast
  then show "\<exists>s'. kfree (of_nat p) s = Some s' \<and> heap_allocs s' (L - {(p, n)}) \<and>
      (\<forall>x \<in> data_bytes L. kheap_peek x s' = kheap_peek x s)"
    using spec_free_live [of p n "base s" bs] \<open>(p, n) \<in> L\<close> L agree_peek [OF rep s'(4)]
    by (auto simp: heap_allocs_def)
next
  fix s L p n i v
  assume "heap_allocs s L" and pn: "(p, n) \<in> L" "i < n"
  then obtain bs where rep: "heap_rep s bs" and L: "L = live (base s) bs" by (auto simp: heap_allocs_def)
  have in_L: "p + i \<in> data_bytes L" by (rule in_data_bytes [OF pn])
  have lt: "x < addr_space" if "x \<in> data_bytes L" for x
    using that live_in_space [OF rep] L by (force simp: data_bytes_def)
  have "heap_allocs (kheap_poke (p + i) v s) L"
    using heap_poke_rep [OF rep, of "p + i" v] in_L L
    by (auto simp: heap_allocs_def kheap_poke_base simp del: of_nat_add)
  moreover have "(of_nat x :: u64) = of_nat (p + i) \<longleftrightarrow> x = p + i" if "x \<in> data_bytes L" for x
    using lt [OF that] lt [OF in_L] by (rule of_nat_addr_eq_iff)
  ultimately show "heap_allocs (kheap_poke (p + i) v s) L \<and> (\<forall>x \<in> data_bytes L.
      kheap_peek x (kheap_poke (p + i) v s) = (if x = p + i then v else kheap_peek x s))"
    by (auto simp: kheap_peek_def kheap_poke_def)
next
  fix s L p n q k
  assume "heap_allocs s L" "(p, n) \<in> L" "(q, k) \<in> L" "(p, n) \<noteq> (q, k)"
  then show "p + n \<le> q \<or> q + k \<le> p"
    using live_disjoint [of p n _ _ q k] by (auto simp: heap_allocs_def intro: less_imp_le)
qed

section \<open>Reallocation\<close>

lemma live_header:
  assumes "(p, n) \<in> live a bs" and "seg m a bs e"
  shows "\<exists>nx. header m (p - 24) n False nx"
proof -
  from live_split [OF assms(1)] obtain xs ys
    where "bs = xs @ (n, False) # ys" "p = a + extent xs + 24" by blast
  then show ?thesis using assms(2) by (auto simp: seg_append)
qed

lemma live_block:
  assumes "heap_rep s bs" and "(p, n) \<in> live (base s) bs"
  obtains b where "KHEAP_DATA_BLOCK (of_nat p) = b" "\<not> b < heap_start s" "\<not> heap_end s \<le> b"
    "\<not> blk_is_free (heap_mem s) b" "blk_size (heap_mem s) b = of_nat n"
proof
  note sp = live_in_space [OF assms]
  show "KHEAP_DATA_BLOCK (of_nat p) = of_nat (p - 24)"
    using sp of_nat_diff_u64 [of 24 p] by (simp add: KHEAP_DATA_BLOCK_def c_defs)
  from live_split [OF assms(2)] obtain xs ys where xs: "bs = xs @ (n, False) # ys"
    "p - 24 = base s + extent xs" by force
  show "\<not> of_nat (p - 24) < heap_start s" "\<not> heap_end s \<le> of_nat (p - 24)"
    using heap_holds_in [of s "base s + extent xs" "(n, False)" ys] heap_holds_suffix
      assms(1) by (auto simp: heap_rep_def xs simp del: of_nat_add)
  obtain nx where "header (heap_mem s) (p - 24) n False nx"
    using live_header [OF assms(2)] assms(1) by (auto simp: heap_rep_def)
  then show "\<not> blk_is_free (heap_mem s) (of_nat (p - 24))"
    "blk_size (heap_mem s) (of_nat (p - 24)) = of_nat n" unfolding header_def by blast+
qed

lemma krealloc_live:
  assumes "heap_rep s bs" and "(p, n) \<in> live (base s) bs" and "new_size \<noteq> 0"
  shows "krealloc (of_nat p) new_size s =
    (if align8 new_size \<le> of_nat n then Some (of_nat p, s) else do {
       (q, s) \<leftarrow> kmalloc (align8 new_size) s;
       if q = 0 then Some (0, s)
       else do { s \<leftarrow> kfree (of_nat p) (s\<lparr>heap_mem := copy_loop q (of_nat p) n (heap_mem s)\<rparr>);
                 Some (q, s) } })"
proof -
  note sp = live_in_space [OF assms(1,2)]
  obtain b where b: "KHEAP_DATA_BLOCK (of_nat p) = b" "\<not> b < heap_start s" "\<not> heap_end s \<le> b"
    "\<not> blk_is_free (heap_mem s) b" "blk_size (heap_mem s) b = of_nat n"
    by (rule live_block [OF assms(1,2)])
  have p0: "(of_nat p :: u64) \<noteq> 0" using sp by (subst of_nat_addr_0_iff) auto
  have n: "unat (of_nat n :: u64) = n" using sp by simp
  have al: "(new_size + 7) AND NOT 7 = align8 new_size" by (simp add: align8_def)
  have guard: "(b < heap_start s \<or> b \<ge> heap_end s) = False" using b(2,3) by simp
  have copy: "unat (if of_nat n < align8 new_size then of_nat n else align8 new_size) = n"
    if "\<not> align8 new_size \<le> of_nat n" using n that by (simp add: not_le)
  show ?thesis
    using p0 assms(3) b(4) copy unfolding krealloc_def al Let_def b(1) guard b(5)
    by (auto simp only: if_False if_True cong: if_cong)
qed

text \<open>Copying into the bytes of one allocation leaves the heap well-formed.\<close>

lemma copy_allocs:
  assumes "heap_allocs s L" and "(q, k) \<in> L" and "(p, n) \<in> L" and "n \<le> k" and "q \<noteq> p"
  defines "s' \<equiv> s\<lparr>heap_mem := copy_loop (of_nat q) (of_nat p) n (heap_mem s)\<rparr>"
  shows "heap_allocs s' L" and "i < n \<Longrightarrow> kheap_peek (q + i) s' = kheap_peek (p + i) s"
    and "x \<in> data_bytes (L - {(q, k)}) \<Longrightarrow> kheap_peek x s' = kheap_peek x s"
proof -
  from assms(1) obtain bs where rep: "heap_rep s bs" and L: "L = live (base s) bs"
    by (auto simp: heap_allocs_def)
  note sq = live_in_space [OF rep assms(2) [unfolded L]]
  note sp = live_in_space [OF rep assms(3) [unfolded L]]
  have dis: "q + n \<le> p \<or> p + n \<le> q"
    using kh.apart [OF assms(1-3)] assms(4,5) by auto
  have at: "heap_mem s' (of_nat y) =
      (if q \<le> y \<and> y < q + n then heap_mem s (of_nat (p + (y - q))) else heap_mem s (of_nat y))"
    if "y < addr_space" for y
    using copy_loop_at [of q n p y "heap_mem s"] sq sp dis assms(4) that by (simp add: s'_def)
  have "agree (headers (base s) bs) (heap_mem s) (heap_mem s')"
    unfolding agree_def
  proof (intro ballI impI)
    fix y assume y: "y \<in> headers (base s) bs" "y < addr_space"
    have "y \<notin> data_bytes L" using data_bytes_not_header [of "base s" bs] y(1) L by auto
    then have "\<not> (q \<le> y \<and> y < q + n)"
      using in_data_bytes [OF assms(2), of "y - q"] assms(4) by (cases "y - q < k") auto
    then show "heap_mem s' (of_nat y) = heap_mem s (of_nat y)" using at [OF y(2)] by (simp only: if_False)
  qed
  then have "heap_rep s' bs"
    using rep seg_agree [of "heap_mem s" "base s" bs 0]
    by (auto simp: heap_rep_def s'_def heap_holds_def)
  then show "heap_allocs s' L" by (auto simp: heap_allocs_def L s'_def)
  show "kheap_peek (q + i) s' = kheap_peek (p + i) s" if "i < n"
    using at [of "q + i"] sq that assms(4) by (simp add: kheap_peek_def)
  show "kheap_peek x s' = kheap_peek x s" if x: "x \<in> data_bytes (L - {(q, k)})"
  proof -
    from x obtain r l where r: "(r, l) \<in> L" "(r, l) \<noteq> (q, k)" "r \<le> x" "x < r + l"
      by (auto simp: data_bytes_def)
    have "\<not> (q \<le> x \<and> x < q + n)" using kh.apart [OF assms(1) r(1) assms(2) r(2)] r(3,4) assms(4) by auto
    moreover have "x < addr_space" using live_in_space [OF rep r(1) [unfolded L]] r(4) by simp
    ultimately show ?thesis using at [of x] unfolding kheap_peek_def by (simp only: if_False)
  qed
qed

lemma align8_eq: "size_fits sz \<Longrightarrow> unat (align8 sz) = (unat sz + 7) div 8 * 8"
  by (simp add: unat_align8 size_fits_def)

lemma align8_ge: "size_fits sz \<Longrightarrow> unat sz \<le> unat (align8 sz)"
  by (simp add: align8_eq)

lemma align8_fits: "size_fits sz \<Longrightarrow> size_fits (align8 sz)"
proof -
  assume a: "size_fits sz"
  then have "unat sz + 7 < 8 * 2305843009213693952" by (simp add: size_fits_def addr_space_def)
  then have "(unat sz + 7) div 8 < 2305843009213693952" by (simp add: div_less_iff_less_mult)
  then show ?thesis unfolding size_fits_def align8_eq [OF a] by (simp add: addr_space_def)
qed

text \<open>The move of \<open>krealloc\<close>: copy into the fresh allocation, then free the old one.\<close>

lemma krealloc_move:
  assumes "(p, n) \<in> L" and "heap_allocs s1 (insert (unat a, k) L)" and "unat a \<notin> fst ` L"
    and "n \<le> k" and "\<forall>x \<in> data_bytes L. kheap_peek x s1 = kheap_peek x s"
  shows "\<exists>s3. kfree (of_nat p) (s1\<lparr>heap_mem := copy_loop a (of_nat p) n (heap_mem s1)\<rparr>) = Some s3 \<and>
    heap_allocs s3 (insert (unat a, k) (L - {(p, n)})) \<and>
    (\<forall>i < n. kheap_peek (unat a + i) s3 = kheap_peek (p + i) s) \<and>
    (\<forall>x \<in> data_bytes (L - {(p, n)}). kheap_peek x s3 = kheap_peek x s)"
proof -
  let ?q = "unat a" and ?s2 = "s1\<lparr>heap_mem := copy_loop a (of_nat p) n (heap_mem s1)\<rparr>"
  let ?L1 = "insert (?q, k) L"
  have ne: "?q \<noteq> p" using assms(1,3) by force
  have in1: "(p, n) \<in> ?L1" "(?q, k) \<in> ?L1" using assms(1) by auto
  have c1: "heap_allocs ?s2 ?L1" and c2: "\<And>i. i < n \<Longrightarrow> kheap_peek (?q + i) ?s2 = kheap_peek (p + i) s1"
    and c3: "\<And>x. x \<in> data_bytes (?L1 - {(?q, k)}) \<Longrightarrow> kheap_peek x ?s2 = kheap_peek x s1"
    using copy_allocs [OF assms(2) in1(2,1) assms(4) ne] by simp_all
  from kh.free_law [OF c1 in1(1)] obtain s3 where s3: "kfree (of_nat p) ?s2 = Some s3"
    "heap_allocs s3 (?L1 - {(p, n)})" "\<forall>x \<in> data_bytes ?L1. kheap_peek x s3 = kheap_peek x ?s2" by blast
  have "?L1 - {(p, n)} = insert (?q, k) (L - {(p, n)})" using ne by auto
  moreover have "kheap_peek (?q + i) s3 = kheap_peek (p + i) s" if "i < n" for i
    using that c2 s3(3) assms(4,5) in_data_bytes [OF in1(2)] in_data_bytes [OF assms(1)] by auto
  moreover have "kheap_peek x s3 = kheap_peek x s" if "x \<in> data_bytes (L - {(p, n)})" for x
  proof -
    have "?L1 - {(?q, k)} = L" using assms(3) by force
    moreover have "x \<in> data_bytes L" "x \<in> data_bytes ?L1"
      using that data_bytes_mono [of "L - {(p, n)}"] by blast+
    ultimately show ?thesis using c3 s3(3) assms(5) by auto
  qed
  ultimately show ?thesis using s3(1,2) by auto
qed

section \<open>Statistics\<close>

definition free_total :: "block_list \<Rightarrow> nat" where
  "free_total bs = sum_list (map fst (filter snd bs))"

definition used_total :: "block_list \<Rightarrow> nat" where
  "used_total bs = sum_list (map fst (filter (\<lambda>b. \<not> snd b) bs))"

lemma extent_totals: "extent bs = 24 * length bs + free_total bs + used_total bs"
  by (induction bs) (auto simp: free_total_def used_total_def)

lemma walk_blocks_seg:
  assumes "seg m a bs 0" and "0 < a" and "a + extent bs < addr_space"
    and "\<And>a n f nx acc. header m a n f nx \<Longrightarrow> h m (of_nat a) acc = g (n, f) acc"
  shows "walk_blocks h m (link a bs 0) acc = Some (fold g bs acc)"
  using assms(1-3)
proof (induction a bs arbitrary: acc rule: headers.induct)
  case (1 a)
  then show ?case by (subst walk_blocks.simps) simp
next
  case (2 a n f bs)
  have hd: "header m a n f (link (a + 24 + n) bs 0)" using "2.prems" by simp
  have "(of_nat a :: u64) \<noteq> 0" using "2.prems" by (subst of_nat_addr_0_iff) auto
  then have "walk_blocks h m (of_nat a) acc =
      walk_blocks h m (link (a + 24 + n) bs 0) (g (n, f) acc)"
    using assms(4) [OF hd, of acc] hd by (subst walk_blocks.simps) (simp add: header_def)
  then show ?case using 2 by simp
qed

lemma locked_walk_rep:
  assumes "heap_rep s bs"
    and "\<And>a n f nx acc. header (heap_mem s) a n f nx \<Longrightarrow> h (heap_mem s) (of_nat a) acc = g (n, f) acc"
  shows "locked_walk h s = Some (fold g bs 0, s)"
proof -
  have "walk_blocks h (heap_mem s) (link (base s) bs 0) 0 = Some (fold g bs 0)"
    using assms by (intro walk_blocks_seg) (auto simp: heap_rep_def heap_holds_def)
  then show ?thesis
    using assms(1) by (simp add: locked_walk_def heap_rep_def link_def heap_lock_idem)
qed

lemma fold_free_size:
  "fold (\<lambda>b acc. if snd b then acc + of_nat (fst b) else acc) bs acc = acc + (of_nat (free_total bs) :: u64)"
  by (induction bs arbitrary: acc) (auto simp: free_total_def)

lemma fold_count: "fold (\<lambda>b acc. acc + 1) bs acc = acc + (of_nat (length bs) :: u64)"
  by (induction bs arbitrary: acc) auto

lemma fold_free_count:
  "fold (\<lambda>b acc. if snd b then acc + 1 else acc) bs acc = acc + (of_nat (length (filter snd bs)) :: u64)"
  by (induction bs arbitrary: acc) auto

lemma stats_rep:
  assumes "heap_rep s bs"
  shows "kheap_get_free_size s = Some (of_nat (free_total bs), s)"
    and "kheap_get_block_count s = Some (of_nat (length bs), s)"
    and "kheap_get_free_block_count s = Some (of_nat (length (filter snd bs)), s)"
proof -
  have "kheap_get_free_size s =
      Some (fold (\<lambda>b acc. if snd b then acc + of_nat (fst b) else acc) bs 0, s)"
    unfolding kheap_get_free_size_def by (rule locked_walk_rep [OF assms]) (simp add: header_def)
  then show "kheap_get_free_size s = Some (of_nat (free_total bs), s)" by (simp add: fold_free_size)
  have "kheap_get_block_count s = Some (fold (\<lambda>b acc. acc + 1) bs 0, s)"
    unfolding kheap_get_block_count_def by (rule locked_walk_rep [OF assms]) simp
  then show "kheap_get_block_count s = Some (of_nat (length bs), s)" by (simp add: fold_count)
  have "kheap_get_free_block_count s = Some (fold (\<lambda>b acc. if snd b then acc + 1 else acc) bs 0, s)"
    unfolding kheap_get_free_block_count_def
    by (rule locked_walk_rep [OF assms]) (simp add: header_def)
  then show "kheap_get_free_block_count s = Some (of_nat (length (filter snd bs)), s)"
    by (simp add: fold_free_count)
qed

lemma release_carve:
  assumes "q = a + extent xs + 24" and "k \<le> n" and "coalesced (xs @ (n, True) # ys)"
  shows "release q a (xs @ carve k n @ ys) = xs @ (n, True) # ys"
proof -
  have "coalesced ((n, True) # ys)" using assms(3) by (induction xs) (auto simp: coalesced_Cons)
  then have "absorb n ys = (n, ys)" by (intro absorb_idem) (auto simp: coalesced_Cons)
  then show ?thesis using assms(2) by (auto simp: carve_def release_append [OF assms(1)])
qed

section \<open>A small heap\<close>

text \<open>A heap of 200 bytes, and the same heap after an allocation of 20 bytes.\<close>

definition kheap_example :: kheap_state where
  "kheap_example = kheap_init 4096 200
     \<lparr>heap_start = 0, heap_total_size = 0, heap_lock = 0, heap_mem = (\<lambda>_. 0)\<rparr>"

definition kheap_example_used :: kheap_state where
  "kheap_example_used = snd (the (kmalloc 20 kheap_example))"

lemma kheap_example_start [simp]: "heap_start kheap_example = 4096"
  by (simp add: kheap_example_def kheap_init_def c_defs Let_def)

lemma kheap_example_rep: "heap_rep kheap_example [(176, True)]"
  using kheap_init_rep [of 4096 200 "\<lparr>heap_start = 0, heap_total_size = 0, heap_lock = 0,
    heap_mem = (\<lambda>_. 0)\<rparr>"] by (simp add: kheap_example_def addr_space_def)

lemma rounded_20: "rounded 20 = 24"
  by (simp add: rounded_def addr_space_def)

lemma kheap_example_alloc:
  "kmalloc 20 kheap_example = Some (4120, kheap_example_used) \<and>
   heap_rep kheap_example_used [(24, False), (128, True)] \<and> heap_start kheap_example_used = 4096"
proof -
  have "spec_alloc (rounded 20) (base kheap_example) [(176, True)] =
      Some (4120, [(24, False), (128, True)])"
    by (simp add: rounded_20 carve_def)
  from kmalloc_some [OF kheap_example_rep _ this] show ?thesis
    by (auto simp: kheap_example_used_def)
qed

section \<open>Properties\<close>

text \<open>
  C12: On a well-formed heap \<open>kmalloc\<close> is first fit: it returns, with the lock released; it
  takes the first free block of at least the rounded size and splits it if at least 40 bytes
  remain; and it returns NULL, changing nothing, exactly if there is no such block.
\<close>

theorem kmalloc_first_fit:
  assumes "heap_rep s bs" and "sz \<noteq> 0"
  shows "case spec_alloc (rounded sz) (base s) bs of
      None \<Rightarrow> kmalloc sz s = Some (0, s)
    | Some (p, bs') \<Rightarrow> \<exists>s'. kmalloc sz s = Some (of_nat p, s') \<and> heap_rep s' bs' \<and>
        heap_start s' = heap_start s"
  using kmalloc_none [OF assms(1)] kmalloc_some [OF assms]
  by (auto split: option.splits)

theorem kmalloc_first_fit_witness:
  "\<exists>s'. kmalloc 20 kheap_example = Some (4120, s') \<and> heap_rep s' [(24, False), (128, True)]"
  using kmalloc_first_fit [OF kheap_example_rep, of 20] by (auto simp: rounded_20 carve_def)

text \<open>
  C13: \<open>kfree\<close> of an allocation returns with the lock released and gives back exactly that
  block; if the heap has at most 10000 blocks no two neighbouring blocks are free afterwards.
\<close>

theorem kfree_coalesces:
  assumes "heap_rep s bs" and "(p, n) \<in> live (base s) bs"
  shows "\<exists>s'. kfree (of_nat p) s = Some s' \<and> heap_rep s' (spec_free p (base s) bs) \<and>
    live (base s) (spec_free p (base s) bs) = live (base s) bs - {(p, n)} \<and>
    (length bs \<le> 10000 \<longrightarrow> coalesced (spec_free p (base s) bs))"
proof -
  from live_split [OF assms(2)] obtain xs ys where bs: "bs = xs @ (n, False) # ys"
    and p: "p = base s + extent xs + 24" by blast
  have "length (release p (base s) bs) \<le> length bs"
    unfolding bs release_append [OF p] using absorb_length [of n ys] by simp
  then have "length bs \<le> 10000 \<longrightarrow> coalesced (spec_free p (base s) bs)"
    using merge_coalesced [of "release p (base s) bs" 10000] by (simp add: spec_free_def)
  then show ?thesis using kfree_live [OF assms] spec_free_live [OF assms(2)] by auto
qed

theorem kfree_coalesces_witness:
  "\<exists>s'. kfree 4120 kheap_example_used = Some s' \<and>
     heap_rep s' (spec_free 4120 4096 [(24, False), (128, True)]) \<and>
     coalesced (spec_free 4120 4096 [(24, False), (128, True)])"
  using kfree_coalesces [OF kheap_example_alloc [THEN conjunct2, THEN conjunct1], of 4120 24]
    kheap_example_alloc by auto

text \<open>
  C1: A client that allocates, frees what it holds and writes inside what it holds never gets
  the heap stuck, finds in its memory exactly what it wrote there, and never holds two
  overlapping allocations, starting from a freshly initialised heap.
\<close>

theorem kheap_isolates_allocations:
  assumes "start_addr \<noteq> 0" and "40 \<le> size_bytes"
    and "unat start_addr + unat size_bytes < addr_space"
  shows "\<exists>s' H. heap_client_run kmalloc kfree kheap_peek kheap_poke size_fits ops
      (kheap_init start_addr size_bytes s, Map.empty) = Some (s', H) \<and>
    (\<forall>p bs i. H p = Some bs \<and> i < length bs \<longrightarrow> heap_mem s' (of_nat (p + i)) = bs ! i) \<and>
    (\<forall>p bs q cs. H p = Some bs \<and> H q = Some cs \<and> p \<noteq> q \<longrightarrow>
       p + length bs \<le> q \<or> q + length cs \<le> p)"
proof -
  have "heap_allocs (kheap_init start_addr size_bytes s) {}"
    using kheap_init_rep [OF assms, of s] by (auto simp: heap_allocs_def intro!: exI)
  then have "kh.view_ok (kheap_init start_addr size_bytes s) Map.empty"
    by (rule kh.view_okI) simp
  from kh.heap_client_run_ok [OF this, of ops] obtain s' H where
    run: "heap_client_run kmalloc kfree kheap_peek kheap_poke size_fits ops
      (kheap_init start_addr size_bytes s, Map.empty) = Some (s', H)" and ok: "kh.view_ok s' H" by blast
  have "\<forall>p bs i. H p = Some bs \<and> i < length bs \<longrightarrow> heap_mem s' (of_nat (p + i)) = bs ! i"
    using kh.view_contents [OF ok] unfolding kheap_peek_def by blast
  then show ?thesis using run kh.view_apart [OF ok] by blast
qed

theorem kheap_isolates_allocations_witness:
  "\<exists>s' H. heap_client_run kmalloc kfree kheap_peek kheap_poke size_fits
      [Heap_Alloc 20, Heap_Write 4120 3 7, Heap_Alloc 16, Heap_Free 4120]
      (kheap_example, Map.empty) = Some (s', H)"
  using kheap_isolates_allocations [of 4096 200
      "[Heap_Alloc 20, Heap_Write 4120 3 7, Heap_Alloc 16, Heap_Free 4120]"
      "\<lparr>heap_start = 0, heap_total_size = 0, heap_lock = 0, heap_mem = (\<lambda>_. 0)\<rparr>"]
  unfolding kheap_example_def by (auto simp: addr_space_def)

text \<open>
  On a heap without neighbouring free blocks, freeing what \<open>kmalloc\<close> just returned leads
  back to the same block list.
\<close>

theorem kmalloc_kfree_roundtrip:
  assumes "heap_rep s bs" and "coalesced bs" and "kmalloc sz s = Some (p, s1)" and "p \<noteq> 0"
  shows "\<exists>s2. kfree p s1 = Some s2 \<and> heap_rep s2 bs"
proof -
  have sz: "sz \<noteq> 0" using assms(3,4) by auto
  obtain q bs' where sp: "spec_alloc (rounded sz) (base s) bs = Some (q, bs')"
    using kmalloc_none [OF assms(1), of sz] assms(3,4)
    by (cases "spec_alloc (rounded sz) (base s) bs") auto
  from kmalloc_some [OF assms(1) sz sp] assms(3) have p: "p = of_nat q"
    and rep: "heap_rep s1 bs'" and st: "heap_start s1 = heap_start s" by auto
  from spec_alloc_live [OF sp] obtain k where "(q, k) \<in> live (base s1) bs'" by (auto simp: st)
  from kfree_live [OF rep this] obtain s2 where s2: "kfree (of_nat q) s1 = Some s2"
    "heap_rep s2 (spec_free q (base s1) bs')" by blast
  from spec_alloc_Some [OF sp] obtain xs n ys where
    bs: "bs = xs @ (n, True) # ys" and kn: "rounded sz \<le> n" and q: "q = base s1 + extent xs + 24"
    and bs': "bs' = xs @ carve (rounded sz) n @ ys" by (auto simp: st)
  have "release q (base s1) bs' = bs"
    using release_carve [OF q kn, of ys] assms(2) by (simp add: bs bs')
  then have "spec_free q (base s1) bs' = bs"
    using merge_idem [OF assms(2)] by (simp add: spec_free_def)
  with s2 p show ?thesis by auto
qed

theorem kmalloc_kfree_roundtrip_witness:
  "\<exists>s2. kfree 4120 kheap_example_used = Some s2 \<and> heap_rep s2 [(176, True)]"
  using kmalloc_kfree_roundtrip [OF kheap_example_rep, of 20 4120 kheap_example_used]
    kheap_example_alloc by simp

text \<open>
  C16: \<open>krealloc\<close> of an allocation to a non-zero size returns an allocation of at least that
  size whose first bytes are those of the old one, or NULL with the old one still allocated;
  all other allocations keep their contents.
\<close>

theorem krealloc_keeps_contents:
  assumes "heap_allocs s L" and "(p, n) \<in> L" and "new_size \<noteq> 0" and "size_fits new_size"
  shows "\<exists>q s'. krealloc (of_nat p) new_size s = Some (q, s') \<and>
    (q = 0 \<and> heap_allocs s' L \<and> (\<forall>x \<in> data_bytes L. kheap_peek x s' = kheap_peek x s) \<or>
     q \<noteq> 0 \<and> (\<exists>k \<ge> unat new_size. heap_allocs s' (insert (unat q, k) (L - {(p, n)}))) \<and>
     (\<forall>i < min n (unat new_size). kheap_peek (unat q + i) s' = kheap_peek (p + i) s) \<and>
     (\<forall>x \<in> data_bytes (L - {(p, n)}). kheap_peek x s' = kheap_peek x s))"
proof -
  from assms(1) obtain bs where rep: "heap_rep s bs" and L: "L = live (base s) bs"
    by (auto simp: heap_allocs_def)
  note eq = krealloc_live [OF rep assms(2) [unfolded L] assms(3)]
  note sp = live_in_space [OF rep assms(2) [unfolded L]]
  show ?thesis
  proof (cases "align8 new_size \<le> of_nat n")
    case True
    then have "unat new_size \<le> n"
      using align8_ge [OF assms(4)] sp by (simp add: word_le_nat_alt)
    then show ?thesis using True eq sp assms(1,2) by (auto simp: insert_absorb)
  next
    case False
    then have n: "n < unat (align8 new_size)" using sp by (simp add: word_le_nat_alt)
    from kmalloc_alloc_law [OF assms(1) align8_fits [OF assms(4)]] obtain a s1 where
      a: "kmalloc (align8 new_size) s = Some (a, s1)"
      and r: "a = 0 \<and> heap_allocs s1 L \<or> (\<exists>k \<ge> unat (align8 new_size). a \<noteq> 0 \<and>
         heap_allocs s1 (insert (unat a, k) L) \<and> unat a \<notin> fst ` L)"
      and c: "\<forall>x \<in> data_bytes L. kheap_peek x s1 = kheap_peek x s" by blast
    show ?thesis
    proof (cases "a = 0")
      case True
      then show ?thesis using False eq a r c by auto
    next
      case nz: False
      then obtain k where k: "unat (align8 new_size) \<le> k" "heap_allocs s1 (insert (unat a, k) L)"
        "unat a \<notin> fst ` L" using r by blast
      from krealloc_move [OF assms(2) k(2,3) _ c] n k(1) obtain s3 where
        s3: "kfree (of_nat p) (s1\<lparr>heap_mem := copy_loop a (of_nat p) n (heap_mem s1)\<rparr>) = Some s3"
        "heap_allocs s3 (insert (unat a, k) (L - {(p, n)}))"
        "\<forall>i < n. kheap_peek (unat a + i) s3 = kheap_peek (p + i) s"
        "\<forall>x \<in> data_bytes (L - {(p, n)}). kheap_peek x s3 = kheap_peek x s" by auto
      moreover have "unat new_size \<le> k" using align8_ge [OF assms(4)] k(1) by simp
      ultimately show ?thesis using False eq a nz by auto
    qed
  qed
qed

theorem krealloc_keeps_contents_witness:
  "\<exists>q s'. krealloc 4120 64 kheap_example_used = Some (q, s') \<and>
     (q = 0 \<or> kheap_peek (unat q + 3) s' = kheap_peek 4123 kheap_example_used)"
proof -
  have "heap_allocs kheap_example_used {(4120, 24)}"
    using kheap_example_alloc by (auto simp: heap_allocs_def intro!: exI)
  from krealloc_keeps_contents [OF this, of 4120 24 64] show ?thesis
    by (auto simp: size_fits_def addr_space_def)
qed

text \<open>
  The statistics functions return, release the lock, and add up: the total size is 24
  bytes of header per block plus the free and the used data bytes.
\<close>

theorem kheap_statistics_add_up:
  assumes "heap_rep s bs"
  shows "\<exists>count free_size free_count.
    kheap_get_block_count s = Some (count, s) \<and> unat count = length bs \<and>
    kheap_get_free_size s = Some (free_size, s) \<and> unat free_size = free_total bs \<and>
    kheap_get_free_block_count s = Some (free_count, s) \<and> unat free_count = length (filter snd bs) \<and>
    unat (kheap_get_total_size s) = 24 * unat count + unat free_size + used_total bs"
proof -
  have tot: "unat (heap_total_size s) = 24 * length bs + free_total bs + used_total bs"
    "unat (heap_total_size s) < addr_space"
    using assms extent_totals [of bs] by (auto simp: heap_rep_def heap_holds_def)
  have "length (filter snd bs) < addr_space"
    using tot length_filter_le [of snd bs] by linarith
  with tot show ?thesis using stats_rep [OF assms] by (simp add: kheap_get_total_size_def)
qed

theorem kheap_statistics_add_up_witness:
  "\<exists>c. kheap_get_block_count kheap_example_used = Some (c, kheap_example_used) \<and> unat c = 2"
  using kheap_statistics_add_up [OF kheap_example_alloc [THEN conjunct2, THEN conjunct1]] by auto

text \<open>
  A request within 7 bytes of the largest size wraps around when it is rounded: on any
  heap with a free block \<open>kmalloc\<close> succeeds, and the allocation is smaller than requested.
\<close>

theorem kmalloc_size_wraps:
  assumes "heap_rep s bs" and "addr_space \<le> unat sz + 7" and "(n, True) \<in> set bs"
  shows "\<exists>p k s' bs'. kmalloc sz s = Some (of_nat p, s') \<and> heap_rep s' bs' \<and>
    (p, k) \<in> live (base s') bs' \<and> k < unat sz"
proof -
  have "unat sz < addr_space" by (rule unat_lt_addr_space)
  then have "(unat sz + 7) mod addr_space = unat sz + 7 - addr_space"
    using assms(2) by (simp add: le_mod_geq addr_space_def)
  then have r: "rounded sz = 16" using \<open>unat sz < addr_space\<close> by (simp add: rounded_def max_def)
  have "16 \<le> n" using assms(1,3) by (force simp: heap_rep_def big_enough_def)
  then have "spec_alloc (rounded sz) (base s) bs \<noteq> None"
    using assms(3) by (auto simp: spec_alloc_None r)
  then obtain p bs' where sp: "spec_alloc (rounded sz) (base s) bs = Some (p, bs')" by auto
  have "sz \<noteq> 0" using assms(2) by (auto simp: addr_space_def)
  from kmalloc_some [OF assms(1) this sp] obtain s' where s': "kmalloc sz s = Some (of_nat p, s')"
    "heap_rep s' bs'" "heap_start s' = heap_start s" by blast
  from spec_alloc_live [OF sp] obtain k where k: "(p, k) \<in> live (base s') bs'" by (auto simp: s'(3))
  have "k < unat sz" using live_in_space [OF s'(2) k] assms(2) by simp
  with s' k show ?thesis by blast
qed

theorem kmalloc_size_wraps_witness:
  "\<exists>p k s' bs'. kmalloc (- 1) kheap_example = Some (of_nat p, s') \<and> heap_rep s' bs' \<and>
    (p, k) \<in> live (base s') bs' \<and> k < unat (- 1 :: u64)"
  using kmalloc_size_wraps [OF kheap_example_rep, of "- 1" 176]
  by (simp add: addr_space_def unsigned_minus_1_eq_mask mask_eq_exp_minus_1)

end
