(* ===== verification/Cstring.thy ===== *)
theory Cstring
  imports Alos_Prelude
begin

text \<open>
  The string library, \<^verbatim>\<open>lib/string.c\<close>. A pointer argument is the list of bytes of its object from
  the address pointed to up to the end of the object; running off that end is undefined
  behaviour, \<open>None\<close>. Functions that write return the new contents of the destination. As the
  C standard asks of their callers, source and destination do not overlap.
\<close>

section \<open>Model of the source\<close>

fun strlen :: "bytes \<Rightarrow> nat option" where
  "strlen [] = None"
| "strlen (c # cs) = (if c \<noteq> 0 then map_option Suc (strlen cs) else Some 0)"

text \<open>The result is the difference of the two bytes as \<^verbatim>\<open>unsigned char\<close>.\<close>

fun strcmp :: "bytes \<Rightarrow> bytes \<Rightarrow> int option" where
  "strcmp (a # s1) (b # s2) =
     (if a \<noteq> 0 \<and> a = b then strcmp s1 s2 else Some (uint a - uint b))"
| "strcmp _ _ = None"

fun strncmp :: "bytes \<Rightarrow> bytes \<Rightarrow> nat \<Rightarrow> int option" where
  "strncmp s1 s2 0 = Some 0"
| "strncmp (a # s1) (b # s2) (Suc n) =
     (if a \<noteq> 0 \<and> a = b then strncmp s1 s2 n else Some (uint a - uint b))"
| "strncmp _ _ (Suc n) = None"

fun strcpy :: "bytes \<Rightarrow> bytes \<Rightarrow> bytes option" where
  "strcpy (d # dest) (c # src) =
     (if c \<noteq> 0 then map_option ((#) c) (strcpy dest src) else Some (c # dest))"
| "strcpy _ _ = None"

text \<open>The second loop of \<open>strncpy\<close>, which writes \<open>n\<close> zero bytes.\<close>

fun zero_fill :: "bytes \<Rightarrow> nat \<Rightarrow> bytes option" where
  "zero_fill dest 0 = Some dest"
| "zero_fill (d # dest) (Suc n) = map_option ((#) 0) (zero_fill dest n)"
| "zero_fill [] (Suc n) = None"

text \<open>The first loop: the terminator is copied before the counter would be decremented.\<close>

fun strncpy :: "bytes \<Rightarrow> bytes \<Rightarrow> nat \<Rightarrow> bytes option" where
  "strncpy dest src 0 = Some dest"
| "strncpy (d # dest) (c # src) (Suc n) =
     (if c \<noteq> 0 then map_option ((#) c) (strncpy dest src n)
      else map_option ((#) c) (zero_fill dest (Suc n)))"
| "strncpy _ _ (Suc n) = None"

fun strcat :: "bytes \<Rightarrow> bytes \<Rightarrow> bytes option" where
  "strcat [] src = None"
| "strcat (d # dest) src =
     (if d \<noteq> 0 then map_option ((#) d) (strcat dest src) else strcpy (d # dest) src)"

text \<open>The inner loop of \<open>strtok\<close>: is the character one of the delimiters?\<close>

fun is_delim :: "u8 \<Rightarrow> bytes \<Rightarrow> bool option" where
  "is_delim c [] = None"
| "is_delim c (d # delim) = (if d = 0 then Some False else if c = d then Some True else is_delim c delim)"

text \<open>The loop that skips leading delimiters, from offset \<open>i\<close>; the offset where it stops.\<close>

function skip_delims :: "bytes \<Rightarrow> bytes \<Rightarrow> nat \<Rightarrow> nat option" where
  "skip_delims buf delim i =
     (if i < length buf then
        if buf ! i = 0 then Some i
        else do { d \<leftarrow> is_delim (buf ! i) delim; if d then skip_delims buf delim (Suc i) else Some i }
      else None)"
  by auto
termination by (relation "measure (\<lambda>(buf, _, i). length buf - i)") auto

text \<open>The loop that finds the end of the token: the offset, and whether a delimiter ended it.\<close>

function find_token_end :: "bytes \<Rightarrow> bytes \<Rightarrow> nat \<Rightarrow> (nat \<times> bool) option" where
  "find_token_end buf delim i =
     (if i < length buf then
        if buf ! i = 0 then Some (i, False)
        else do {
          d \<leftarrow> is_delim (buf ! i) delim;
          if d then Some (i, True) else find_token_end buf delim (Suc i)
        }
      else None)"
  by auto
termination by (relation "measure (\<lambda>(buf, _, i). length buf - i)") auto

declare skip_delims.simps [simp del] find_token_end.simps [simp del]

text \<open>
  \<open>strtok\<close> on the string object \<open>buf\<close>: the argument, the static \<^verbatim>\<open>strtok_saveptr\<close> and the result are
  offsets into it, \<open>None\<close> being NULL; it returns the token, the object, and the new static.
\<close>

definition strtok ::
  "bytes \<Rightarrow> nat option \<Rightarrow> bytes \<Rightarrow> nat option \<Rightarrow> (nat option \<times> bytes \<times> nat option) option" where
  "strtok buf str delim strtok_saveptr =
     (case (case str of None \<Rightarrow> strtok_saveptr | Some p \<Rightarrow> Some p) of
        None \<Rightarrow> Some (None, buf, strtok_saveptr)
      | Some p \<Rightarrow> do {
          i \<leftarrow> skip_delims buf delim p;
          c \<leftarrow> aget buf i;
          if c = 0 then Some (None, buf, None)
          else do {
            (j, delimited) \<leftarrow> find_token_end buf delim i;
            if delimited then do {
              buf' \<leftarrow> aset buf j 0;
              Some (Some i, buf', Some (j + 1))
            }
            else Some (Some i, buf, None)
          }
        })"

definition isspace :: "u8 \<Rightarrow> bool" where
  "isspace c \<longleftrightarrow> c = 32 \<or> c = 9 \<or> c = 10 \<or> c = 13 \<or> c = 12 \<or> c = 11"

definition isdigit :: "u8 \<Rightarrow> bool" where
  "isdigit c \<longleftrightarrow> c \<ge> 48 \<and> c \<le> 57"

definition isalpha :: "u8 \<Rightarrow> bool" where
  "isalpha c \<longleftrightarrow> (c \<ge> 97 \<and> c \<le> 122) \<or> (c \<ge> 65 \<and> c \<le> 90)"

definition INT_MAX :: int where "INT_MAX = 2147483647"

text \<open>The loops of \<open>atoi\<close>; overflow of the signed result is undefined.\<close>

fun skip_spaces :: "bytes \<Rightarrow> bytes option" where
  "skip_spaces [] = None"
| "skip_spaces (c # str) = (if isspace c then skip_spaces str else Some (c # str))"

fun convert_digits :: "bytes \<Rightarrow> int \<Rightarrow> int option" where
  "convert_digits [] result = None"
| "convert_digits (c # str) result =
     (if isdigit c then
        if result * 10 + (uint c - 48) \<le> INT_MAX
        then convert_digits str (result * 10 + (uint c - 48)) else None
      else Some result)"

definition atoi :: "bytes \<Rightarrow> int option" where
  "atoi str = do {
     str \<leftarrow> skip_spaces str;
     c \<leftarrow> aget str 0;
     let (sign, str) = (if c = 45 then (- 1, tl str) else if c = 43 then (1, tl str) else (1, str));
     result \<leftarrow> convert_digits str 0;
     Some (sign * result)
   }"

fun memset :: "bytes \<Rightarrow> int \<Rightarrow> nat \<Rightarrow> bytes option" where
  "memset p value 0 = Some p"
| "memset (b # p) value (Suc n) = map_option ((#) (word_of_int value)) (memset p value n)"
| "memset [] value (Suc n) = None"

fun memcpy :: "bytes \<Rightarrow> bytes \<Rightarrow> nat \<Rightarrow> bytes option" where
  "memcpy d s 0 = Some d"
| "memcpy (x # d) (y # s) (Suc n) = map_option ((#) y) (memcpy d s n)"
| "memcpy _ _ (Suc n) = None"

fun memcmp :: "bytes \<Rightarrow> bytes \<Rightarrow> nat \<Rightarrow> int option" where
  "memcmp p1 p2 0 = Some 0"
| "memcmp (a # p1) (b # p2) (Suc n) = (if a \<noteq> b then Some (uint a - uint b) else memcmp p1 p2 n)"
| "memcmp _ _ (Suc n) = None"

section \<open>Strings in buffers\<close>

text \<open>A buffer holds the string \<open>cs\<close>: its bytes, a terminator, and anything behind it.\<close>

definition cstring :: "bytes \<Rightarrow> bytes \<Rightarrow> bool" where
  "cstring buf cs \<longleftrightarrow> 0 \<notin> set cs \<and> (\<exists>rest. buf = cs @ 0 # rest)"

lemma cstringE:
  assumes "cstring buf cs"
  obtains rest where "buf = cs @ 0 # rest" "0 \<notin> set cs"
  using assms by (auto simp: cstring_def)

lemma cstring_Nil [simp]: "cstring (c # buf) [] \<longleftrightarrow> c = 0"
  by (auto simp: cstring_def)

lemma cstring_Cons [simp]: "cstring (c # buf) (x # cs) \<longleftrightarrow> c = x \<and> x \<noteq> 0 \<and> cstring buf cs"
  by (auto simp: cstring_def)

lemma cstring_empty [simp]: "\<not> cstring [] cs"
  by (simp add: cstring_def)

lemma strlen_cstring: "cstring buf cs \<Longrightarrow> strlen buf = Some (length cs)"
proof (induction cs arbitrary: buf)
  case Nil
  then show ?case by (cases buf) auto
next
  case (Cons c cs)
  then show ?case by (cases buf) auto
qed

text \<open>Bytes compare as their unsigned values.\<close>

lemma uint_u8_eq_iff: "uint (a :: u8) = uint b \<longleftrightarrow> a = b"
  by (simp add: word_uint_eq_iff)

lemma uint_u8_0_iff: "uint (a :: u8) = 0 \<longleftrightarrow> a = 0"
  by (simp add: word_uint_eq_iff)

lemma uint_u8_pos: "0 < uint (a :: u8) \<longleftrightarrow> a \<noteq> 0"
  using uint_u8_0_iff [of a] uint_ge_0 [of a] by linarith

lemmas u8_order = uint_u8_eq_iff uint_u8_0_iff uint_u8_pos word_less_def

text \<open>Copies.\<close>

lemma zero_fill_eq:
  "zero_fill dest n = (if n \<le> length dest then Some (replicate n 0 @ drop n dest) else None)"
  by (induction dest n rule: zero_fill.induct) auto

lemma memset_eq:
  "memset p v n = (if n \<le> length p then Some (replicate n (word_of_int v) @ drop n p) else None)"
  by (induction p v n rule: memset.induct) auto

lemma memcpy_eq:
  "memcpy d s n =
    (if n \<le> length d \<and> n \<le> length s then Some (take n s @ drop n d) else None)"
  by (induction d s n rule: memcpy.induct) auto

lemma memcmp_0_iff:
  "n \<le> length p1 \<Longrightarrow> n \<le> length p2 \<Longrightarrow>
   \<exists>r. memcmp p1 p2 n = Some r \<and> (r = 0 \<longleftrightarrow> take n p1 = take n p2)"
  by (induction p1 p2 n rule: memcmp.induct) (auto simp: u8_order)

lemma strcpy_cstring:
  "cstring src cs \<Longrightarrow>
   strcpy dest src = (if length cs < length dest then Some (cs @ 0 # drop (Suc (length cs)) dest) else None)"
proof (induction cs arbitrary: src dest)
  case Nil
  then show ?case by (cases src; cases dest) auto
next
  case (Cons c cs)
  then show ?case by (cases src; cases dest) auto
qed

lemma strcat_cstring:
  "cstring dest ds \<Longrightarrow> cstring src cs \<Longrightarrow>
   strcat dest src = (if length ds + length cs < length dest
     then Some (ds @ cs @ 0 # drop (Suc (length ds + length cs)) dest) else None)"
proof (induction ds arbitrary: dest)
  case Nil
  then show ?case by (cases dest) (auto simp: strcpy_cstring)
next
  case (Cons d ds)
  then show ?case by (cases dest) auto
qed

lemma strncpy_short:
  "cstring src cs \<Longrightarrow> length cs < n \<Longrightarrow>
   strncpy dest src n = (if n < length dest
     then Some (cs @ replicate (Suc n - length cs) 0 @ drop (Suc n) dest) else None)"
proof (induction cs arbitrary: src dest n)
  case Nil
  then show ?case by (cases src; cases dest; cases n) (auto simp: zero_fill_eq)
next
  case (Cons c cs)
  then show ?case by (cases src; cases dest; cases n) (auto simp: Suc_diff_le)
qed

lemma strncpy_long:
  "cstring src cs \<Longrightarrow> n \<le> length cs \<Longrightarrow>
   strncpy dest src n = (if n \<le> length dest then Some (take n cs @ drop n dest) else None)"
proof (induction n arbitrary: src dest cs)
  case 0
  then show ?case by simp
next
  case (Suc n)
  then show ?case by (cases cs; cases src; cases dest) auto
qed

text \<open>Comparison.\<close>

lemma strcmp_cstring:
  "cstring b1 c1 \<Longrightarrow> cstring b2 c2 \<Longrightarrow>
   \<exists>r. strcmp b1 b2 = Some r \<and> (r = 0 \<longleftrightarrow> c1 = c2) \<and>
       (r < 0 \<longleftrightarrow> (c1, c2) \<in> lexord {(x, y). x < y})"
proof (induction b1 b2 arbitrary: c1 c2 rule: strcmp.induct)
  case (1 a s1 b s2)
  show ?case
  proof (cases "c1 = [] \<or> c2 = []")
    case True
    then show ?thesis
      using 1 by (cases c1; cases c2) (auto simp: u8_order)
  next
    case False
    then obtain d1 d2 where "c1 = a # d1" "c2 = b # d2" "a \<noteq> 0" "b \<noteq> 0"
      "cstring s1 d1" "cstring s2 d2" using "1.prems" by (cases c1; cases c2) auto
    then show ?thesis using "1.IH" [of d1 d2] by (auto simp: u8_order)
  qed
qed auto

lemma strncmp_prefix:
  "cstring b1 c1 \<Longrightarrow> cstring b2 c2 \<Longrightarrow>
   \<exists>r. strncmp b1 b2 n = Some r \<and> (r = 0 \<longleftrightarrow> take n c1 = take n c2)"
proof (induction b1 b2 n arbitrary: c1 c2 rule: strncmp.induct)
  case (2 a s1 b s2 n)
  then show ?case by (cases c1; cases c2) (auto simp: u8_order)
qed auto

section \<open>Tokens\<close>

text \<open>The maximal runs of characters that do not satisfy \<open>P\<close>.\<close>

function tokens :: "(u8 \<Rightarrow> bool) \<Rightarrow> bytes \<Rightarrow> bytes list" where
  "tokens P [] = []"
| "tokens P (c # cs) =
     (if P c then tokens P cs
      else (c # takeWhile (\<lambda>x. \<not> P x) cs) # tokens P (dropWhile (\<lambda>x. \<not> P x) cs))"
  by pat_completeness auto
termination by (relation "measure (length \<circ> snd)") (auto simp: le_imp_less_Suc length_dropWhile_le)

text \<open>A caller's loop: the first call with the string, the following ones with NULL.\<close>

fun strtok_loop ::
  "nat \<Rightarrow> bytes \<Rightarrow> nat option \<Rightarrow> bytes \<Rightarrow> nat option \<Rightarrow> bytes list option" where
  "strtok_loop 0 buf str delim saveptr = None"
| "strtok_loop (Suc n) buf str delim saveptr = do {
     (tok, buf, saveptr) \<leftarrow> strtok buf str delim saveptr;
     case tok of
       None \<Rightarrow> Some []
     | Some i \<Rightarrow> map_option ((#) (takeWhile (\<lambda>c. c \<noteq> 0) (drop i buf)))
                   (strtok_loop n buf None delim saveptr)
   }"

lemma is_delim_cstring:
  "cstring delim ds \<Longrightarrow> c \<noteq> 0 \<Longrightarrow> is_delim c delim = Some (c \<in> set ds)"
proof (induction ds arbitrary: delim)
  case Nil
  then show ?case by (cases delim) auto
next
  case (Cons d ds)
  then show ?case by (cases delim) auto
qed

lemma skip_delims_eq:
  assumes "cstring delim ds" and "0 \<notin> set cs"
  shows "skip_delims (pre @ cs @ 0 # rest) delim (length pre) =
    Some (length pre + length (takeWhile (\<lambda>c. c \<in> set ds) cs))"
  using assms(2)
proof (induction cs arbitrary: pre)
  case Nil
  then show ?case by (subst skip_delims.simps) (simp add: nth_append)
next
  case (Cons c cs)
  then show ?case
    using Cons.IH [of "pre @ [c]"]
    by (subst skip_delims.simps) (auto simp: nth_append is_delim_cstring [OF assms(1)])
qed

lemma find_token_end_eq:
  assumes "cstring delim ds" and "0 \<notin> set cs"
  shows "find_token_end (pre @ cs @ 0 # rest) delim (length pre) =
    Some (length pre + length (takeWhile (\<lambda>c. c \<notin> set ds) cs), \<exists>c \<in> set cs. c \<in> set ds)"
  using assms(2)
proof (induction cs arbitrary: pre)
  case Nil
  then show ?case by (subst find_token_end.simps) (simp add: nth_append)
next
  case (Cons c cs)
  then show ?case
    using Cons.IH [of "pre @ [c]"]
    by (subst find_token_end.simps) (auto simp: nth_append is_delim_cstring [OF assms(1)])
qed

text \<open>One call: leading delimiters are skipped, the token is cut off at the next delimiter.\<close>

lemma strtok_step:
  assumes "cstring delim ds" and "0 \<notin> set cs" and "buf = pre @ cs @ 0 # rest"
    and "(case str of None \<Rightarrow> saveptr | Some p \<Rightarrow> Some p) = Some (length pre)"
  defines "xs \<equiv> dropWhile (\<lambda>c. c \<in> set ds) cs"
  defines "t \<equiv> takeWhile (\<lambda>c. c \<notin> set ds) xs"
  defines "i \<equiv> length pre + length (takeWhile (\<lambda>c. c \<in> set ds) cs)"
  shows "strtok buf str delim saveptr = Some (
    if xs = [] then (None, buf, None)
    else if t = xs then (Some i, buf, None)
    else (Some i, buf[i + length t := 0], Some (i + length t + 1)))"
proof -
  let ?pre = "pre @ takeWhile (\<lambda>c. c \<in> set ds) cs"
  have i: "i = length ?pre" by (simp add: i_def)
  have buf: "buf = ?pre @ xs @ 0 # rest" by (simp add: assms(3) xs_def)
  have nz: "0 \<notin> set xs" using assms(2) set_dropWhileD [of 0 _ cs] by (auto simp: xs_def)
  have skip: "skip_delims buf delim (length pre) = Some i"
    using skip_delims_eq [OF assms(1,2), of pre rest] by (simp add: assms(3) i_def)
  have fe: "find_token_end buf delim i = Some (i + length t, \<exists>c \<in> set xs. c \<in> set ds)"
    using find_token_end_eq [OF assms(1) nz, of ?pre rest] unfolding buf i t_def .
  have tx: "t = xs \<longleftrightarrow> \<not> (\<exists>c \<in> set xs. c \<in> set ds)"
    unfolding t_def by (simp add: takeWhile_eq_all_conv)
  have le: "length t \<le> length xs" unfolding t_def by (rule length_takeWhile_le)
  have "aget buf i = Some ((xs @ 0 # rest) ! 0)"
    by (simp add: buf i aget_def nth_append)
  then have c: "aget buf i = Some (if xs = [] then 0 else hd xs)" by (cases xs) auto
  have "hd xs \<noteq> 0" if "xs \<noteq> []" using nz that by (cases xs) auto
  moreover have "aset buf (i + length t) 0 = Some (buf[i + length t := 0])"
    using le by (intro aset_in) (simp add: buf i)
  ultimately show ?thesis
    using assms(4) skip c fe tx by (auto simp: strtok_def)
qed

lemma tokens_dropWhile: "tokens P (dropWhile P cs) = tokens P cs"
  by (induction cs) auto

lemma strtok_loop_tokens:
  assumes "cstring delim ds"
  shows "0 \<notin> set cs \<Longrightarrow> buf = pre @ cs @ 0 # rest \<Longrightarrow> length cs < n \<Longrightarrow>
    (case str of None \<Rightarrow> saveptr | Some p \<Rightarrow> Some p) = Some (length pre) \<Longrightarrow>
    strtok_loop n buf str delim saveptr = Some (tokens (\<lambda>c. c \<in> set ds) cs)"
proof (induction n arbitrary: cs pre buf str saveptr)
  case 0
  then show ?case by simp
next
  case (Suc n)
  let ?P = "\<lambda>c. c \<in> set ds"
  define xs t where "xs = dropWhile ?P cs" and "t = takeWhile (\<lambda>c. \<not> ?P c) xs"
  define i where "i = length pre + length (takeWhile ?P cs)"
  note st = strtok_step [OF assms Suc.prems(1,2,4), folded xs_def, folded t_def i_def]
  have buf: "buf = (pre @ takeWhile ?P cs) @ xs @ 0 # rest" by (simp add: Suc.prems(2) xs_def)
  have nz: "0 \<notin> set xs" using Suc.prems(1) set_dropWhileD [of 0 _ cs] by (auto simp: xs_def)
  have tz: "takeWhile (\<lambda>c. c \<noteq> 0) (t @ 0 # ys) = t" for ys
    using nz set_takeWhileD [of _ _ xs] by (subst takeWhile_append2) (auto simp: t_def)
  show ?case
  proof (cases "xs = []")
    case True
    then show ?thesis using st tokens_dropWhile [of ?P cs, folded xs_def] by simp
  next
    case ne: False
    have hd: "\<not> ?P (hd xs)" using hd_dropWhile [of ?P cs] ne by (simp add: xs_def)
    have tok: "tokens ?P cs = t # tokens ?P (dropWhile (\<lambda>c. \<not> ?P c) xs)"
      using tokens_dropWhile [of ?P cs] ne hd by (cases xs) (auto simp: xs_def t_def)
    show ?thesis
    proof (cases "t = xs")
      case True
      then have "dropWhile (\<lambda>c. \<not> ?P c) xs = []" by (simp add: t_def takeWhile_eq_all_conv dropWhile_eq_Nil_conv)
      then have "tokens ?P (dropWhile (\<lambda>c. \<not> ?P c) xs) = []" by (simp only: tokens.simps)
      moreover have "takeWhile (\<lambda>c. c \<noteq> 0) (drop i buf) = t"
        using tz [of rest] True by (simp add: buf i_def)
      moreover have "strtok_loop n buf None delim None = Some []"
        using Suc.prems(3) ne by (cases n) (auto simp: strtok_def xs_def)
      ultimately show ?thesis using st ne True tok by simp
    next
      case False
      let ?r = "dropWhile (\<lambda>c. \<not> ?P c) xs"
      have split: "t @ ?r = xs" unfolding t_def by (rule takeWhile_dropWhile_id)
      with False have "?r \<noteq> []" by (metis append_Nil2)
      then obtain d ys where dys: "?r = d # ys" by (meson neq_Nil_conv)
      with hd_dropWhile [of "\<lambda>c. \<not> ?P c" xs] have "?P d" by simp
      with dys split have ys: "?r = d # ys" "?P d" "xs = t @ d # ys" by simp_all
      let ?pre = "pre @ takeWhile ?P cs @ t @ [0]"
      have buf': "buf[i + length t := 0] = ?pre @ ys @ 0 # rest"
        by (simp add: buf ys(3) i_def list_update_append)
      have "length xs \<le> length cs" by (simp add: xs_def length_dropWhile_le)
      then have "strtok_loop n (buf[i + length t := 0]) None delim (Some (i + length t + 1)) =
          Some (tokens ?P ys)"
        using nz ys(3) Suc.prems(3) by (intro Suc.IH [OF _ buf']) (auto simp: i_def)
      moreover have "takeWhile (\<lambda>c. c \<noteq> 0) (drop i (buf[i + length t := 0])) = t"
        unfolding buf' using tz [of "ys @ 0 # rest"] by (simp add: i_def)
      ultimately show ?thesis using st ne False tok ys(1,2) by simp
    qed
  qed
qed

section \<open>Decimal numbers\<close>

text \<open>The decimal digits of a number.\<close>

fun dec :: "nat \<Rightarrow> bytes" where
  "dec n = (if n < 10 then [48 + of_nat n] else dec (n div 10) @ [48 + of_nat (n mod 10)])"

declare dec.simps [simp del]

lemma digit_value:
  assumes "d < 10"
  shows "uint (48 + of_nat d :: u8) = 48 + int d"
proof -
  have "unat (48 + of_nat d :: u8) = 48 + d"
    using assms by (simp add: unat_word_ariths unat_of_nat)
  then show ?thesis by (simp add: uint_nat)
qed

lemma digit_isdigit: "d < 10 \<Longrightarrow> isdigit (48 + of_nat d)"
  by (simp add: isdigit_def word_le_def digit_value)

lemma convert_digits_digit:
  "d < 10 \<Longrightarrow> convert_digits ((48 + of_nat d) # rest) r =
    (if r * 10 + int d \<le> INT_MAX then convert_digits rest (r * 10 + int d) else None)"
  by (simp add: digit_isdigit digit_value)

lemma convert_digits_dec:
  "convert_digits (dec n @ rest) 0 = (if int n \<le> INT_MAX then convert_digits rest (int n) else None)"
proof (induction n arbitrary: rest rule: dec.induct)
  case (1 n)
  show ?case
  proof (cases "n < 10")
    case True
    then show ?thesis by (subst dec.simps) (simp add: convert_digits_digit del: convert_digits.simps)
  next
    case False
    have n: "int (n div 10) * 10 + int (n mod 10) = int n"
      by (simp add: zdiv_int zmod_int)
    have le: "int n \<le> INT_MAX \<Longrightarrow> int (n div 10) \<le> INT_MAX"
      by (rule order_trans [of _ "int n"]) simp_all
    let ?c = "48 + of_nat (n mod 10) :: u8"
    have "dec n @ rest = dec (n div 10) @ ?c # rest" using False by (subst dec.simps) simp
    then have "convert_digits (dec n @ rest) 0 =
        (if int (n div 10) \<le> INT_MAX then convert_digits (?c # rest) (int (n div 10)) else None)"
      using 1 [OF False, of "?c # rest"] by (simp only:)
    also have "\<dots> = (if int n \<le> INT_MAX then convert_digits rest (int n) else None)"
      using le convert_digits_digit [of "n mod 10" rest "int (n div 10)"] by (simp only: n) auto
    finally show ?thesis .
  qed
qed

lemma dec_first: "\<exists>d ds. dec n = (48 + of_nat d) # ds \<and> d < 10"
proof (induction n rule: dec.induct)
  case (1 n)
  then show ?case by (cases "n < 10") (subst dec.simps; auto)+
qed

lemma skip_spaces_append: "\<forall>c \<in> set ws. isspace c \<Longrightarrow> skip_spaces (ws @ str) = skip_spaces str"
  by (induction ws) auto

lemma digit_not_space_or_sign:
  assumes "isdigit c"
  shows "\<not> isspace c" "c \<noteq> 45" "c \<noteq> 43"
  using assms by (auto simp: isdigit_def isspace_def)

section \<open>Properties\<close>

text \<open>
  \<open>strcmp\<close> of two strings is 0 exactly if they are equal, and negative exactly if the first
  comes before the second in the lexicographic order of unsigned bytes.
\<close>

theorem strcmp_lexicographic:
  assumes "cstring s1 c1" and "cstring s2 c2"
  shows "\<exists>r. strcmp s1 s2 = Some r \<and> (r = 0 \<longleftrightarrow> c1 = c2) \<and>
    (r < 0 \<longleftrightarrow> (c1, c2) \<in> lexord {(x, y). x < y})"
  by (rule strcmp_cstring [OF assms])

theorem strcmp_lexicographic_witness:
  "\<exists>r. strcmp [97, 98, 0] [97, 200, 0, 5] = Some r \<and> r < 0"
  using strcmp_lexicographic [of "[97, 98, 0]" "[97, 98]" "[97, 200, 0, 5]" "[97, 200]"] by simp

text \<open>
  \<open>strncpy\<close> with a limit \<open>n\<close> writes \<open>n\<close> bytes when the source has at least \<open>n\<close> characters, but
  \<open>n + 1\<close> bytes when it is shorter: a destination of exactly \<open>n\<close> bytes is overrun.
\<close>

theorem strncpy_writes_past_limit:
  assumes "cstring src cs"
  shows "strncpy dest src n =
    (if n \<le> length cs
     then if n \<le> length dest then Some (take n cs @ drop n dest) else None
     else if n < length dest then Some (cs @ replicate (n + 1 - length cs) 0 @ drop (n + 1) dest)
     else None)"
  using strncpy_short [OF assms, of n dest] strncpy_long [OF assms, of n dest] by auto

theorem strncpy_writes_past_limit_witness:
  "strncpy [9, 9, 9, 9] [97, 0] 3 = Some [97, 0, 0, 0] \<and> strncpy [9, 9, 9] [97, 0] 3 = None"
  using strncpy_writes_past_limit [of "[97, 0]" "[97]" "[9, 9, 9, 9]" 3]
    strncpy_writes_past_limit [of "[97, 0]" "[97]" "[9, 9, 9]" 3]
  by (simp add: numeral_eq_Suc)

text \<open>
  C33: Calling \<open>strtok\<close> with a string and then with NULL until it returns NULL yields, in order,
  exactly the maximal runs of characters that are not delimiters.
\<close>

theorem strtok_yields_tokens:
  assumes "cstring buf cs" and "cstring delim ds"
  shows "strtok_loop (length cs + 1) buf (Some 0) delim saveptr =
    Some (tokens (\<lambda>c. c \<in> set ds) cs)"
proof -
  from assms(1) obtain rest where "buf = cs @ 0 # rest" "0 \<notin> set cs" by (rule cstringE)
  then show ?thesis by (intro strtok_loop_tokens [OF assms(2), of cs buf "[]" rest]) auto
qed

theorem strtok_yields_tokens_witness:
  "strtok_loop 7 [47, 97, 98, 47, 47, 99, 0] (Some 0) [47, 0] None = Some [[97, 98], [99]]"
proof -
  let ?cs = "[47, 97, 98, 47, 47, 99] :: bytes"
  have n: "7 = length ?cs + 1" by simp
  show ?thesis
    unfolding n using strtok_yields_tokens [of "?cs @ [0]" ?cs "[47, 0]" "[47]" None]
    by (simp del: strtok_loop.simps)
qed

text \<open>
  \<open>atoi\<close> reads back a decimal number after white space and an optional sign, up to the
  first other character; beyond \<^verbatim>\<open>INT_MAX\<close> in magnitude, \<^verbatim>\<open>INT_MIN\<close> included, it overflows.
\<close>

theorem atoi_reads_decimal:
  assumes "\<forall>c \<in> set ws. isspace c" and "\<not> isdigit c"
  shows "atoi (ws @ dec n @ c # rest) = (if int n \<le> INT_MAX then Some (int n) else None) \<and>
    atoi (ws @ 43 # dec n @ c # rest) = (if int n \<le> INT_MAX then Some (int n) else None) \<and>
    atoi (ws @ 45 # dec n @ c # rest) = (if int n \<le> INT_MAX then Some (- int n) else None)"
proof -
  have end_eq: "convert_digits (dec n @ c # rest) 0 = (if int n \<le> INT_MAX then Some (int n) else None)"
    using assms(2) by (simp add: convert_digits_dec)
  obtain d ds where d: "dec n = (48 + of_nat d) # ds" "d < 10" using dec_first [of n] by blast
  note nd = digit_not_space_or_sign [OF digit_isdigit [OF d(2)]]
  have "atoi (ws @ dec n @ c # rest) = convert_digits (dec n @ c # rest) 0"
    using nd by (simp add: atoi_def skip_spaces_append [OF assms(1)] d(1) del: convert_digits.simps)
  moreover have "\<not> isspace 43" "\<not> isspace 45" by (simp_all add: isspace_def)
  then have "atoi (ws @ 43 # dec n @ c # rest) = convert_digits (dec n @ c # rest) 0"
    "atoi (ws @ 45 # dec n @ c # rest) = map_option uminus (convert_digits (dec n @ c # rest) 0)"
    by (auto simp: atoi_def skip_spaces_append [OF assms(1)] map_conv_bind_option comp_def)
  ultimately show ?thesis by (simp add: end_eq)
qed

theorem atoi_reads_decimal_witness:
  "atoi ([32, 9] @ 45 # dec 2147483647 @ 0 # []) = Some (- 2147483647) \<and>
   atoi ([32, 9] @ 45 # dec 2147483648 @ 0 # []) = None"
  using atoi_reads_decimal [of "[32, 9]" 0 2147483647 "[]"]
    atoi_reads_decimal [of "[32, 9]" 0 2147483648 "[]"]
  by (simp add: isspace_def isdigit_def INT_MAX_def)

end
