(* ===== verification/Net_Base.thy ===== *)
theory Net_Base
  imports Cstring
begin

text \<open>
  The foundation of the network stack: byte order (\<^verbatim>\<open>net/utils.h\<close>), addresses and the legacy
  configuration (\<^verbatim>\<open>net/core/net.c\<close>), and the interfaces with their transmit hooks
  (\<^verbatim>\<open>net/core/netdev.c\<close>).

  Network drivers are not modelled: a frame handed to a driver is appended to the list of
  transmitted frames, and whether the driver accepts a frame is a parameter of the state.
\<close>

section \<open>Byte order and memory layout\<close>

definition ntohs :: "u16 \<Rightarrow> u16" where
  "ntohs val = push_bit 8 val OR drop_bit 8 val"

definition htons :: "u16 \<Rightarrow> u16" where
  "htons val = push_bit 8 val OR drop_bit 8 val"

definition ntohl :: "u32 \<Rightarrow> u32" where
  "ntohl val =
     drop_bit 24 (val AND 0xFF000000) OR drop_bit 8 (val AND 0x00FF0000) OR
     push_bit 8 (val AND 0x0000FF00) OR push_bit 24 (val AND 0x000000FF)"

definition htonl :: "u32 \<Rightarrow> u32" where
  "htonl val =
     drop_bit 24 (val AND 0xFF000000) OR drop_bit 8 (val AND 0x00FF0000) OR
     push_bit 8 (val AND 0x0000FF00) OR push_bit 24 (val AND 0x000000FF)"

text \<open>How the little-endian machine stores and loads 16-bit and 32-bit fields.\<close>

definition mem16 :: "u16 \<Rightarrow> bytes" where
  "mem16 v = [ucast v, ucast (drop_bit 8 v)]"

definition mem32 :: "u32 \<Rightarrow> bytes" where
  "mem32 v = [ucast v, ucast (drop_bit 8 v), ucast (drop_bit 16 v), ucast (drop_bit 24 v)]"

definition load16 :: "bytes \<Rightarrow> nat \<Rightarrow> u16 option" where
  "load16 buf i = do {
     lo \<leftarrow> aget buf i; hi \<leftarrow> aget buf (i + 1);
     Some (ucast lo OR push_bit 8 (ucast hi))
   }"

definition load32 :: "bytes \<Rightarrow> nat \<Rightarrow> u32 option" where
  "load32 buf i = do {
     b0 \<leftarrow> aget buf i; b1 \<leftarrow> aget buf (i + 1); b2 \<leftarrow> aget buf (i + 2); b3 \<leftarrow> aget buf (i + 3);
     Some (ucast b0 OR push_bit 8 (ucast b1) OR push_bit 16 (ucast b2) OR push_bit 24 (ucast b3))
   }"

text \<open>A field of \<open>n\<close> bytes at an offset.\<close>

definition load_field :: "bytes \<Rightarrow> nat \<Rightarrow> nat \<Rightarrow> bytes option" where
  "load_field buf i n = (if i + n \<le> length buf then Some (take n (drop i buf)) else None)"

lemma length_mem16 [simp]: "length (mem16 v) = 2"
  by (simp add: mem16_def)

lemma length_mem32 [simp]: "length (mem32 v) = 4"
  by (simp add: mem32_def)

lemma htons_bytes: "mem16 (htons v) = [ucast (drop_bit 8 v), ucast v]"
proof -
  have "ucast (htons v) = (ucast (drop_bit 8 v) :: u8)"
    by (rule bit_word_eqI) (auto simp: htons_def bit_simps)
  moreover have "ucast (drop_bit 8 (htons v)) = (ucast v :: u8)"
    by (rule bit_word_eqI) (auto simp: htons_def bit_simps)
  ultimately show ?thesis by (simp add: mem16_def)
qed

lemma ntohs_htons [simp]: "ntohs (htons v) = v"
  by (rule bit_word_eqI) (auto simp: ntohs_def htons_def bit_simps)

lemma byte_masks:
  "(0xFF000000 :: u32) = push_bit 24 (mask 8)" "(0x00FF0000 :: u32) = push_bit 16 (mask 8)"
  "(0x0000FF00 :: u32) = push_bit 8 (mask 8)" "(0x000000FF :: u32) = mask 8"
  by (simp_all add: mask_eq_exp_minus_1 push_bit_eq_mult)

lemma byte_cases:
  fixes n :: nat
  assumes "n < 32"
  obtains "n < 8" | "8 \<le> n" "n < 16" | "16 \<le> n" "n < 24" | "24 \<le> n" "n < 32"
  using assms by linarith

lemma ntohl_htonl [simp]: "ntohl (htonl v) = v"
proof (rule bit_word_eqI)
  fix n assume "n < LENGTH(32)"
  then have "n < 32" by simp
  then show "bit (ntohl (htonl v)) n \<longleftrightarrow> bit v n"
    by (cases rule: byte_cases) (auto simp: ntohl_def htonl_def byte_masks bit_simps less_diff_conv2)
qed

lemma load16_at:
  assumes "i + 1 < length buf"
  shows "load16 buf i = Some (ucast (buf ! i) OR push_bit 8 (ucast (buf ! (i + 1))))"
  using assms by (simp add: load16_def)

lemma load16_mem16:
  "i = length xs \<Longrightarrow> load16 (xs @ mem16 v @ ys) i = Some v"
proof -
  assume i: "i = length xs"
  have "(ucast (ucast v :: u8) :: u16) OR push_bit 8 (ucast (ucast (drop_bit 8 v) :: u8)) = v"
    by (rule bit_word_eqI) (auto simp: bit_simps)
  then show ?thesis by (simp add: load16_def aget_def nth_append mem16_def i)
qed

lemma load32_mem32:
  "i = length xs \<Longrightarrow> load32 (xs @ mem32 v @ ys) i = Some v"
proof -
  assume i: "i = length xs"
  have "(ucast (ucast v :: u8) :: u32) OR push_bit 8 (ucast (ucast (drop_bit 8 v) :: u8)) OR
      push_bit 16 (ucast (ucast (drop_bit 16 v) :: u8)) OR
      push_bit 24 (ucast (ucast (drop_bit 24 v) :: u8)) = v" (is "?l = v")
  proof (rule bit_word_eqI)
    fix n assume "n < LENGTH(32)"
    then have "n < 32" by simp
    then show "bit ?l n \<longleftrightarrow> bit v n" by (cases rule: byte_cases) (simp_all add: bit_simps less_diff_conv2)
  qed
  then show ?thesis by (simp add: load32_def aget_def nth_append mem32_def i)
qed

lemma load_field_append:
  "i = length xs \<Longrightarrow> n = length f \<Longrightarrow> load_field (xs @ f @ ys) i n = Some f"
  by (simp add: load_field_def)

section \<open>Strings and buffers\<close>

text \<open>Writing a block of bytes into a buffer, and the bounded string copy that the protocols repeat.\<close>

definition store_at :: "bytes \<Rightarrow> nat \<Rightarrow> bytes \<Rightarrow> bytes option" where
  "store_at buf i xs =
     (if i + length xs \<le> length buf then Some (take i buf @ xs @ drop (i + length xs) buf) else None)"

fun copy_str :: "bytes \<Rightarrow> bytes \<Rightarrow> int \<Rightarrow> int \<Rightarrow> bytes option" where
  "copy_str dest (c # src) i max_len =
     (if c \<noteq> 0 \<and> i < max_len - 1 then do { dest \<leftarrow> aset dest (nat i) c; copy_str dest src (i + 1) max_len }
      else aset dest (nat i) 0)"
| "copy_str dest [] i max_len = None"

lemma copy_str_loop:
  assumes "cstring src cs" and "i < m" and "m \<le> length dest"
  shows "copy_str dest src (int i) (int m) =
    Some (take i dest @ take (m - 1 - i) cs @ [0] @ drop (Suc (i + min (m - 1 - i) (length cs))) dest)"
  using assms
proof (induction cs arbitrary: src i dest)
  case Nil
  then obtain r where "src = 0 # r" by (cases src) auto
  with Nil show ?case by (simp add: upd_conv_take_nth_drop)
next
  case (Cons c cs)
  then obtain r where src: "src = c # r" "c \<noteq> 0" "cstring r cs" by (cases src) auto
  show ?case
  proof (cases "Suc i < m")
    case True
    have "copy_str dest src (int i) (int m) = copy_str (dest[i := c]) r (int (Suc i)) (int m)"
      using True src Cons.prems(3) by (simp add: add.commute)
    also have "\<dots> = Some (take (Suc i) (dest[i := c]) @ take (m - 1 - Suc i) cs @ [0] @
        drop (Suc (Suc i + min (m - 1 - Suc i) (length cs))) (dest[i := c]))"
      using True Cons.prems(3) src(3) by (intro Cons.IH) auto
    also have "take (Suc i) (dest[i := c]) = take i dest @ [c]"
      using True Cons.prems(3) by (simp add: take_Suc_conv_app_nth)
    finally have eq: "copy_str dest src (int i) (int m) = Some ((take i dest @ [c]) @ take (m - 1 - Suc i) cs @
        [0] @ drop (Suc (Suc i + min (m - 1 - Suc i) (length cs))) (dest[i := c]))" .
    obtain n where "m = Suc (Suc (i + n))" using True less_imp_Suc_add by blast
    then show ?thesis unfolding eq by simp
  next
    case False
    then have "Suc i = m" using Cons.prems(2) by simp
    then show ?thesis using src Cons.prems(3) by (auto simp: upd_conv_take_nth_drop)
  qed
qed

text \<open>The copy is the string cut off after \<open>m - 1\<close> characters, and nothing is written past \<open>m\<close>.\<close>

lemma copy_str_cstring:
  assumes "cstring src cs" and "0 < m" and "m \<le> length dest"
  obtains d where "copy_str dest src 0 (int m) = Some d" "length d = length dest" "cstring d (take (m - 1) cs)"
proof -
  let ?d = "take (m - 1) cs @ [0] @ drop (Suc (min (m - 1) (length cs))) dest"
  have "copy_str dest src 0 (int m) = Some ?d"
    using copy_str_loop [OF assms(1), of 0 m dest] assms(2,3) by simp
  moreover have "cstring ?d (take (m - 1) cs)"
    using assms(1) by (auto simp: cstring_def dest: in_set_takeD)
  moreover have "length ?d = length dest" using assms(2,3) by (simp add: min_def)
  ultimately show ?thesis by (intro that)
qed

section \<open>Addresses\<close>

definition ip_u32_to_bytes :: "u32 \<Rightarrow> bytes" where
  "ip_u32_to_bytes ip =
     [ucast (drop_bit 24 ip AND 0xFF), ucast (drop_bit 16 ip AND 0xFF),
      ucast (drop_bit 8 ip AND 0xFF), ucast (ip AND 0xFF)]"

definition ip_bytes_to_u32 :: "bytes \<Rightarrow> u32 option" where
  "ip_bytes_to_u32 b = do {
     b0 \<leftarrow> aget b 0; b1 \<leftarrow> aget b 1; b2 \<leftarrow> aget b 2; b3 \<leftarrow> aget b 3;
     Some (push_bit 24 (ucast b0) OR push_bit 16 (ucast b1) OR push_bit 8 (ucast b2) OR ucast b3)
   }"

definition IP4 :: "u8 \<Rightarrow> u8 \<Rightarrow> u8 \<Rightarrow> u8 \<Rightarrow> u32" where
  "IP4 a b c d = push_bit 24 (ucast a) OR push_bit 16 (ucast b) OR push_bit 8 (ucast c) OR ucast d"

text \<open>Comparison of the first \<open>n\<close> bytes, stopping at the first difference.\<close>

fun bytes_equal :: "nat \<Rightarrow> bytes \<Rightarrow> bytes \<Rightarrow> bool option" where
  "bytes_equal 0 xs ys = Some True"
| "bytes_equal (Suc n) (x # xs) (y # ys) = (if x \<noteq> y then Some False else bytes_equal n xs ys)"
| "bytes_equal (Suc n) _ _ = None"

definition ip_equals :: "bytes \<Rightarrow> bytes \<Rightarrow> bool option" where
  "ip_equals ip1 ip2 = bytes_equal 4 ip1 ip2"

definition mac_equals :: "bytes \<Rightarrow> bytes \<Rightarrow> bool option" where
  "mac_equals mac1 mac2 = bytes_equal 6 mac1 mac2"

definition mac_is_broadcast :: "bytes \<Rightarrow> bool option" where
  "mac_is_broadcast mac = bytes_equal 6 mac (replicate 6 0xFF)"

lemma bytes_equal_eq:
  "n \<le> length xs \<Longrightarrow> n \<le> length ys \<Longrightarrow> bytes_equal n xs ys = Some (take n xs = take n ys)"
  by (induction n xs ys rule: bytes_equal.induct) auto

lemma length_ip_u32_to_bytes [simp]: "length (ip_u32_to_bytes ip) = 4"
  by (simp add: ip_u32_to_bytes_def)

lemma ip_u32_bytes_roundtrip: "ip_bytes_to_u32 (ip_u32_to_bytes ip) = Some ip"
proof -
  let ?b = "\<lambda>k. ucast (ucast (drop_bit k ip AND 0xFF) :: u8) :: u32"
  have "push_bit 24 (?b 24) OR push_bit 16 (?b 16) OR push_bit 8 (?b 8) OR ?b 0 = ip" (is "?l = ip")
  proof (rule bit_word_eqI)
    fix n assume "n < LENGTH(32)"
    then have "n < 32" by simp
    then show "bit ?l n \<longleftrightarrow> bit ip n"
      by (cases rule: byte_cases) (auto simp: bit_simps byte_masks less_diff_conv2)
  qed
  then show ?thesis by (simp add: ip_u32_to_bytes_def ip_bytes_to_u32_def aget_def)
qed

lemma ip_u32_to_bytes_inj: "ip_u32_to_bytes a = ip_u32_to_bytes b \<Longrightarrow> a = b"
  by (metis ip_u32_bytes_roundtrip option.inject)

section \<open>Interfaces\<close>

text \<open>
  An interface; its \<^verbatim>\<open>send\<close> hook is a driver function, of which the stack only sees whether it
  is set. A pointer to an interface is its position in the list of registered ones.
\<close>

record NetInterface =
  ni_name :: bytes
  mac_addr :: bytes
  ip_addr :: u32
  netmask :: u32
  gateway :: u32
  dns_server :: u32
  ni_flags :: u32
  ni_send :: bool
  packets_tx :: u32
  packets_rx :: u32
  bytes_tx :: u32
  bytes_rx :: u32
  ni_errors :: u32

datatype netdev_type = NETDEV_TYPE_NONE | NETDEV_TYPE_PCNET | NETDEV_TYPE_RTL8139
  | NETDEV_TYPE_E1000 | NETDEV_TYPE_VIRTIO

record netdev =
  nd_name :: bytes
  nd_type :: netdev_type
  nd_mac :: bytes
  nd_driver_data :: bool
  nd_send :: bool
  nd_packets_tx :: u32
  nd_packets_rx :: u32
  nd_errors :: u32

text \<open>Which hook a frame went through.\<close>

datatype tx_via = Via_Netif nat | Via_Netdev nat

record net_core =
  netif_list :: "NetInterface list"
  netif_count :: int
  netdevs :: "netdev list"
  netdev_count_val :: nat
  default_netdev :: "nat option"
  MY_IP :: bytes
  MY_MAC :: bytes
  GATEWAY_IP :: bytes
  DNS_IP :: bytes
  NETMASK :: bytes
  driver_accepts :: "bytes \<Rightarrow> bool"
  tx :: "(tx_via \<times> bytes) list"

type_synonym netif_ptr = "nat option"

definition netif_at :: "net_core \<Rightarrow> netif_ptr \<Rightarrow> NetInterface option" where
  "netif_at s p = (case p of None \<Rightarrow> None | Some i \<Rightarrow> aget (netif_list s) i)"

definition net_init :: "bytes \<Rightarrow> net_core \<Rightarrow> net_core option" where
  "net_init mac s = do { m \<leftarrow> load_field mac 0 6; Some (s\<lparr>MY_MAC := m\<rparr>) }"

definition netdev_register :: "NetInterface option \<Rightarrow> net_core \<Rightarrow> net_core" where
  "netdev_register netif s = (case netif of
     None \<Rightarrow> s
   | Some ni \<Rightarrow>
       let ni = ni\<lparr>packets_tx := 0, packets_rx := 0, bytes_tx := 0, bytes_rx := 0, ni_errors := 0\<rparr>
       in s\<lparr>netif_list := netif_list s @ [ni], netif_count := netif_count s + 1\<rparr>)"

definition netif_get_default :: "net_core \<Rightarrow> netif_ptr" where
  "netif_get_default s = (if netif_list s = [] then None else Some 0)"

text \<open>The comparison loop of \<open>netif_get_by_name\<close> on two C strings.\<close>

fun name_match :: "bytes \<Rightarrow> bytes \<Rightarrow> bool option" where
  "name_match (x # a) (y # b) =
     (if x \<noteq> 0 \<and> y \<noteq> 0 then if x \<noteq> y then Some False else name_match a b else Some (x = y))"
| "name_match _ _ = None"

fun find_by_name :: "bytes \<Rightarrow> nat \<Rightarrow> NetInterface list \<Rightarrow> netif_ptr option" where
  "find_by_name name i [] = Some None"
| "find_by_name name i (ni # nis) = do {
     match \<leftarrow> name_match (ni_name ni) name;
     if match then Some (Some i) else find_by_name name (Suc i) nis
   }"

definition netif_get_by_name :: "bytes \<Rightarrow> net_core \<Rightarrow> netif_ptr option" where
  "netif_get_by_name name s = find_by_name name 0 (netif_list s)"

definition netdev_get_default :: "net_core \<Rightarrow> nat option" where
  "netdev_get_default s = default_netdev s"

definition netdev_get :: "int \<Rightarrow> net_core \<Rightarrow> nat option" where
  "netdev_get index s =
     (if index \<ge> 0 \<and> index < int (netdev_count_val s) then Some (nat index) else None)"

definition netdev_count :: "net_core \<Rightarrow> nat" where
  "netdev_count s = netdev_count_val s"

text \<open>The only send hook of the legacy table is the PCnet wrapper.\<close>

definition pcnet_send_wrapper :: "nat \<Rightarrow> bytes \<Rightarrow> net_core \<Rightarrow> bool \<times> net_core" where
  "pcnet_send_wrapper i data s =
     (let dev = netdevs s ! i in
      if nd_driver_data dev then
        let result = driver_accepts s data;
            dev = (if result then dev\<lparr>nd_packets_tx := nd_packets_tx dev + 1\<rparr>
                   else dev\<lparr>nd_errors := nd_errors dev + 1\<rparr>)
        in (result, s\<lparr>netdevs := (netdevs s)[i := dev], tx := tx s @ [(Via_Netdev i, data)]\<rparr>)
      else (False, s))"

definition netdev_send :: "bytes \<Rightarrow> net_core \<Rightarrow> bool \<times> net_core" where
  "netdev_send data s = (case default_netdev s of
     None \<Rightarrow> (False, s)
   | Some i \<Rightarrow> if nd_send (netdevs s ! i) then pcnet_send_wrapper i data s else (False, s))"

definition netdev_get_mac :: "net_core \<Rightarrow> bytes" where
  "netdev_get_mac s = (case default_netdev s of
     None \<Rightarrow> replicate 6 0
   | Some i \<Rightarrow> nd_mac (netdevs s ! i))"

text \<open>The transmit step that the protocols share: the hook of the interface, or the legacy one.\<close>

definition transmit :: "netif_ptr \<Rightarrow> bytes \<Rightarrow> net_core \<Rightarrow> bool \<times> net_core" where
  "transmit netif data s = (case netif_at s netif of
     Some ni \<Rightarrow> if ni_send ni then
                  (driver_accepts s data, s\<lparr>tx := tx s @ [(Via_Netif (the netif), data)]\<rparr>)
                else netdev_send data s
   | None \<Rightarrow> netdev_send data s)"

text \<open>The MAC and IP addresses that the protocols put into their frames.\<close>

definition source_mac :: "netif_ptr \<Rightarrow> net_core \<Rightarrow> bytes" where
  "source_mac netif s = (case netif_at s netif of Some ni \<Rightarrow> mac_addr ni | None \<Rightarrow> netdev_get_mac s)"

definition source_ip :: "netif_ptr \<Rightarrow> net_core \<Rightarrow> bytes" where
  "source_ip netif s = (case netif_at s netif of Some ni \<Rightarrow> ip_u32_to_bytes (ip_addr ni) | None \<Rightarrow> MY_IP s)"

text \<open>The address that received packets are compared with.\<close>

definition my_ip :: "netif_ptr \<Rightarrow> net_core \<Rightarrow> bytes" where
  "my_ip netif s = (case netif_at s netif of
     Some ni \<Rightarrow> if ip_addr ni \<noteq> 0 then ip_u32_to_bytes (ip_addr ni) else MY_IP s
   | None \<Rightarrow> MY_IP s)"

text \<open>Array sizes: every address has its fixed length, and the default device exists.\<close>

definition core_ok :: "net_core \<Rightarrow> bool" where
  "core_ok s \<longleftrightarrow> (\<forall>ni \<in> set (netif_list s). length (mac_addr ni) = 6) \<and>
     (\<forall>d \<in> set (netdevs s). length (nd_mac d) = 6) \<and>
     (\<forall>i. default_netdev s = Some i \<longrightarrow> i < length (netdevs s)) \<and>
     length (MY_IP s) = 4"

lemma core_ok_tx [simp]: "core_ok (s\<lparr>tx := t\<rparr>) = core_ok s"
  by (simp add: core_ok_def)

lemma length_source_mac: "core_ok s \<Longrightarrow> length (source_mac netif s) = 6"
  by (auto simp: core_ok_def source_mac_def netif_at_def aget_def netdev_get_mac_def
      split: option.splits if_splits)

lemma length_source_ip: "core_ok s \<Longrightarrow> length (source_ip netif s) = 4"
  by (auto simp: core_ok_def source_ip_def split: option.splits)

lemma length_my_ip: "core_ok s \<Longrightarrow> length (my_ip netif s) = 4"
  by (auto simp: core_ok_def my_ip_def split: option.splits)

lemma core_ok_update_dev:
  assumes "core_ok s" and "length (nd_mac d) = 6"
  shows "core_ok (s\<lparr>netdevs := (netdevs s)[i := d]\<rparr>)"
  using assms set_update_subset_insert [of "netdevs s" i d] by (auto simp: core_ok_def)

lemma netdev_send_core_ok:
  assumes "core_ok s"
  shows "core_ok (snd (netdev_send data s))"
proof (cases "default_netdev s")
  case None
  then show ?thesis using assms by (simp add: netdev_send_def)
next
  case (Some i)
  then have "length (nd_mac (netdevs s ! i)) = 6" using assms by (simp add: core_ok_def)
  then show ?thesis
    using Some assms by (simp add: netdev_send_def pcnet_send_wrapper_def Let_def core_ok_update_dev)
qed

lemma transmit_core_ok: "core_ok s \<Longrightarrow> core_ok (snd (transmit netif data s))"
  using netdev_send_core_ok [of s data] by (auto simp: transmit_def split: option.splits)

text \<open>A transmission adds at most one frame, the one given, and leaves the configuration alone.\<close>

lemma transmit_frames:
  "tx (snd (transmit netif data s)) = tx s \<or>
   (\<exists>v. tx (snd (transmit netif data s)) = tx s @ [(v, data)])"
  by (auto simp: transmit_def netdev_send_def pcnet_send_wrapper_def Let_def split: option.splits)

lemma transmit_config:
  "netif_list (snd (transmit netif data s)) = netif_list s"
  "default_netdev (snd (transmit netif data s)) = default_netdev s"
  "MY_IP (snd (transmit netif data s)) = MY_IP s"
  by (auto simp: transmit_def netdev_send_def pcnet_send_wrapper_def Let_def split: option.splits)

lemma transmit_hooked:
  assumes "netif_at s (Some i) = Some ni" and "ni_send ni"
  shows "tx (snd (transmit (Some i) data s)) = tx s @ [(Via_Netif i, data)]"
  using assms by (simp add: transmit_def)

end
