(* ===== verification/Arp.thy ===== *)
theory Arp
  imports Net_Base Interfaces
begin

text \<open>
  Address resolution, \<^verbatim>\<open>net/l2/arp.c\<close>: the cache of 1024 entries, the request and reply frames, and
  the handler for received packets. The cache is shown to be a bounded lookup cache, and an
  exchange of request and reply between two hosts to resolve the address.
\<close>

section \<open>Model of the source\<close>

definition ETHERNET_HEADER_SIZE :: int where [c_defs]: "ETHERNET_HEADER_SIZE = 14"
definition ETH_TYPE_IPV4 :: u16 where [c_defs]: "ETH_TYPE_IPV4 = 0x0800"
definition ETH_TYPE_ARP :: u16 where [c_defs]: "ETH_TYPE_ARP = 0x0806"
definition ETH_TYPE_IPV6 :: u16 where [c_defs]: "ETH_TYPE_IPV6 = 0x86DD"
definition ARP_CACHE_SIZE :: nat where [c_defs]: "ARP_CACHE_SIZE = 1024"
definition ARP_PACKET_SIZE :: int where [c_defs]: "ARP_PACKET_SIZE = 28"
definition ARP_HW_ETHERNET :: u16 where [c_defs]: "ARP_HW_ETHERNET = 1"
definition ARP_PROTO_IPV4 :: u16 where [c_defs]: "ARP_PROTO_IPV4 = 0x0800"
definition ARP_OP_REQUEST :: u16 where [c_defs]: "ARP_OP_REQUEST = 1"
definition ARP_OP_REPLY :: u16 where [c_defs]: "ARP_OP_REPLY = 2"

record arp_cache_entry =
  ae_ip :: bytes
  ae_mac :: bytes
  ae_valid :: bool

record arp_state =
  arp_cache :: "arp_cache_entry list"
  arp_cache_count :: int

definition arp_ip_equals :: "bytes \<Rightarrow> bytes \<Rightarrow> bool" where
  "arp_ip_equals ip1 ip2 \<longleftrightarrow>
     ip1 ! 0 = ip2 ! 0 \<and> ip1 ! 1 = ip2 ! 1 \<and> ip1 ! 2 = ip2 ! 2 \<and> ip1 ! 3 = ip2 ! 3"

definition mac_copy :: "bytes \<Rightarrow> bytes" where "mac_copy src = take 6 src"
definition arp_ip_copy :: "bytes \<Rightarrow> bytes" where "arp_ip_copy src = take 4 src"

definition arp_cache_add :: "bytes \<Rightarrow> bytes \<Rightarrow> arp_state \<Rightarrow> arp_state" where
  "arp_cache_add ip mac s =
     (case first_index (\<lambda>e. ae_valid e \<and> arp_ip_equals (ae_ip e) ip) (arp_cache s) of
        Some i \<Rightarrow> s\<lparr>arp_cache := (arp_cache s)[i := (arp_cache s ! i)\<lparr>ae_mac := mac_copy mac\<rparr>]\<rparr>
      | None \<Rightarrow>
          let e = \<lparr>ae_ip = arp_ip_copy ip, ae_mac = mac_copy mac, ae_valid = True\<rparr> in
          (case first_index (\<lambda>e. \<not> ae_valid e) (arp_cache s) of
             Some i \<Rightarrow> s\<lparr>arp_cache := (arp_cache s)[i := e], arp_cache_count := arp_cache_count s + 1\<rparr>
           | None \<Rightarrow> s\<lparr>arp_cache := (arp_cache s)[0 := e]\<rparr>))"

text \<open>The result is the MAC copied out if the function returns true.\<close>

definition arp_cache_lookup :: "bytes \<Rightarrow> arp_state \<Rightarrow> bytes option" where
  "arp_cache_lookup ip s =
     map_option (\<lambda>i. mac_copy (ae_mac (arp_cache s ! i)))
       (first_index (\<lambda>e. ae_valid e \<and> arp_ip_equals (ae_ip e) ip) (arp_cache s))"

text \<open>The two frames differ in the Ethernet destination, the opcode and the target.\<close>

definition arp_frame :: "bytes \<Rightarrow> u16 \<Rightarrow> bytes \<Rightarrow> bytes \<Rightarrow> bytes \<Rightarrow> bytes \<Rightarrow> bytes" where
  "arp_frame eth_dest opcode src_mac src_ip dest_mac dest_ip =
     eth_dest @ src_mac @ mem16 (htons ETH_TYPE_ARP) @
     mem16 (htons ARP_HW_ETHERNET) @ mem16 (htons ARP_PROTO_IPV4) @ [6] @ [4] @ mem16 (htons opcode) @
     src_mac @ src_ip @ dest_mac @ dest_ip @ replicate 18 0"

definition arp_send_request :: "netif_ptr \<Rightarrow> bytes \<Rightarrow> net_core \<Rightarrow> net_core" where
  "arp_send_request netif target_ip s =
     snd (transmit netif
       (arp_frame (replicate 6 0xFF) ARP_OP_REQUEST (source_mac netif s) (source_ip netif s)
          (replicate 6 0) target_ip) s)"

definition arp_send_reply :: "netif_ptr \<Rightarrow> bytes \<Rightarrow> bytes \<Rightarrow> net_core \<Rightarrow> net_core" where
  "arp_send_reply netif target_mac target_ip s =
     snd (transmit netif
       (arp_frame target_mac ARP_OP_REPLY (source_mac netif s) (source_ip netif s)
          target_mac target_ip) s)"

definition arp_handle_packet ::
  "netif_ptr \<Rightarrow> bytes \<Rightarrow> int \<Rightarrow> arp_state \<times> net_core \<Rightarrow> (arp_state \<times> net_core) option" where
  "arp_handle_packet netif packet_data len = (\<lambda>(a, s).
     if len < ARP_PACKET_SIZE then Some (a, s)
     else do {
       hardware_type \<leftarrow> load16 packet_data 0;
       protocol_type \<leftarrow> load16 packet_data 2;
       op \<leftarrow> load16 packet_data 6;
       let hw_type = ntohs hardware_type;
       let proto_type = ntohs protocol_type;
       let opcode = ntohs op;
       if hw_type \<noteq> ARP_HW_ETHERNET \<or> proto_type \<noteq> ARP_PROTO_IPV4 then Some (a, s)
       else if opcode = ARP_OP_REQUEST then do {
         src_mac \<leftarrow> load_field packet_data 8 6;
         src_ip \<leftarrow> load_field packet_data 14 4;
         dest_ip \<leftarrow> load_field packet_data 24 4;
         let a = arp_cache_add src_ip src_mac a;
         if arp_ip_equals dest_ip (my_ip netif s)
         then Some (a, arp_send_reply netif src_mac src_ip s)
         else Some (a, s)
       }
       else if opcode = ARP_OP_REPLY then do {
         src_mac \<leftarrow> load_field packet_data 8 6;
         src_ip \<leftarrow> load_field packet_data 14 4;
         Some (arp_cache_add src_ip src_mac a, s)
       }
       else Some (a, s)
     })"

section \<open>The cache\<close>

text \<open>
  The static array: 1024 entries with addresses of their fixed sizes, no address valid twice,
  and the counter at the number of valid entries.
\<close>

definition arp_ok :: "arp_state \<Rightarrow> bool" where
  "arp_ok s \<longleftrightarrow> length (arp_cache s) = ARP_CACHE_SIZE \<and>
     (\<forall>e \<in> set (arp_cache s). ae_valid e \<longrightarrow> length (ae_ip e) = 4 \<and> length (ae_mac e) = 6) \<and>
     (\<forall>i < ARP_CACHE_SIZE. \<forall>j < ARP_CACHE_SIZE. ae_valid (arp_cache s ! i) \<longrightarrow>
        ae_valid (arp_cache s ! j) \<longrightarrow> ae_ip (arp_cache s ! i) = ae_ip (arp_cache s ! j) \<longrightarrow> i = j) \<and>
     arp_cache_count s = int (count_below ARP_CACHE_SIZE (\<lambda>i. ae_valid (arp_cache s ! i)))"

lemma length4_eq:
  assumes "length (xs :: 'a list) = 4" and "length ys = 4"
  shows "xs = ys \<longleftrightarrow> xs ! 0 = ys ! 0 \<and> xs ! 1 = ys ! 1 \<and> xs ! 2 = ys ! 2 \<and> xs ! 3 = ys ! 3"
proof -
  have "\<forall>i < 4. xs ! i = ys ! i" if "xs ! 0 = ys ! 0" "xs ! 1 = ys ! 1" "xs ! 2 = ys ! 2" "xs ! 3 = ys ! 3"
    using that by (auto simp: less_Suc_eq numeral_eq_Suc)
  with assms show ?thesis by (auto intro: nth_equalityI)
qed

lemma arp_ip_equals_iff: "length ip1 = 4 \<Longrightarrow> length ip2 = 4 \<Longrightarrow> arp_ip_equals ip1 ip2 \<longleftrightarrow> ip1 = ip2"
  by (simp add: arp_ip_equals_def length4_eq)

text \<open>Slot \<open>i\<close> holds a valid entry for \<open>ip\<close>.\<close>

definition slot :: "arp_state \<Rightarrow> bytes \<Rightarrow> nat \<Rightarrow> bool" where
  "slot s ip i \<longleftrightarrow> i < ARP_CACHE_SIZE \<and> ae_valid (arp_cache s ! i) \<and> ae_ip (arp_cache s ! i) = ip"

lemma slot_unique: "arp_ok s \<Longrightarrow> slot s ip i \<Longrightarrow> slot s ip j \<Longrightarrow> i = j"
  unfolding arp_ok_def slot_def by blast

lemma arp_entry:
  assumes "arp_ok s" and "i < ARP_CACHE_SIZE" and "ae_valid (arp_cache s ! i)"
  shows "length (ae_ip (arp_cache s ! i)) = 4" "length (ae_mac (arp_cache s ! i)) = 6"
  using assms by (auto simp: arp_ok_def)

lemma arp_find_slot:
  assumes "arp_ok s" and "length ip = 4"
  shows "first_index (\<lambda>e. ae_valid e \<and> arp_ip_equals (ae_ip e) ip) (arp_cache s) = Some i \<longleftrightarrow> slot s ip i"
proof -
  have len: "length (arp_cache s) = ARP_CACHE_SIZE" using assms(1) by (simp add: arp_ok_def)
  have hit: "(ae_valid (arp_cache s ! j) \<and> arp_ip_equals (ae_ip (arp_cache s ! j)) ip) = slot s ip j"
    if "j < ARP_CACHE_SIZE" for j
    using that arp_entry [OF assms(1) that] assms(2) by (auto simp: slot_def arp_ip_equals_iff)
  show ?thesis
    using slot_unique [OF assms(1)] hit unfolding first_index_Some_iff len
    by (metis dual_order.strict_trans less_irrefl slot_def)
qed

lemma arp_find_none:
  assumes "arp_ok s" and "length ip = 4"
  shows "first_index (\<lambda>e. ae_valid e \<and> arp_ip_equals (ae_ip e) ip) (arp_cache s) = None \<longleftrightarrow>
    (\<forall>i. \<not> slot s ip i)"
  using arp_find_slot [OF assms] by (metis not_Some_eq)

lemma arp_lookup_iff:
  assumes "arp_ok s" and "length ip = 4"
  shows "arp_cache_lookup ip s = Some mac \<longleftrightarrow> (\<exists>i. slot s ip i \<and> ae_mac (arp_cache s ! i) = mac)"
proof -
  have "mac_copy (ae_mac (arp_cache s ! i)) = ae_mac (arp_cache s ! i)" if "slot s ip i" for i
    using that arp_entry [OF assms(1)] by (simp add: slot_def mac_copy_def)
  then show ?thesis
    using arp_find_slot [OF assms] unfolding arp_cache_lookup_def map_option_eq_Some by metis
qed

text \<open>Storing an entry in a slot when no other slot has its address.\<close>

lemma arp_put:
  assumes "arp_ok s" and "i < ARP_CACHE_SIZE" and "ae_valid e" and "length (ae_ip e) = 4"
    and "length (ae_mac e) = 6" and "\<And>j. slot s (ae_ip e) j \<Longrightarrow> j = i"
    and "s' = s\<lparr>arp_cache := (arp_cache s)[i := e],
                arp_cache_count := arp_cache_count s + (if ae_valid (arp_cache s ! i) then 0 else 1)\<rparr>"
  shows "arp_ok s'" and "arp_cache_lookup (ae_ip e) s' = Some (ae_mac e)"
    and "length ip = 4 \<Longrightarrow> ip \<noteq> ae_ip e \<Longrightarrow>
      arp_cache_lookup ip s' = (if slot s ip i then None else arp_cache_lookup ip s)"
proof -
  let ?n = ARP_CACHE_SIZE
  have len: "length (arp_cache s) = ?n" using assms(1) by (simp add: arp_ok_def)
  have nth: "arp_cache s' ! j = (if j = i then e else arp_cache s ! j)" if "j < ?n" for j
    using that len assms(2,7) by (simp add: nth_list_update)
  have ent: "ae_valid f \<longrightarrow> length (ae_ip f) = 4 \<and> length (ae_mac f) = 6" if "f \<in> set (arp_cache s')" for f
    using that assms(1,3-5,7) set_update_subset_insert [of "arp_cache s" i e] by (auto simp: arp_ok_def)
  have sl: "slot s' q j \<longleftrightarrow> (if j = i then q = ae_ip e else slot s q j)" for q j
  proof (cases "j < ?n")
    case True
    then show ?thesis using nth [OF True] assms(2,3) by (simp add: slot_def) metis
  next
    case False
    then show ?thesis using assms(2) by (auto simp: slot_def)
  qed
  have sl_unique: "j = k" if "slot s' q j" "slot s' q k" for q j k
    using that unfolding sl by (metis assms(6) slot_unique [OF assms(1)])
  have uniq: "\<forall>j < ?n. \<forall>k < ?n. ae_valid (arp_cache s' ! j) \<longrightarrow> ae_valid (arp_cache s' ! k) \<longrightarrow>
      ae_ip (arp_cache s' ! j) = ae_ip (arp_cache s' ! k) \<longrightarrow> j = k"
    using sl_unique by (metis slot_def)
  have "count_below ?n (\<lambda>j. ae_valid (arp_cache s' ! j)) =
      count_below ?n (\<lambda>j. j = i \<or> ae_valid (arp_cache s ! j))"
    using nth assms(3) by (intro count_below_cong) auto
  also have "\<dots> = count_below ?n (\<lambda>j. ae_valid (arp_cache s ! j)) + (if ae_valid (arp_cache s ! i) then 0 else 1)"
  proof (cases "ae_valid (arp_cache s ! i)")
    case True
    then have "(\<lambda>j. j = i \<or> ae_valid (arp_cache s ! j)) = (\<lambda>j. ae_valid (arp_cache s ! j))" by auto
    then show ?thesis using True by simp
  next
    case False
    then show ?thesis using count_below_insert [OF assms(2), of "\<lambda>j. ae_valid (arp_cache s ! j)"] by simp
  qed
  finally have cnt: "arp_cache_count s' = int (count_below ?n (\<lambda>j. ae_valid (arp_cache s' ! j)))"
    using assms(1,7) by (simp add: arp_ok_def)
  have "length (arp_cache s') = ?n" using len assms(7) by simp
  then show ok: "arp_ok s'"
    unfolding arp_ok_def using ent uniq cnt by blast
  have "slot s' (ae_ip e) i" by (simp add: sl)
  then show "arp_cache_lookup (ae_ip e) s' = Some (ae_mac e)"
    using arp_lookup_iff [OF ok assms(4)] nth [OF assms(2)] by auto
  assume ip: "length ip = 4" "ip \<noteq> ae_ip e"
  have sl: "slot s' ip j \<longleftrightarrow> slot s ip j \<and> j \<noteq> i" for j
    using sl [of ip j] ip(2) by simp
  show "arp_cache_lookup ip s' = (if slot s ip i then None else arp_cache_lookup ip s)"
  proof (rule option.expand)
    have "(\<exists>m. arp_cache_lookup ip s' = Some m) \<longleftrightarrow> (\<exists>j. slot s' ip j)"
      using arp_lookup_iff [OF ok ip(1)] by blast
    moreover have "(\<exists>m. arp_cache_lookup ip s = Some m) \<longleftrightarrow> (\<exists>j. slot s ip j)"
      using arp_lookup_iff [OF assms(1) ip(1)] by blast
    ultimately show "(arp_cache_lookup ip s' = None) \<longleftrightarrow>
        ((if slot s ip i then None else arp_cache_lookup ip s) = None)"
      using sl slot_unique [OF assms(1), of ip i] by (metis not_Some_eq)
  next
    assume some: "arp_cache_lookup ip s' \<noteq> None" "(if slot s ip i then None else arp_cache_lookup ip s) \<noteq> None"
    then obtain m where m: "arp_cache_lookup ip s' = Some m" by auto
    then obtain j where j: "slot s' ip j" "ae_mac (arp_cache s' ! j) = m"
      using arp_lookup_iff [OF ok ip(1)] by blast
    then have "slot s ip j" "j \<noteq> i" "j < ?n" using sl [of j] by (simp_all add: slot_def)
    then have "slot s ip j" "ae_mac (arp_cache s ! j) = m" using nth [of j] j(2) by simp_all
    then have "arp_cache_lookup ip s = Some m" using arp_lookup_iff [OF assms(1) ip(1)] by blast
    then show "the (arp_cache_lookup ip s') = the (if slot s ip i then None else arp_cache_lookup ip s)"
      using some m by (auto split: if_splits)
  qed
qed

lemma arp_cache_add_cases:
  assumes "arp_ok s" and "length ip = 4" and "length mac = 6"
  obtains i where "i < ARP_CACHE_SIZE" "\<And>j. slot s ip j \<Longrightarrow> j = i"
    "arp_cache_add ip mac s = s\<lparr>arp_cache := (arp_cache s)[i := \<lparr>ae_ip = ip, ae_mac = mac, ae_valid = True\<rparr>],
       arp_cache_count := arp_cache_count s + (if ae_valid (arp_cache s ! i) then 0 else 1)\<rparr>"
    "(\<exists>j. slot s ip j) \<or> \<not> ae_valid (arp_cache s ! i) \<or> (i = 0 \<and> (\<forall>j < ARP_CACHE_SIZE. ae_valid (arp_cache s ! j)))"
proof -
  have len: "length (arp_cache s) = ARP_CACHE_SIZE" using assms(1) by (simp add: arp_ok_def)
  have copy: "mac_copy mac = mac" "arp_ip_copy ip = ip"
    using assms(2,3) by (simp_all add: mac_copy_def arp_ip_copy_def)
  show ?thesis
  proof (cases "\<exists>i. slot s ip i")
    case True
    then obtain i where i: "slot s ip i" by blast
    have eq: "(arp_cache s ! i)\<lparr>ae_mac := mac\<rparr> = \<lparr>ae_ip = ip, ae_mac = mac, ae_valid = True\<rparr>"
      using i by (cases "arp_cache s ! i") (simp add: slot_def)
    have fi: "first_index (\<lambda>e. ae_valid e \<and> arp_ip_equals (ae_ip e) ip) (arp_cache s) = Some i"
      using arp_find_slot [OF assms(1,2)] i by blast
    have v: "ae_valid (arp_cache s ! i)" using i by (simp add: slot_def)
    have "arp_cache_add ip mac s = s\<lparr>arp_cache := (arp_cache s)[i := \<lparr>ae_ip = ip, ae_mac = mac, ae_valid = True\<rparr>],
       arp_cache_count := arp_cache_count s + (if ae_valid (arp_cache s ! i) then 0 else 1)\<rparr>"
      using fi v eq by (simp add: arp_cache_add_def copy)
    then show ?thesis using i slot_unique [OF assms(1)] by (intro that [of i]) (auto simp: slot_def)
  next
    case False
    then have none: "first_index (\<lambda>e. ae_valid e \<and> arp_ip_equals (ae_ip e) ip) (arp_cache s) = None"
      using arp_find_none [OF assms(1,2)] by blast
    show ?thesis
    proof (cases "first_index (\<lambda>e. \<not> ae_valid e) (arp_cache s)")
      case None
      then have all: "\<forall>j < ARP_CACHE_SIZE. ae_valid (arp_cache s ! j)"
        using len by (auto simp: first_index_None_iff)
      then show ?thesis using None none False
        by (intro that [of 0]) (auto simp: arp_cache_add_def copy c_defs)
    next
      case (Some i)
      then have "i < ARP_CACHE_SIZE" "\<not> ae_valid (arp_cache s ! i)"
        using first_index_SomeD [OF Some] len by auto
      then show ?thesis using Some none False
        by (intro that [of i]) (auto simp: arp_cache_add_def copy)
    qed
  qed
qed

interpretation arpc: lookup_cache arp_ok "\<lambda>ip. length ip = 4" "\<lambda>mac. length mac = 6" arp_cache_add arp_cache_lookup
proof unfold_locales
  fix s and ip mac :: bytes
  assume a: "arp_ok s" "length ip = 4" "length mac = 6"
  let ?e = "\<lparr>ae_ip = ip, ae_mac = mac, ae_valid = True\<rparr>"
  from a obtain i where i: "i < ARP_CACHE_SIZE" "\<And>j. slot s ip j \<Longrightarrow> j = i"
    "arp_cache_add ip mac s = s\<lparr>arp_cache := (arp_cache s)[i := ?e],
       arp_cache_count := arp_cache_count s + (if ae_valid (arp_cache s ! i) then 0 else 1)\<rparr>"
    using arp_cache_add_cases [OF a] by metis
  show "arp_ok (arp_cache_add ip mac s)" by (rule arp_put(1) [of s i ?e]) (use a i in simp_all)
  show "arp_cache_lookup ip (arp_cache_add ip mac s) = Some mac"
    using arp_put(2) [of s i ?e] a i by simp
  show "arp_cache_lookup ip' (arp_cache_add ip mac s) = arp_cache_lookup ip' s \<or>
      arp_cache_lookup ip' (arp_cache_add ip mac s) = None" if "length ip' = 4" "ip' \<noteq> ip" for ip'
    using arp_put(3) [of s i ?e "arp_cache_add ip mac s" ip'] a i that by (simp split: if_splits)
qed

section \<open>Frames\<close>

text \<open>What a receiver reads from the payload of a frame that was built by \<^const>\<open>arp_frame\<close>.\<close>

lemma arp_frame_fields:
  fixes op :: u16
  assumes "length d = 6" and "length sm = 6" and "length si = 4" and "length dm = 6" and "length di = 4"
  defines "p \<equiv> drop 14 (arp_frame d op sm si dm di)"
  shows "length (arp_frame d op sm si dm di) = 60"
    and "load16 p 0 = Some (htons ARP_HW_ETHERNET)" and "load16 p 2 = Some (htons ARP_PROTO_IPV4)"
    and "load16 p 6 = Some (htons op)" and "load_field p 8 6 = Some sm"
    and "load_field p 14 4 = Some si" and "load_field p 24 4 = Some di"
proof -
  let ?hw = "mem16 (htons ARP_HW_ETHERNET)" and ?pr = "mem16 (htons ARP_PROTO_IPV4)"
  have p: "p = ?hw @ ?pr @ [6] @ [4] @ mem16 (htons op) @ sm @ si @ dm @ di @ replicate 18 0"
    unfolding p_def arp_frame_def using assms(1,2) by simp
  show "length (arp_frame d op sm si dm di) = 60" using assms by (simp add: arp_frame_def)
  show "load16 p 0 = Some (htons ARP_HW_ETHERNET)"
    using load16_mem16 [of 0 "[]"] by (simp add: p)
  show "load16 p 2 = Some (htons ARP_PROTO_IPV4)"
    using load16_mem16 [of 2 ?hw] by (simp add: p)
  show "load16 p 6 = Some (htons op)"
    using load16_mem16 [of 6 "?hw @ ?pr @ [6] @ [4]"] by (simp add: p)
  show "load_field p 8 6 = Some sm"
    using assms(1-5) by (simp add: p load_field_def)
  show "load_field p 14 4 = Some si"
    using assms(1-5) by (simp add: p load_field_def)
  show "load_field p 24 4 = Some di"
    using assms(1-5) by (simp add: p load_field_def)
qed

lemma arp_handle_request:
  assumes "length d = 6" "length sm = 6" "length si = 4" "length dm = 6" "length di = 4"
  shows "arp_handle_packet netif (drop 14 (arp_frame d ARP_OP_REQUEST sm si dm di)) 46 (a, s) =
    Some (arp_cache_add si sm a,
      if arp_ip_equals di (my_ip netif s) then arp_send_reply netif sm si s else s)"
  using arp_frame_fields [OF assms, of ARP_OP_REQUEST] by (simp add: arp_handle_packet_def c_defs)

lemma arp_handle_reply:
  assumes "length d = 6" "length sm = 6" "length si = 4" "length dm = 6" "length di = 4"
  shows "arp_handle_packet netif (drop 14 (arp_frame d ARP_OP_REPLY sm si dm di)) 46 (a, s) =
    Some (arp_cache_add si sm a, s)"
  using arp_frame_fields [OF assms, of ARP_OP_REPLY] by (simp add: arp_handle_packet_def c_defs)

text \<open>Handling a packet never reads outside a buffer that is as long as announced.\<close>

lemma arp_handle_packet_defined:
  assumes "len \<le> int (length data)"
  shows "arp_handle_packet netif data len (a, s) \<noteq> None"
  using assms
  by (auto simp: arp_handle_packet_def c_defs load16_def load_field_def aget_def Let_def)

section \<open>Properties\<close>

definition arp_empty :: arp_state where
  "arp_empty = \<lparr>arp_cache = replicate 1024 \<lparr>ae_ip = [0, 0, 0, 0], ae_mac = [0, 0, 0, 0, 0, 0],
     ae_valid = False\<rparr>, arp_cache_count = 0\<rparr>"

lemma arp_empty_ok: "arp_ok arp_empty"
proof -
  have "\<not> ae_valid (arp_cache arp_empty ! i)" if "i < 1024" for i
    using that by (simp add: arp_empty_def)
  then have "count_below 1024 (\<lambda>i. ae_valid (arp_cache arp_empty ! i)) = count_below 1024 (\<lambda>i. False)"
    by (intro count_below_cong) simp
  then show ?thesis by (simp add: arp_ok_def arp_empty_def c_defs count_below_def)
qed

text \<open>
  Adding an address to the cache makes exactly that address resolve to the new MAC. Every
  other address resolves as before, except that the address in entry 0 is lost when the cache
  is full and the address is new. The cache never holds an address twice.
\<close>

theorem arp_cache_add_effect:
  assumes "arp_ok s" and "length ip = 4" and "length mac = 6"
  shows "arp_ok (arp_cache_add ip mac s) \<and> arp_cache_lookup ip (arp_cache_add ip mac s) = Some mac \<and>
    (\<forall>ip'. length ip' = 4 \<and> ip' \<noteq> ip \<longrightarrow> arp_cache_lookup ip' (arp_cache_add ip mac s) =
       (if arp_cache_lookup ip s = None \<and> (\<forall>j < ARP_CACHE_SIZE. ae_valid (arp_cache s ! j)) \<and>
           ae_ip (arp_cache s ! 0) = ip'
        then None else arp_cache_lookup ip' s))"
proof -
  let ?e = "\<lparr>ae_ip = ip, ae_mac = mac, ae_valid = True\<rparr>"
  obtain i where i: "i < ARP_CACHE_SIZE" "\<And>j. slot s ip j \<Longrightarrow> j = i"
    "arp_cache_add ip mac s = s\<lparr>arp_cache := (arp_cache s)[i := ?e],
       arp_cache_count := arp_cache_count s + (if ae_valid (arp_cache s ! i) then 0 else 1)\<rparr>"
    "(\<exists>j. slot s ip j) \<or> \<not> ae_valid (arp_cache s ! i) \<or> (i = 0 \<and> (\<forall>j < ARP_CACHE_SIZE. ae_valid (arp_cache s ! j)))"
    using arp_cache_add_cases [OF assms] by metis
  have none: "arp_cache_lookup ip s = None \<longleftrightarrow> (\<forall>j. \<not> slot s ip j)"
    using arp_lookup_iff [OF assms(1,2)] by (metis not_Some_eq)
  have "arp_cache_lookup ip' (arp_cache_add ip mac s) = (if slot s ip' i then None else arp_cache_lookup ip' s) \<and>
      (slot s ip' i \<longleftrightarrow> arp_cache_lookup ip s = None \<and> (\<forall>j < ARP_CACHE_SIZE. ae_valid (arp_cache s ! j)) \<and>
           ae_ip (arp_cache s ! 0) = ip')" if "length ip' = 4" "ip' \<noteq> ip" for ip'
  proof
    show "arp_cache_lookup ip' (arp_cache_add ip mac s) = (if slot s ip' i then None else arp_cache_lookup ip' s)"
      using arp_put(3) [of s i ?e "arp_cache_add ip mac s" ip'] assms i(1-3) that by simp
    show "slot s ip' i \<longleftrightarrow> arp_cache_lookup ip s = None \<and> (\<forall>j < ARP_CACHE_SIZE. ae_valid (arp_cache s ! j)) \<and>
        ae_ip (arp_cache s ! 0) = ip'"
      unfolding none using i that(2) by (metis slot_def)
  qed
  then show ?thesis using arpc.add_ok [OF assms] arpc.lookup_add [OF assms] by auto
qed

theorem arp_cache_add_effect_witness:
  "arp_cache_lookup [10, 0, 2, 2] (arp_cache_add [10, 0, 2, 2] [1, 2, 3, 4, 5, 6] arp_empty) =
     Some [1, 2, 3, 4, 5, 6]"
  using arp_cache_add_effect [OF arp_empty_ok, of "[10, 0, 2, 2]" "[1, 2, 3, 4, 5, 6]"] by simp

text \<open>
  C29: An ARP exchange resolves: when one host broadcasts a request for the address of another,
  the other host learns the requester's MAC and answers with one frame, and when the requester
  handles that frame it learns the MAC of the other host.
\<close>

theorem arp_exchange_resolves:
  assumes "core_ok sA" and "netif_at sA (Some i) = Some niA" and "ni_send niA" and "arp_ok aA"
    and "core_ok sB" and "netif_at sB (Some j) = Some niB" and "ni_send niB" and "arp_ok aB"
    and "ip_addr niB \<noteq> 0"
  defines "ipA \<equiv> ip_u32_to_bytes (ip_addr niA)" and "ipB \<equiv> ip_u32_to_bytes (ip_addr niB)"
  shows "\<exists>request reply aA' aB' sB'.
    tx (arp_send_request (Some i) ipB sA) = tx sA @ [(Via_Netif i, request)] \<and>
    arp_handle_packet (Some j) (drop 14 request) 46 (aB, sB) = Some (aB', sB') \<and>
    tx sB' = tx sB @ [(Via_Netif j, reply)] \<and> take 6 reply = mac_addr niA \<and>
    arp_handle_packet (Some i) (drop 14 reply) 46 (aA, sA) = Some (aA', sA) \<and>
    arp_cache_lookup ipA aB' = Some (mac_addr niA) \<and> arp_cache_lookup ipB aA' = Some (mac_addr niB)"
proof -
  let ?mA = "mac_addr niA" and ?mB = "mac_addr niB"
  let ?q = "arp_frame (replicate 6 0xFF) ARP_OP_REQUEST ?mA ipA (replicate 6 0) ipB"
  let ?r = "arp_frame ?mA ARP_OP_REPLY ?mB ipB ?mA ipA"
  have src: "source_mac (Some i) sA = ?mA" "source_ip (Some i) sA = ipA"
    "source_mac (Some j) sB = ?mB" "source_ip (Some j) sB = ipB"
    using assms(2,6) by (simp_all add: source_mac_def source_ip_def ipA_def ipB_def)
  have len: "length ?mA = 6" "length ?mB = 6" "length ipA = 4" "length ipB = 4"
    using length_source_mac [OF assms(1), of "Some i"] length_source_mac [OF assms(5), of "Some j"]
    by (simp_all add: src ipA_def ipB_def)
  have "tx (arp_send_request (Some i) ipB sA) = tx sA @ [(Via_Netif i, ?q)]"
    unfolding arp_send_request_def src using transmit_hooked [OF assms(2,3)] by simp
  moreover have "arp_ip_equals ipB (my_ip (Some j) sB)"
    using assms(6,9) by (simp add: my_ip_def ipB_def arp_ip_equals_def)
  then have "arp_handle_packet (Some j) (drop 14 ?q) 46 (aB, sB) =
      Some (arp_cache_add ipA ?mA aB, arp_send_reply (Some j) ?mA ipA sB)"
    using len by (subst arp_handle_request) simp_all
  moreover have "tx (arp_send_reply (Some j) ?mA ipA sB) = tx sB @ [(Via_Netif j, ?r)]"
    unfolding arp_send_reply_def src using transmit_hooked [OF assms(6,7)] by simp
  moreover have "take 6 ?r = ?mA" using len by (simp add: arp_frame_def)
  moreover have "arp_handle_packet (Some i) (drop 14 ?r) 46 (aA, sA) = Some (arp_cache_add ipB ?mB aA, sA)"
    using len by (subst arp_handle_reply) simp_all
  moreover have "arp_cache_lookup ipA (arp_cache_add ipA ?mA aB) = Some ?mA"
    "arp_cache_lookup ipB (arp_cache_add ipB ?mB aA) = Some ?mB"
    using arpc.lookup_add [OF assms(8) len(3,1)] arpc.lookup_add [OF assms(4) len(4,2)] by simp_all
  ultimately show ?thesis by blast
qed

definition host_example :: "u32 \<Rightarrow> u8 \<Rightarrow> net_core" where
  "host_example ip m = \<lparr>netif_list = [\<lparr>ni_name = [101, 116, 104, 48, 0], mac_addr = [2, 0, 0, 0, 0, m],
     ip_addr = ip, netmask = 0xFFFFFF00, gateway = 0, dns_server = 0, ni_flags = 1, ni_send = True,
     packets_tx = 0, packets_rx = 0, bytes_tx = 0, bytes_rx = 0, ni_errors = 0\<rparr>],
     netif_count = 1, netdevs = [], netdev_count_val = 0, default_netdev = None,
     MY_IP = [0, 0, 0, 0], MY_MAC = [0, 0, 0, 0, 0, 0], GATEWAY_IP = [0, 0, 0, 0], DNS_IP = [0, 0, 0, 0],
     NETMASK = [0, 0, 0, 0], driver_accepts = (\<lambda>_. True), tx = []\<rparr>"

theorem arp_exchange_resolves_witness:
  "\<exists>request reply aA' aB' sB'.
    tx (arp_send_request (Some 0) [10, 0, 0, 2] (host_example 0x0A000001 1)) = [(Via_Netif 0, request)] \<and>
    arp_handle_packet (Some 0) (drop 14 request) 46 (arp_empty, host_example 0x0A000002 2) = Some (aB', sB') \<and>
    tx sB' = [(Via_Netif 0, reply)] \<and>
    arp_handle_packet (Some 0) (drop 14 reply) 46 (arp_empty, host_example 0x0A000001 1) =
      Some (aA', host_example 0x0A000001 1) \<and>
    arp_cache_lookup [10, 0, 0, 2] aA' = Some [2, 0, 0, 0, 0, 2]"
  using arp_exchange_resolves [of "host_example 0x0A000001 1" 0 "netif_list (host_example 0x0A000001 1) ! 0"
      arp_empty "host_example 0x0A000002 2" 0 "netif_list (host_example 0x0A000002 2) ! 0" arp_empty]
    arp_empty_ok
  by (auto simp: host_example_def core_ok_def netif_at_def aget_def ip_u32_to_bytes_def)

end
