(* ===== verification/Route.thy ===== *)
theory Route
  imports Net_Base
begin

text \<open>
  The routing table, \<^verbatim>\<open>net/l3/route.c\<close>: eight entries, longest prefix match, and the routes that
  are derived from an interface configuration.
\<close>

section \<open>Model of the source\<close>

definition MAX_ROUTES :: nat where [c_defs]: "MAX_ROUTES = 8"

record route_entry =
  r_network :: bytes
  r_netmask :: bytes
  r_gateway :: bytes
  r_interface :: "nat option"
  r_active :: bool

record route_state =
  routes :: "route_entry list"
  route_count :: int

definition ip_in_network :: "bytes \<Rightarrow> bytes \<Rightarrow> bytes \<Rightarrow> bool" where
  "ip_in_network ip network nmask =
     list_all (\<lambda>i. (ip ! i) AND (nmask ! i) = (network ! i) AND (nmask ! i)) [0..<4]"

definition ip_is_zero :: "bytes \<Rightarrow> bool" where
  "ip_is_zero ip \<longleftrightarrow> ip ! 0 = 0 \<and> ip ! 1 = 0 \<and> ip ! 2 = 0 \<and> ip ! 3 = 0"

definition ip_copy :: "bytes \<Rightarrow> bytes" where "ip_copy src = take 4 src"

text \<open>The inner loop of \<open>netmask_length\<close>: add the lowest bit and shift until the byte is zero.\<close>

function count_bits :: "u8 \<Rightarrow> int \<Rightarrow> int" where
  "count_bits byte len = (if byte \<noteq> 0 then count_bits (drop_bit 1 byte) (len + uint (byte AND 1)) else len)"
  by auto
termination
  by (relation "measure (\<lambda>(b, _). unat b)")
    (auto simp: drop_bit_eq_div unat_div unat_gt_0)

declare count_bits.simps [simp del]

definition netmask_length :: "bytes \<Rightarrow> int" where
  "netmask_length nmask = fold (\<lambda>i len. count_bits (nmask ! i) len) [0..<4] 0"

definition route_init :: "route_state \<Rightarrow> route_state" where
  "route_init s = \<lparr>routes = map (\<lambda>r. r\<lparr>r_active := False\<rparr>) (routes s), route_count = 0\<rparr>"

definition route_add ::
  "bytes \<Rightarrow> bytes \<Rightarrow> bytes \<Rightarrow> nat option \<Rightarrow> route_state \<Rightarrow> bool \<times> route_state" where
  "route_add network nmask gw iface s =
     (if route_count s \<ge> int MAX_ROUTES then (False, s)
      else case first_index (\<lambda>r. \<not> r_active r) (routes s) of
        None \<Rightarrow> (False, s)
      | Some idx \<Rightarrow>
          let r = \<lparr>r_network = ip_copy network, r_netmask = ip_copy nmask, r_gateway = ip_copy gw,
                   r_interface = iface, r_active = True\<rparr>
          in (True, s\<lparr>routes := (routes s)[idx := r], route_count := route_count s + 1\<rparr>))"

definition route_update_from_netif :: "netif_ptr \<Rightarrow> net_core \<Rightarrow> route_state \<Rightarrow> route_state" where
  "route_update_from_netif netif c s = (case netif_at c netif of
     None \<Rightarrow> s
   | Some ni \<Rightarrow>
       if ip_addr ni = 0 then s
       else case netdev_get_default c of
         None \<Rightarrow> s
       | Some iface \<Rightarrow>
           let network = ip_u32_to_bytes (ip_addr ni AND netmask ni);
               nmask = ip_u32_to_bytes (netmask ni);
               gw = ip_u32_to_bytes (gateway ni);
               s = snd (route_add network nmask [0, 0, 0, 0] (Some iface) s)
           in if gateway ni \<noteq> 0
              then snd (route_add [0, 0, 0, 0] [0, 0, 0, 0] gw (Some iface) s)
              else s)"

text \<open>The body of the search loop; a pointer to a route is its index.\<close>

definition lookup_body :: "bytes \<Rightarrow> route_state \<Rightarrow> nat \<Rightarrow> nat option \<times> int \<Rightarrow> nat option \<times> int" where
  "lookup_body dest_ip s i = (\<lambda>(best_route, best_prefix_len).
     let r = routes s ! i in
     if \<not> r_active r then (best_route, best_prefix_len)
     else if ip_in_network dest_ip (r_network r) (r_netmask r) then
       let prefix_len = netmask_length (r_netmask r) in
       if prefix_len > best_prefix_len then (Some i, prefix_len) else (best_route, best_prefix_len)
     else (best_route, best_prefix_len))"

definition route_lookup :: "bytes \<Rightarrow> route_state \<Rightarrow> nat option" where
  "route_lookup dest_ip s = fst (for_upto MAX_ROUTES (lookup_body dest_ip s) (None, - 1))"

definition route_get_interface :: "bytes \<Rightarrow> net_core \<Rightarrow> route_state \<Rightarrow> nat option" where
  "route_get_interface dest_ip c s = (case route_lookup dest_ip s of
     Some i \<Rightarrow> r_interface (routes s ! i)
   | None \<Rightarrow> netdev_get_default c)"

definition route_get_next_hop :: "bytes \<Rightarrow> route_state \<Rightarrow> bytes option" where
  "route_get_next_hop dest_ip s = (case route_lookup dest_ip s of
     None \<Rightarrow> None
   | Some i \<Rightarrow> if ip_is_zero (r_gateway (routes s ! i)) then Some (ip_copy dest_ip)
              else Some (ip_copy (r_gateway (routes s ! i))))"

section \<open>Longest prefix match\<close>

text \<open>Route \<open>i\<close> is active and covers the destination.\<close>

definition covers :: "route_state \<Rightarrow> bytes \<Rightarrow> nat \<Rightarrow> bool" where
  "covers s ip i \<longleftrightarrow> r_active (routes s ! i) \<and>
     ip_in_network ip (r_network (routes s ! i)) (r_netmask (routes s ! i))"

abbreviation prefix_length :: "route_state \<Rightarrow> nat \<Rightarrow> int" where
  "prefix_length s i \<equiv> netmask_length (r_netmask (routes s ! i))"

text \<open>The first longest match among the routes below \<open>n\<close>.\<close>

definition best_match :: "route_state \<Rightarrow> bytes \<Rightarrow> nat \<Rightarrow> nat option \<Rightarrow> bool" where
  "best_match s ip n best = (case best of
     None \<Rightarrow> \<forall>j < n. \<not> covers s ip j
   | Some i \<Rightarrow> i < n \<and> covers s ip i \<and> (\<forall>j < n. covers s ip j \<longrightarrow> prefix_length s j \<le> prefix_length s i) \<and>
       (\<forall>j < i. covers s ip j \<longrightarrow> prefix_length s j < prefix_length s i))"

lemma count_bits_ge: "len \<le> count_bits byte len"
proof (induction byte len rule: count_bits.induct)
  case (1 byte len)
  show ?case
  proof (cases "byte = 0")
    case True
    then show ?thesis by (subst count_bits.simps) simp
  next
    case False
    have "len \<le> len + uint (byte AND 1)" by simp
    also have "\<dots> \<le> count_bits (drop_bit 1 byte) (len + uint (byte AND 1))" by (rule 1 [OF False])
    also have "\<dots> = count_bits byte len" using False count_bits.simps [of byte len] by argo
    finally show ?thesis .
  qed
qed

lemma netmask_length_ge: "0 \<le> netmask_length m"
proof -
  have "x \<le> fold (\<lambda>i len. count_bits (m ! i) len) is x" for "is" x
  proof (induction "is" arbitrary: x)
    case (Cons i "is")
    then show ?case using count_bits_ge [of x "m ! i"] by (auto intro: order_trans)
  qed simp
  then show ?thesis by (simp add: netmask_length_def)
qed

lemma lookup_loop:
  "let (best, len) = for_upto n (lookup_body ip s) (None, - 1) in
   best_match s ip n best \<and> len = (case best of None \<Rightarrow> - 1 | Some i \<Rightarrow> prefix_length s i)"
proof (induction n)
  case 0
  then show ?case by (simp add: best_match_def)
next
  case (Suc n)
  obtain best len where r: "for_upto n (lookup_body ip s) (None, - 1) = (best, len)"
    by (cases "for_upto n (lookup_body ip s) (None, - 1)")
  with Suc have IH: "best_match s ip n best" "len = (case best of None \<Rightarrow> - 1 | Some i \<Rightarrow> prefix_length s i)"
    by simp_all
  have len_lt: "best = None \<Longrightarrow> len < prefix_length s n"
    using IH(2) netmask_length_ge [of "r_netmask (routes s ! n)"] by simp
  show ?case
  proof (cases "covers s ip n \<and> len < prefix_length s n")
    case True
    then have "lookup_body ip s n (best, len) = (Some n, prefix_length s n)"
      by (simp add: lookup_body_def covers_def)
    then show ?thesis
      using r True IH by (force simp: best_match_def less_Suc_eq split: option.splits)
  next
    case False
    then have "lookup_body ip s n (best, len) = (best, len)"
      by (auto simp: lookup_body_def covers_def Let_def)
    then show ?thesis
      using r False IH len_lt by (auto simp: best_match_def less_Suc_eq split: option.splits)
  qed
qed

lemma route_lookup_best: "best_match s ip MAX_ROUTES (route_lookup ip s)"
  using lookup_loop [of MAX_ROUTES ip s] by (auto simp: route_lookup_def)

lemma best_match_unique:
  assumes "best_match s ip n (Some i)" and "best_match s ip n b"
  shows "b = Some i"
proof (cases b)
  case None
  then show ?thesis using assms by (auto simp: best_match_def)
next
  case (Some j)
  then show ?thesis using assms unfolding best_match_def
    by (auto) (metis linorder_cases order_less_irrefl order_le_less_trans)
qed

lemma route_lookup_eq: "best_match s ip MAX_ROUTES (Some i) \<Longrightarrow> route_lookup ip s = Some i"
  using best_match_unique route_lookup_best by blast

section \<open>The table\<close>

text \<open>The first \<open>k\<close> of the eight entries are active, and the counter says so.\<close>

definition route_ok :: "nat \<Rightarrow> route_state \<Rightarrow> bool" where
  "route_ok k s \<longleftrightarrow> length (routes s) = MAX_ROUTES \<and> k \<le> MAX_ROUTES \<and> route_count s = int k \<and>
     (\<forall>i < MAX_ROUTES. r_active (routes s ! i) \<longleftrightarrow> i < k)"

lemma route_init_ok: "length (routes s) = MAX_ROUTES \<Longrightarrow> route_ok 0 (route_init s)"
  by (simp add: route_ok_def route_init_def)

lemma route_add_full: "route_ok MAX_ROUTES s \<Longrightarrow> route_add nw m gw ifc s = (False, s)"
  by (simp add: route_ok_def route_add_def)

definition new_route :: "bytes \<Rightarrow> bytes \<Rightarrow> bytes \<Rightarrow> nat option \<Rightarrow> route_entry" where
  "new_route nw m gw ifc = \<lparr>r_network = ip_copy nw, r_netmask = ip_copy m, r_gateway = ip_copy gw,
     r_interface = ifc, r_active = True\<rparr>"

lemma route_add_room:
  assumes "route_ok k s" and "k < MAX_ROUTES"
  shows "route_add nw m gw ifc s =
      (True, s\<lparr>routes := (routes s)[k := new_route nw m gw ifc], route_count := route_count s + 1\<rparr>)"
    and "route_ok (Suc k) (snd (route_add nw m gw ifc s))"
proof -
  have len: "length (routes s) = MAX_ROUTES" using assms(1) by (simp add: route_ok_def)
  have "first_index (\<lambda>r. \<not> r_active r) (routes s) = Some k"
    using assms by (intro first_index_SomeI) (auto simp: route_ok_def)
  then show eq: "route_add nw m gw ifc s =
      (True, s\<lparr>routes := (routes s)[k := new_route nw m gw ifc], route_count := route_count s + 1\<rparr>)"
    using assms by (simp add: route_add_def route_ok_def new_route_def)
  show "route_ok (Suc k) (snd (route_add nw m gw ifc s))"
    using assms len unfolding eq by (auto simp: route_ok_def nth_list_update new_route_def)
qed

text \<open>Whatever is added, the entries that were active stay as they are.\<close>

lemma route_add_keeps:
  assumes "route_ok k s"
  obtains k' where "route_ok k' (snd (route_add nw m gw ifc s))" "k \<le> k'" "k' \<le> Suc k"
    "\<And>i. i < k \<Longrightarrow> routes (snd (route_add nw m gw ifc s)) ! i = routes s ! i"
    "k < k' \<Longrightarrow> routes (snd (route_add nw m gw ifc s)) ! k = new_route nw m gw ifc"
proof (cases "k < MAX_ROUTES")
  case True
  show ?thesis
    using route_add_room [OF assms True, of nw m gw ifc] assms True
    by (intro that [of "Suc k"]) (auto simp: route_ok_def)
next
  case False
  then have "k = MAX_ROUTES" using assms by (simp add: route_ok_def)
  then show ?thesis using route_add_full [of s nw m gw ifc] assms by (intro that [of k]) auto
qed

lemma covers_index: "route_ok k s \<Longrightarrow> covers s ip i \<Longrightarrow> i < MAX_ROUTES \<Longrightarrow> i < k"
  by (simp add: route_ok_def covers_def)

lemma count_bits_0 [simp]: "count_bits 0 len = len"
  by (simp add: count_bits.simps)

lemma netmask_length_zero [simp]: "netmask_length [0, 0, 0, 0] = 0"
  by (simp add: netmask_length_def upt_rec numeral_eq_Suc)

text \<open>Adding a route that does not beat the present match leaves the match in place.\<close>

lemma route_add_lookup_keeps:
  fixes gw :: bytes
  assumes "route_ok k s" and "route_lookup ip s = Some i"
    and "\<not> ip_in_network ip (ip_copy nw) (ip_copy m) \<or> netmask_length (ip_copy m) \<le> prefix_length s i"
  shows "route_lookup ip (snd (route_add nw m gw ifc s)) = Some i \<and>
    routes (snd (route_add nw m gw ifc s)) ! i = routes s ! i \<and>
    (\<exists>k'. route_ok k' (snd (route_add nw m gw ifc s)))"
proof -
  let ?s = "snd (route_add nw m gw ifc s)"
  obtain k' where k': "route_ok k' ?s" "k \<le> k'" "k' \<le> Suc k"
    "\<And>i. i < k \<Longrightarrow> routes ?s ! i = routes s ! i" "k < k' \<Longrightarrow> routes ?s ! k = new_route nw m gw ifc"
    using route_add_keeps [OF assms(1)] by metis
  have bm: "best_match s ip MAX_ROUTES (Some i)" using route_lookup_best [of s ip] assms(2) by simp
  then have i: "i < MAX_ROUTES" "covers s ip i" by (simp_all add: best_match_def)
  then have ik: "i < k" using covers_index [OF assms(1)] by blast
  have same: "covers ?s ip j = covers s ip j \<and> prefix_length ?s j = prefix_length s j" if "j < k" for j
    using k'(4) [OF that] by (simp add: covers_def)
  have new: "prefix_length ?s j \<le> prefix_length s i" if "covers ?s ip j" "j < MAX_ROUTES" "\<not> j < k" for j
  proof -
    have "j < k'" using covers_index [OF k'(1) that(1,2)] .
    then have "j = k" "k < k'" using that(3) k'(3) by auto
    then show ?thesis using k'(5) that(1) assms(3) by (simp add: covers_def new_route_def)
  qed
  have "best_match ?s ip MAX_ROUTES (Some i)"
    using bm same [OF ik] same new ik i unfolding best_match_def
    by auto metis
  then show ?thesis using route_lookup_eq k'(1,4) ik by blast
qed

text \<open>Network membership on the 32-bit form of addresses.\<close>

lemma ip_bytes_and:
  "i < 4 \<Longrightarrow> ip_u32_to_bytes (x AND y) ! i = (ip_u32_to_bytes x ! i) AND (ip_u32_to_bytes y ! i)"
proof -
  assume "i < 4"
  then have i: "i = 0 \<or> i = 1 \<or> i = 2 \<or> i = 3" by linarith
  have eq: "ucast (drop_bit k (x AND y) AND 0xFF) =
      (ucast (drop_bit k x AND 0xFF) AND ucast (drop_bit k y AND 0xFF) :: u8)" for k
    by (rule bit_word_eqI) (auto simp: bit_simps)
  show ?thesis
    using i eq [of 24] eq [of 16] eq [of 8] eq [of 0] by (auto simp: ip_u32_to_bytes_def)
qed

lemma ip_in_network_u32:
  "ip_in_network (ip_u32_to_bytes d) (ip_u32_to_bytes (ip AND m)) (ip_u32_to_bytes m) \<longleftrightarrow>
   d AND m = ip AND m"
proof -
  have "ip_in_network (ip_u32_to_bytes d) (ip_u32_to_bytes (ip AND m)) (ip_u32_to_bytes m) \<longleftrightarrow>
      (\<forall>i < 4. ip_u32_to_bytes (d AND m) ! i = ip_u32_to_bytes ((ip AND m) AND m) ! i)"
    by (auto simp: ip_in_network_def list_all_iff ip_bytes_and)
  also have "(ip AND m) AND m = ip AND m" by (simp add: and.assoc)
  also have "(\<forall>i < 4. ip_u32_to_bytes (d AND m) ! i = ip_u32_to_bytes (ip AND m) ! i) \<longleftrightarrow>
      ip_u32_to_bytes (d AND m) = ip_u32_to_bytes (ip AND m)"
    by (auto intro: nth_equalityI)
  also have "\<dots> \<longleftrightarrow> d AND m = ip AND m" by (auto dest: ip_u32_to_bytes_inj)
  finally show ?thesis .
qed

lemma ip_in_default: "ip_in_network ip [0, 0, 0, 0] [0, 0, 0, 0]"
  by (simp add: ip_in_network_def upt_rec numeral_eq_Suc)

lemma ip_is_zero_u32: "ip_is_zero (ip_u32_to_bytes g) \<longleftrightarrow> g = 0"
proof -
  have "ip_is_zero (ip_u32_to_bytes g) \<longleftrightarrow> ip_u32_to_bytes g = [0, 0, 0, 0]"
    by (simp add: ip_is_zero_def ip_u32_to_bytes_def)
  also have "\<dots> \<longleftrightarrow> ip_u32_to_bytes g = ip_u32_to_bytes 0" by (simp add: ip_u32_to_bytes_def)
  finally show ?thesis by (auto dest: ip_u32_to_bytes_inj)
qed

lemma ip_copy_u32 [simp]: "ip_copy (ip_u32_to_bytes x) = ip_u32_to_bytes x"
  by (simp add: ip_copy_def)

lemma ip_copy_zero [simp]: "ip_copy [0, 0, 0, 0] = [0, 0, 0, 0]"
  by (simp add: ip_copy_def)

text \<open>The table after the first configuration of an interface.\<close>

lemma configured_table:
  assumes "length (routes s) = MAX_ROUTES" and "netif_at c netif = Some ni" and "ip_addr ni \<noteq> 0"
    and "default_netdev c = Some ifc"
  defines "t \<equiv> route_update_from_netif netif c (route_init s)"
  shows "route_ok (if gateway ni = 0 then 1 else 2) t"
    and "routes t ! 0 = new_route (ip_u32_to_bytes (ip_addr ni AND netmask ni)) (ip_u32_to_bytes (netmask ni))
           [0, 0, 0, 0] (Some ifc)"
    and "gateway ni \<noteq> 0 \<Longrightarrow>
      routes t ! 1 = new_route [0, 0, 0, 0] [0, 0, 0, 0] (ip_u32_to_bytes (gateway ni)) (Some ifc)"
proof -
  let ?l = "new_route (ip_u32_to_bytes (ip_addr ni AND netmask ni)) (ip_u32_to_bytes (netmask ni)) [0, 0, 0, 0] (Some ifc)"
  let ?g = "new_route [0, 0, 0, 0] [0, 0, 0, 0] (ip_u32_to_bytes (gateway ni)) (Some ifc)"
  define u where "u = snd (route_add (ip_u32_to_bytes (ip_addr ni AND netmask ni))
    (ip_u32_to_bytes (netmask ni)) [0, 0, 0, 0] (Some ifc) (route_init s))"
  have z: "route_ok 0 (route_init s)" by (rule route_init_ok [OF assms(1)])
  have u: "route_ok 1 u" "routes u = (routes (route_init s))[0 := ?l]"
    unfolding u_def using route_add_room [OF z] by (simp_all add: c_defs)
  have t: "t = (if gateway ni \<noteq> 0 then snd (route_add [0, 0, 0, 0] [0, 0, 0, 0]
      (ip_u32_to_bytes (gateway ni)) (Some ifc) u) else u)"
    using assms(2-4) by (simp add: t_def route_update_from_netif_def netdev_get_default_def u_def)
  have v: "route_ok 2 (snd (route_add [0, 0, 0, 0] [0, 0, 0, 0] (ip_u32_to_bytes (gateway ni)) (Some ifc) u))"
    "routes (snd (route_add [0, 0, 0, 0] [0, 0, 0, 0] (ip_u32_to_bytes (gateway ni)) (Some ifc) u)) =
      (routes u)[1 := ?g]"
    using route_add_room [OF u(1)] by (simp_all add: c_defs numeral_2_eq_2)
  have len: "length (routes (route_init s)) = 8" using assms(1) by (simp add: route_init_def c_defs)
  show "route_ok (if gateway ni = 0 then 1 else 2) t" using t u v by simp
  show "routes t ! 0 = ?l" using t u v len by simp
  show "routes t ! 1 = ?g" if "gateway ni \<noteq> 0" using t u v len that by simp
qed

section \<open>Properties\<close>


text \<open>
  Once an interface is configured on an empty table, the next hop of a destination is the
  destination itself if it is in the local network, and the gateway otherwise, if there is one.
\<close>

theorem route_next_hop_configured:
  assumes "length (routes s) = MAX_ROUTES" and "netif_at c netif = Some ni" and "ip_addr ni \<noteq> 0"
    and "default_netdev c = Some ifc"
  shows "route_get_next_hop (ip_u32_to_bytes d) (route_update_from_netif netif c (route_init s)) =
    (if d AND netmask ni = ip_addr ni AND netmask ni then Some (ip_u32_to_bytes d)
     else if gateway ni \<noteq> 0 then Some (ip_u32_to_bytes (gateway ni)) else None)"
proof -
  let ?t = "route_update_from_netif netif c (route_init s)" and ?d = "ip_u32_to_bytes d"
  note tab = configured_table [OF assms]
  have c0: "covers ?t ?d 0 \<longleftrightarrow> d AND netmask ni = ip_addr ni AND netmask ni"
    by (simp add: covers_def tab(2) new_route_def ip_in_network_u32)
  have g0: "ip_is_zero (r_gateway (routes ?t ! 0))"
    by (simp add: tab(2) new_route_def ip_is_zero_def)
  have c1: "covers ?t ?d 1" "prefix_length ?t 1 = 0" "r_gateway (routes ?t ! 1) = ip_u32_to_bytes (gateway ni)"
    if "gateway ni \<noteq> 0" using tab(3) [OF that] by (simp_all add: covers_def new_route_def ip_in_default)
  have lt: "j < (if gateway ni = 0 then 1 else 2)" if "covers ?t ?d j" "j < MAX_ROUTES" for j
    using covers_index [OF tab(1) that] .
  have ge: "0 \<le> prefix_length ?t j" for j by (rule netmask_length_ge)
  show ?thesis
  proof (cases "covers ?t ?d 0")
    case True
    have "prefix_length ?t j \<le> prefix_length ?t 0" if "covers ?t ?d j" "j < MAX_ROUTES" for j
      using lt [OF that] c1(2) ge [of 0] by (cases "j = 0") (auto split: if_splits simp: less_2_cases_iff)
    then have "best_match ?t ?d MAX_ROUTES (Some 0)" using True by (simp add: best_match_def c_defs)
    then show ?thesis using route_lookup_eq True c0 g0 by (simp add: route_get_next_hop_def)
  next
    case nl: False
    show ?thesis
    proof (cases "gateway ni = 0")
      case True
      have "\<not> covers ?t ?d j" if "j < MAX_ROUTES" for j using lt [of j] that nl True by auto
      then have "route_lookup ?d ?t = None"
        using route_lookup_best [of ?t ?d] by (auto simp: best_match_def split: option.splits)
      then show ?thesis using nl c0 True by (simp add: route_get_next_hop_def)
    next
      case False
      have only: "j = 1" if "covers ?t ?d j" "j < MAX_ROUTES" for j
        using lt [OF that] that nl False by (cases "j = 0") (auto simp: less_2_cases_iff)
      have "\<forall>j < MAX_ROUTES. covers ?t ?d j \<longrightarrow> prefix_length ?t j \<le> prefix_length ?t 1"
        using only by (metis order_refl)
      moreover have "\<forall>j < 1. \<not> covers ?t ?d j" using nl by simp
      ultimately have "best_match ?t ?d MAX_ROUTES (Some 1)"
        using c1(1) [OF False] unfolding best_match_def option.case by (simp add: c_defs)
      then show ?thesis using route_lookup_eq nl c0 c1(3) False by (simp add: route_get_next_hop_def ip_is_zero_u32)
    qed
  qed
qed

definition route_example :: route_state where
  "route_example = \<lparr>routes = replicate 8 \<lparr>r_network = [0, 0, 0, 0], r_netmask = [0, 0, 0, 0],
     r_gateway = [0, 0, 0, 0], r_interface = None, r_active = False\<rparr>, route_count = 0\<rparr>"

definition core_example :: "u32 \<Rightarrow> net_core" where
  "core_example gw = \<lparr>netif_list = [\<lparr>ni_name = [101, 116, 104, 48, 0], mac_addr = [2, 0, 0, 0, 0, 1],
     ip_addr = 0x0A00020F, netmask = 0xFFFFFF00, gateway = gw, dns_server = 0, ni_flags = 1, ni_send = True,
     packets_tx = 0, packets_rx = 0, bytes_tx = 0, bytes_rx = 0, ni_errors = 0\<rparr>],
     netif_count = 1, netdevs = [\<lparr>nd_name = [101, 116, 104, 48, 0], nd_type = NETDEV_TYPE_PCNET,
       nd_mac = [2, 0, 0, 0, 0, 1], nd_driver_data = True, nd_send = True, nd_packets_tx = 0,
       nd_packets_rx = 0, nd_errors = 0\<rparr>], netdev_count_val = 1, default_netdev = Some 0,
     MY_IP = [0, 0, 0, 0], MY_MAC = [0, 0, 0, 0, 0, 0], GATEWAY_IP = [0, 0, 0, 0], DNS_IP = [0, 0, 0, 0],
     NETMASK = [0, 0, 0, 0], driver_accepts = (\<lambda>_. True), tx = []\<rparr>"


theorem route_next_hop_configured_witness:
  "route_get_next_hop [8, 8, 8, 8] (route_update_from_netif (Some 0) (core_example 0x0A000202)
     (route_init route_example)) = Some [10, 0, 2, 2]"
  using route_next_hop_configured [where s = route_example and c = "core_example 0x0A000202" and
      netif = "Some 0" and ni = "netif_list (core_example 0x0A000202) ! 0" and ifc = 0 and d = "0x08080808"]
  by (simp add: route_example_def core_example_def netif_at_def aget_def ip_u32_to_bytes_def c_defs)

text \<open>
  A later configuration does not replace the routes of an earlier one: a destination that
  had a route and is not in the newly configured local network keeps its old next hop, even if
  the gateway has changed.
\<close>

theorem route_update_keeps_old_gateway:
  assumes "route_ok k s" and "route_lookup (ip_u32_to_bytes d) s = Some i"
    and "netif_at c netif = Some ni" and "d AND netmask ni \<noteq> ip_addr ni AND netmask ni"
  shows "route_get_next_hop (ip_u32_to_bytes d) (route_update_from_netif netif c s) =
    route_get_next_hop (ip_u32_to_bytes d) s"
proof (cases "ip_addr ni = 0 \<or> default_netdev c = None")
  case True
  then show ?thesis using assms(3) by (auto simp: route_update_from_netif_def netdev_get_default_def)
next
  case False
  then obtain ifc where ifc: "default_netdev c = Some ifc" by auto
  let ?d = "ip_u32_to_bytes d" and ?n = "ip_u32_to_bytes (ip_addr ni AND netmask ni)"
  let ?m = "ip_u32_to_bytes (netmask ni)" and ?g = "ip_u32_to_bytes (gateway ni)"
  define u where "u = snd (route_add ?n ?m [0, 0, 0, 0] (Some ifc) s)"
  have upd: "route_update_from_netif netif c s =
      (if gateway ni \<noteq> 0 then snd (route_add [0, 0, 0, 0] [0, 0, 0, 0] ?g (Some ifc) u) else u)"
    using False assms(3) ifc by (simp add: route_update_from_netif_def netdev_get_default_def u_def)
  have u: "route_lookup ?d u = Some i \<and> routes u ! i = routes s ! i \<and> (\<exists>k'. route_ok k' u)"
    unfolding u_def by (rule route_add_lookup_keeps [OF assms(1,2)]) (simp add: ip_in_network_u32 assms(4))
  then obtain k' where k': "route_ok k' u" "route_lookup ?d u = Some i" by blast
  have "route_lookup ?d (snd (route_add [0, 0, 0, 0] [0, 0, 0, 0] ?g (Some ifc) u)) = Some i \<and>
      routes (snd (route_add [0, 0, 0, 0] [0, 0, 0, 0] ?g (Some ifc) u)) ! i = routes u ! i \<and>
      (\<exists>k'. route_ok k' (snd (route_add [0, 0, 0, 0] [0, 0, 0, 0] ?g (Some ifc) u)))"
    by (rule route_add_lookup_keeps [OF k']) (simp add: netmask_length_ge)
  then show ?thesis using u assms(2) by (simp add: upd route_get_next_hop_def)
qed

theorem route_update_keeps_old_gateway_witness:
  "route_get_next_hop [8, 8, 8, 8] (route_update_from_netif (Some 0) (core_example 0x0A0002FE)
     (route_update_from_netif (Some 0) (core_example 0x0A000202) (route_init route_example))) =
   route_get_next_hop [8, 8, 8, 8]
     (route_update_from_netif (Some 0) (core_example 0x0A000202) (route_init route_example))"
proof -
  let ?t = "route_update_from_netif (Some 0) (core_example 0x0A000202) (route_init route_example)"
  let ?d = "ip_u32_to_bytes 0x08080808" and ?ni = "netif_list (core_example 0x0A000202) ! 0"
  have len: "length (routes route_example) = MAX_ROUTES" by (simp add: route_example_def c_defs)
  have at: "netif_at (core_example 0x0A000202) (Some 0) = Some ?ni" "ip_addr ?ni \<noteq> 0" "gateway ?ni \<noteq> 0"
    "default_netdev (core_example 0x0A000202) = Some 0"
    by (simp_all add: core_example_def netif_at_def aget_def)
  note tab = configured_table [OF len at(1,2,4)]
  have "covers ?t ?d 1" using tab(3) [OF at(3)] by (simp add: covers_def new_route_def ip_in_default)
  then obtain i where "route_lookup ?d ?t = Some i"
    using route_lookup_best [of ?t ?d] by (auto simp: best_match_def c_defs split: option.splits)
  moreover have "?d = [8, 8, 8, 8]" by (simp add: ip_u32_to_bytes_def)
  ultimately show ?thesis
    using route_update_keeps_old_gateway [OF tab(1), of "0x08080808" i "core_example 0x0A0002FE" "Some 0"
        "netif_list (core_example 0x0A0002FE) ! 0"]
    by (simp add: core_example_def netif_at_def aget_def)
qed

end
