(* ===== verification/Ipv4.thy ===== *)
theory Ipv4
  imports Arp Route
begin

text \<open>
  The sending half of \<^verbatim>\<open>net/l3/ipv4.c\<close>: the Internet checksum and the construction of packets.
  The lemmas about one's complement sums are shared by the headers of IPv4, ICMP and TCP: a
  message whose checksum field was filled in by \<open>ip_checksum\<close> always verifies.
\<close>

section \<open>Model of the source\<close>

definition IP_PROTO_ICMP :: u8 where [c_defs]: "IP_PROTO_ICMP = 1"
definition IP_PROTO_TCP :: u8 where [c_defs]: "IP_PROTO_TCP = 6"
definition IP_PROTO_UDP :: u8 where [c_defs]: "IP_PROTO_UDP = 17"
definition IP_DEFAULT_TTL :: u8 where [c_defs]: "IP_DEFAULT_TTL = 64"
definition IPV4_HEADER_SIZE :: int where [c_defs]: "IPV4_HEADER_SIZE = 20"

text \<open>
  The part of the network stack below the transport protocols: interfaces, ARP cache, routes and
  the identification counter of outgoing packets.
\<close>

record ip_stack =
  st_core :: net_core
  st_arp :: arp_state
  st_route :: route_state
  ip_id_counter :: u16

definition ip_addr_equals :: "bytes \<Rightarrow> bytes \<Rightarrow> bool" where
  "ip_addr_equals ip1 ip2 \<longleftrightarrow>
     ip1 ! 0 = ip2 ! 0 \<and> ip1 ! 1 = ip2 ! 1 \<and> ip1 ! 2 = ip2 ! 2 \<and> ip1 ! 3 = ip2 ! 3"

text \<open>The summation loop with its odd last byte; the accumulator is 32 bits wide and wraps.\<close>

function sum_words :: "bytes \<Rightarrow> int \<Rightarrow> u32 \<Rightarrow> u32 option" where
  "sum_words ptr len acc =
     (if len > 1 then do { w \<leftarrow> load16 ptr 0; sum_words (drop 2 ptr) (len - 2) (acc + ucast w) }
      else if len = 1 then do { b \<leftarrow> aget ptr 0; Some (acc + ucast b) }
      else Some acc)"
  by pat_completeness auto
termination by (relation "measure (\<lambda>(p, len, a). nat len)") auto

declare sum_words.simps [simp del]

text \<open>\<^verbatim>\<open>while (sum >> 16) sum = (sum & 0xFFFF) + (sum >> 16)\<close>\<close>

lemma unat_drop_16: "unat (drop_bit 16 (s :: u32)) = unat s div 65536"
  by (simp add: drop_bit_eq_div unat_div_distrib)

lemma unat_and_ffff: "unat ((s :: u32) AND 0xFFFF) = unat s mod 65536"
proof -
  have "s AND 0xFFFF = take_bit 16 s"
    by (simp add: take_bit_eq_mask mask_eq_exp_minus_1)
  then show ?thesis by (simp add: take_bit_eq_mod unat_mod_distrib)
qed

lemma unat_fold_step:
  "unat ((s AND 0xFFFF) + drop_bit 16 (s :: u32)) = unat s mod 65536 + unat s div 65536"
proof -
  have "unat s < 4294967296" using unat_u32_lt [of s] by simp
  then have "unat s div 65536 < 65536" by (simp add: div_less_iff_less_mult)
  moreover have "unat s mod 65536 < 65536" by simp
  ultimately have "unat s mod 65536 + unat s div 65536 < 4294967296" by linarith
  then show ?thesis by (simp add: unat_word_ariths unat_and_ffff unat_drop_16)
qed

lemma fold_step_less:
  assumes "drop_bit 16 (s :: u32) \<noteq> 0"
  shows "unat ((s AND 0xFFFF) + drop_bit 16 s) < unat s"
proof -
  have "unat s div 65536 \<noteq> 0" using assms unat_drop_16 [of s] by (metis unat_eq_0)
  moreover have "unat s = unat s div 65536 * 65536 + unat s mod 65536" by simp
  ultimately have "unat s mod 65536 + unat s div 65536 < unat s" by linarith
  then show ?thesis by (simp add: unat_fold_step)
qed

function fold_carry :: "u32 \<Rightarrow> u32" where
  "fold_carry s = (if drop_bit 16 s \<noteq> 0 then fold_carry ((s AND 0xFFFF) + drop_bit 16 s) else s)"
  by pat_completeness auto
termination by (relation "measure unat") (use fold_step_less in auto)

declare fold_carry.simps [simp del]

definition ip_checksum :: "bytes \<Rightarrow> int \<Rightarrow> u16 option" where
  "ip_checksum data len = do { acc \<leftarrow> sum_words data len 0; Some (ucast (NOT (fold_carry acc))) }"

text \<open>The header that \<open>ipv4_send_packet\<close> writes, with a given value in the checksum field.\<close>

definition ipv4_header :: "u16 \<Rightarrow> u16 \<Rightarrow> u8 \<Rightarrow> u16 \<Rightarrow> bytes \<Rightarrow> bytes \<Rightarrow> bytes" where
  "ipv4_header total_length ident protocol checksum src_ip dest_ip =
     [push_bit 4 4 OR 5, 0] @ mem16 (htons total_length) @ mem16 (htons ident) @
     mem16 (htons 0x4000) @ [IP_DEFAULT_TTL, protocol] @ mem16 checksum @ src_ip @ dest_ip"

text \<open>
  The packet is built in a buffer of 1518 bytes without checking the length of the payload:
  writing more is undefined behaviour.
\<close>

definition ipv4_send_packet ::
  "netif_ptr \<Rightarrow> bytes \<Rightarrow> bytes \<Rightarrow> u8 \<Rightarrow> bytes \<Rightarrow> int \<Rightarrow> ip_stack \<Rightarrow> ip_stack option" where
  "ipv4_send_packet netif dest_mac dest_ip protocol payload payload_len s = do {
     let total_len = ETHERNET_HEADER_SIZE + IPV4_HEADER_SIZE + payload_len;
     let padding = (if total_len < 60 then replicate (nat (26 - max 0 payload_len)) 0 else []);
     let my_mac = source_mac netif (st_core s);
     let my_ip = source_ip netif (st_core s);
     dest_mac \<leftarrow> load_field dest_mac 0 6;
     dest_ip \<leftarrow> load_field dest_ip 0 4;
     let header = (\<lambda>checksum. ipv4_header (of_int (IPV4_HEADER_SIZE + payload_len)) (ip_id_counter s)
                     protocol checksum my_ip dest_ip);
     checksum \<leftarrow> ip_checksum (header 0) IPV4_HEADER_SIZE;
     data \<leftarrow> load_field payload 0 (nat payload_len);
     if total_len > 1518 then None
     else
       let buffer = dest_mac @ my_mac @ mem16 (htons ETH_TYPE_IPV4) @ header checksum @ data @ padding
       in Some (s\<lparr>st_core := snd (transmit netif buffer (st_core s)),
                  ip_id_counter := ip_id_counter s + 1\<rparr>)
   }"

section \<open>One's complement arithmetic\<close>

text \<open>Folding keeps the value modulo 65535, fits 16 bits, and keeps zero apart from 65535.\<close>

lemma fold_step_mod: "(n mod 65536 + n div 65536) mod 65535 = (n :: nat) mod 65535"
proof -
  have "n = n div 65536 * 65536 + n mod 65536" by simp
  also have "\<dots> = n div 65536 * 65535 + (n mod 65536 + n div 65536)" by linarith
  finally have "n mod 65535 = (n div 65536 * 65535 + (n mod 65536 + n div 65536)) mod 65535" by (rule arg_cong)
  then show ?thesis by (simp only: mod_mult_self3)
qed

lemma fold_carry_spec:
  "unat (fold_carry s) mod 65535 = unat s mod 65535 \<and> unat (fold_carry s) < 65536 \<and>
   (unat (fold_carry s) = 0 \<longleftrightarrow> unat s = 0)"
proof (induction s rule: fold_carry.induct)
  case (1 s)
  show ?case
  proof (cases "drop_bit 16 s = 0")
    case True
    then have "unat s div 65536 = 0" using unat_drop_16 [of s] by simp
    then show ?thesis using True by (simp add: fold_carry.simps [of s] div_eq_0_iff)
  next
    case False
    let ?t = "(s AND 0xFFFF) + drop_bit 16 s"
    have "unat ?t mod 65535 = unat s mod 65535"
      unfolding unat_fold_step by (rule fold_step_mod)
    moreover have "unat ?t = 0 \<longleftrightarrow> unat s = 0"
      unfolding unat_fold_step by (metis add_is_0 div_mod_decomp mult_0 add_0 mod_0 div_0)
    ultimately show ?thesis using 1 [OF False] False by (simp add: fold_carry.simps [of s])
  qed
qed

lemma complement_u16: "unat s < 65536 \<Longrightarrow> unat (ucast (NOT (s :: u32)) :: u16) = 65535 - unat s"
proof -
  assume "unat s < 65536"
  then have s: "unat (ucast s :: u16) = unat s"
    by (simp add: unsigned_ucast_eq take_bit_eq_mod unat_mod_distrib)
  have "(ucast (NOT s) :: u16) = NOT (ucast s)"
    by (rule bit_word_eqI) (auto simp: bit_simps)
  moreover have "unat (NOT (ucast s :: u16)) = 65535 - unat (ucast s :: u16)"
  proof -
    have "NOT (ucast s :: u16) = - 1 - ucast s" by (simp add: not_eq_complement)
    moreover have "unat (- 1 :: u16) = 65535" by (simp add: unsigned_minus_1_eq_mask mask_eq_exp_minus_1)
    ultimately show ?thesis by (metis unat_sub word_n1_ge)
  qed
  ultimately show ?thesis using s by simp
qed

text \<open>
  The reference: the sum of the 16-bit words in memory order, an odd last byte counting as a word
  of its own, reduced to 16 bits with end-around carry.
\<close>

fun word_sum :: "bytes \<Rightarrow> nat" where
  "word_sum [] = 0"
| "word_sum [b] = unat b"
| "word_sum (b # c # bs) = unat b + 256 * unat c + word_sum bs"

definition ones_sum :: "nat \<Rightarrow> nat" where
  "ones_sum n = (if n = 0 then 0 else Suc ((n - 1) mod 65535))"

lemma ones_sum_unique:
  assumes "r mod 65535 = n mod 65535" and "r < 65536" and "r = 0 \<longleftrightarrow> n = 0"
  shows "ones_sum n = r"
proof (cases "n = 0")
  case True
  then show ?thesis using assms(3) by (simp add: ones_sum_def)
next
  case False
  have pred: "(k - 1) mod 65535 = (k mod 65535 + 65534) mod 65535" if "k \<noteq> 0" for k :: nat
  proof -
    have "k + 65534 = k - 1 + 65535" using that by simp
    then show ?thesis by (metis mod_add_left_eq mod_add_self2)
  qed
  have "r = Suc (r - 1)" using False assms(3) by auto
  moreover have "(r - 1) mod 65535 = (n - 1) mod 65535"
    using False assms(1,3) pred [of r] pred [of n] by simp
  moreover have "(r - 1) mod 65535 = r - 1" using assms(2) by simp
  ultimately show ?thesis using False by (simp add: ones_sum_def)
qed

lemma unat_fold_carry: "unat (fold_carry s) = ones_sum (unat s)"
  using fold_carry_spec [of s] by (intro ones_sum_unique [symmetric]) auto

lemma ones_sum_less: "ones_sum n < 65536"
  by (simp add: ones_sum_def)

lemma ones_sum_complement:
  assumes "c = 65535 - ones_sum n"
  shows "ones_sum (n + c) = 65535"
proof -
  have "ones_sum n mod 65535 = n mod 65535"
    by (cases n) (auto simp: ones_sum_def mod_Suc_eq)
  then have "(n + c) mod 65535 = (ones_sum n + c) mod 65535" by (metis mod_add_left_eq)
  also have "ones_sum n + c = 65535" using assms ones_sum_less [of n] by simp
  finally have "(n + c) mod 65535 = 0" by simp
  moreover have "n + c \<noteq> 0" using assms by (cases "n = 0") (auto simp: ones_sum_def)
  ultimately show ?thesis by (intro ones_sum_unique) simp_all
qed

lemma unat_pair_u32:
  "unat (ucast (ucast (b :: u8) OR push_bit 8 (ucast (c :: u8)) :: u16) :: u32) = unat b + 256 * unat c"
proof -
  have lt: "unat b < 256" "unat c < 256" using unat_u8_lt by simp_all
  have "(ucast b :: u16) OR push_bit 8 (ucast c) = ucast b + push_bit 8 (ucast c)"
    by (rule disjunctive_add [symmetric]) (auto simp: bit_simps dest: bit_imp_le_length)
  moreover have "unat ((ucast b :: u16) + push_bit 8 (ucast c)) = unat b + 256 * unat c"
    using lt by (simp add: unat_word_ariths push_bit_eq_mult unsigned_ucast_eq take_bit_nat_eq_self)
  ultimately show ?thesis using lt by (simp add: unsigned_ucast_eq take_bit_nat_eq_self)
qed

lemma sum_words_spec:
  "nat len \<le> length ptr \<Longrightarrow> sum_words ptr len acc = Some (acc + of_nat (word_sum (take (nat len) ptr)))"
proof (induction ptr len acc rule: sum_words.induct)
  case (1 ptr len acc)
  show ?case
  proof (cases "len > 1")
    case True
    then have "2 \<le> nat len" by simp
    then obtain n where n: "nat len = Suc (Suc n)" by (metis add_2_eq_Suc le_Suc_ex)
    with 1(2) obtain b c r where p: "ptr = b # c # r" by (metis Suc_le_length_iff)
    let ?w = "ucast b OR push_bit 8 (ucast c) :: u16"
    have w: "(ucast ?w :: u32) = of_nat (unat b + 256 * unat c)"
      using unat_pair_u32 [of b c] by (metis of_nat_unat_id)
    have "load16 ptr 0 = Some ?w" by (simp add: load16_def p)
    moreover have "nat (len - 2) = n" using n by simp
    ultimately show ?thesis
      using True 1(1) [OF True, of ?w] 1(2) n p w by (simp add: sum_words.simps [of "b # c # r"] algebra_simps)
  next
    case False
    then show ?thesis using 1(2) by (cases ptr) (auto simp: sum_words.simps)
  qed
qed

lemma word_sum_le: "word_sum bs \<le> 65535 * length bs"
proof (induction bs rule: word_sum.induct)
  case (2 b)
  then show ?case using unat_u8_lt [of b] by simp
next
  case (3 b c bs)
  have "unat b < 256" "unat c < 256" using unat_u8_lt by simp_all
  then show ?case using 3 by simp
qed simp

lemma word_sum_append: "even (length xs) \<Longrightarrow> word_sum (xs @ ys) = word_sum xs + word_sum ys"
  by (induction xs rule: word_sum.induct) auto

lemma word_sum_mem16: "word_sum (mem16 c) = unat c"
proof -
  have "c = ucast (ucast c :: u8) OR push_bit 8 (ucast (ucast (drop_bit 8 c) :: u8))"
    by (rule bit_word_eqI) (auto simp: bit_simps)
  then have "unat (ucast c :: u32) = unat (ucast c :: u8) + 256 * unat (ucast (drop_bit 8 c) :: u8)"
    by (metis unat_pair_u32)
  moreover have "unat (ucast c :: u32) = unat c"
    using unat_u16_lt [of c] by (simp add: unsigned_ucast_eq take_bit_nat_eq_self)
  ultimately show ?thesis by (simp add: mem16_def)
qed

text \<open>Up to 65536 bytes the 32-bit accumulator does not overflow.\<close>

lemma ip_checksum_eq:
  assumes "nat len \<le> length data" and "len \<le> 65536"
  shows "ip_checksum data len = Some (of_nat (65535 - ones_sum (word_sum (take (nat len) data))))"
proof -
  let ?n = "word_sum (take (nat len) data)"
  have "?n \<le> 65535 * length (take (nat len) data)" by (rule word_sum_le)
  also have "\<dots> \<le> 65535 * 65536" using assms by (intro mult_le_mono2) simp
  finally have "unat (of_nat ?n :: u32) = ?n" by (simp add: unat_of_nat)
  then have f: "unat (fold_carry (of_nat ?n)) = ones_sum ?n" by (simp add: unat_fold_carry)
  then have "unat (ucast (NOT (fold_carry (of_nat ?n))) :: u16) = 65535 - ones_sum ?n"
    using ones_sum_less [of ?n] by (simp add: complement_u16)
  then have "(ucast (NOT (fold_carry (of_nat ?n))) :: u16) = of_nat (65535 - ones_sum ?n)"
    by (metis of_nat_unat_id)
  then show ?thesis using assms(1) by (simp add: ip_checksum_def sum_words_spec)
qed

lemma unat_checksum: "unat (of_nat (65535 - ones_sum n) :: u16) = 65535 - ones_sum n"
  by (simp add: unat_of_nat)

text \<open>Filling in the checksum field, at an even offset, makes the message sum up to all ones.\<close>

lemma ip_checksum_fills:
  assumes "ip_checksum (xs @ mem16 0 @ ys) len = Some c" and "even (length xs)"
    and "length xs + 2 \<le> nat len" and "nat len \<le> length xs + 2 + length ys" and "len \<le> 65536"
  shows "ip_checksum (xs @ mem16 c @ ys) len = Some 0"
proof -
  let ?t = "\<lambda>v. take (nat len) (xs @ mem16 v @ ys)"
  have t: "?t v = xs @ mem16 v @ take (nat len - length xs - 2) ys" for v
    using assms(3) by simp
  have s: "word_sum (?t v) = word_sum xs + (unat v + word_sum (take (nat len - length xs - 2) ys))" for v
    unfolding t using assms(2) by (simp add: word_sum_append word_sum_mem16)
  have len: "nat len \<le> length (xs @ mem16 v @ ys)" for v using assms(4) by simp
  have c: "c = of_nat (65535 - ones_sum (word_sum (?t 0)))"
    using assms(1) ip_checksum_eq [OF len assms(5), of 0] by simp
  then have "unat c = 65535 - ones_sum (word_sum (?t 0))" by (metis unat_checksum)
  then have "ones_sum (word_sum (?t 0) + unat c) = 65535" by (rule ones_sum_complement)
  moreover have "word_sum (?t c) = word_sum (?t 0) + unat c" unfolding s by simp
  ultimately show ?thesis using ip_checksum_eq [OF len assms(5), of c] by simp
qed

section \<open>Packets on the wire\<close>

text \<open>The header with its checksum, and the frame around a payload.\<close>

definition header_checksum :: "u16 \<Rightarrow> u16 \<Rightarrow> u8 \<Rightarrow> bytes \<Rightarrow> bytes \<Rightarrow> u16" where
  "header_checksum total_length ident protocol src_ip dest_ip =
     the (ip_checksum (ipv4_header total_length ident protocol 0 src_ip dest_ip) 20)"

definition ipv4_frame :: "netif_ptr \<Rightarrow> bytes \<Rightarrow> bytes \<Rightarrow> u8 \<Rightarrow> bytes \<Rightarrow> ip_stack \<Rightarrow> bytes" where
  "ipv4_frame netif dest_mac dest_ip protocol data s =
     (let total = of_nat (20 + length data); ident = ip_id_counter s; src = source_ip netif (st_core s)
      in dest_mac @ source_mac netif (st_core s) @ mem16 (htons ETH_TYPE_IPV4) @
         ipv4_header total ident protocol (header_checksum total ident protocol src dest_ip) src dest_ip @
         data @ replicate (26 - length data) 0)"

lemma length_ipv4_header:
  "length src = 4 \<Longrightarrow> length dst = 4 \<Longrightarrow> length (ipv4_header tot i p c src dst) = 20"
  by (simp add: ipv4_header_def)

lemma header_checksum_defined:
  assumes "length src = 4" and "length dst = 4"
  shows "ip_checksum (ipv4_header tot i p 0 src dst) 20 = Some (header_checksum tot i p src dst)"
  using assms ip_checksum_eq [of 20 "ipv4_header tot i p 0 src dst"]
  by (simp add: header_checksum_def length_ipv4_header)

lemma header_checksum_verifies:
  assumes "length src = 4" and "length dst = 4"
  shows "ip_checksum (ipv4_header tot i p (header_checksum tot i p src dst) src dst) 20 = Some 0"
proof -
  let ?xs = "[push_bit 4 4 OR 5, 0] @ mem16 (htons tot) @ mem16 (htons i) @ mem16 (htons 0x4000) @
    [IP_DEFAULT_TTL, p]"
  have hdr: "ipv4_header tot i p c src dst = ?xs @ mem16 c @ src @ dst" for c
    by (simp add: ipv4_header_def)
  show ?thesis
    using header_checksum_defined [OF assms, of tot i p] assms unfolding hdr
    by (intro ip_checksum_fills) simp_all
qed

text \<open>The stack below the transport protocols with every array at its fixed size.\<close>

definition routes_sized :: "route_state \<Rightarrow> bool" where
  "routes_sized r \<longleftrightarrow> length (routes r) = MAX_ROUTES \<and>
     (\<forall>e \<in> set (routes r). r_active e \<longrightarrow> length (r_gateway e) = 4)"

definition ip_stack_ok :: "ip_stack \<Rightarrow> bool" where
  "ip_stack_ok s \<longleftrightarrow> core_ok (st_core s) \<and> arp_ok (st_arp s) \<and> routes_sized (st_route s)"

lemma ipv4_send_packet_eq:
  assumes "core_ok (st_core s)" and "length dest_mac = 6" and "length dest_ip = 4"
    and "0 \<le> len" and "nat len \<le> length payload"
  shows "ipv4_send_packet netif dest_mac dest_ip protocol payload len s =
    (if len \<le> 1484 then
       Some (s\<lparr>st_core := snd (transmit netif
                 (ipv4_frame netif dest_mac dest_ip protocol (take (nat len) payload) s) (st_core s)),
               ip_id_counter := ip_id_counter s + 1\<rparr>)
     else None)"
proof -
  obtain n where n: "len = int n" using assms(4) nonneg_int_cases by blast
  have "length (source_ip netif (st_core s)) = 4" using assms(1) by (rule length_source_ip)
  note ck = header_checksum_defined [OF this assms(3)]
  have "nat (26 - int n) = 26 - n" by simp
  then show ?thesis
    using assms(2,3,5) ck
    by (auto simp: ipv4_send_packet_def load_field_def c_defs ipv4_frame_def Let_def n)
qed

lemma ipv4_send_packet_overflow:
  "1484 < len \<Longrightarrow> ipv4_send_packet netif dest_mac dest_ip protocol payload len s = None"
  by (auto simp: ipv4_send_packet_def Let_def c_defs split: Option.bind_splits)

lemma ipv4_send_packet_keeps:
  assumes "ipv4_send_packet netif dest_mac dest_ip protocol payload len s = Some s'"
  shows "st_arp s' = st_arp s" and "st_route s' = st_route s"
    and "netif_list (st_core s') = netif_list (st_core s)" and "MY_IP (st_core s') = MY_IP (st_core s)"
    and "ip_stack_ok s \<Longrightarrow> ip_stack_ok s'"
  using assms transmit_config transmit_core_ok
  by (auto simp: ipv4_send_packet_def Let_def ip_stack_ok_def bind_eq_Some_conv split: if_splits)

text \<open>What a receiver finds in the header and in the frame.\<close>

lemma ipv4_header_fields:
  assumes "length src = 4" and "length dst = 4"
  shows "(ipv4_header tot i p c src dst @ r) ! 0 = 0x45"
    and "load16 (ipv4_header tot i p c src dst @ r) 2 = Some (htons tot)"
    and "(ipv4_header tot i p c src dst @ r) ! 8 = 64"
    and "(ipv4_header tot i p c src dst @ r) ! 9 = p"
    and "load_field (ipv4_header tot i p c src dst @ r) 12 4 = Some src"
    and "load_field (ipv4_header tot i p c src dst @ r) 16 4 = Some dst"
proof -
  let ?h = "ipv4_header tot i p c src dst @ r"
  have "?h = [0x45, 0] @ mem16 (htons tot) @ mem16 (htons i) @ mem16 (htons 0x4000) @ [64, p] @ mem16 c @ src @ dst @ r"
    by (simp add: ipv4_header_def c_defs)
  then show "?h ! 0 = 0x45" "?h ! 8 = 64" "?h ! 9 = p"
    by (simp_all add: nth_append mem16_def)
  show "load16 ?h 2 = Some (htons tot)"
    using load16_mem16 [of 2 "[0x45, 0]" "htons tot"] by (simp add: ipv4_header_def)
  have s: "?h = ([0x45, 0] @ mem16 (htons tot) @ mem16 (htons i) @ mem16 (htons 0x4000) @ [64, p] @ mem16 c) @ src @ dst @ r"
    by (simp add: ipv4_header_def c_defs)
  show "load_field ?h 12 4 = Some src" unfolding s by (rule load_field_append) (simp_all add: assms)
  have d: "?h = ([0x45, 0] @ mem16 (htons tot) @ mem16 (htons i) @ mem16 (htons 0x4000) @ [64, p] @ mem16 c @ src) @ dst @ r"
    by (simp add: ipv4_header_def c_defs)
  show "load_field ?h 16 4 = Some dst" unfolding d by (rule load_field_append) (simp_all add: assms)
qed

lemma ipv4_frame_fields:
  fixes data :: bytes and protocol :: u8 and netif :: netif_ptr
  assumes "core_ok (st_core s)" and "length dest_mac = 6" and "length dest_ip = 4"
  defines "f \<equiv> ipv4_frame netif dest_mac dest_ip protocol data s"
  defines "tot \<equiv> of_nat (20 + length data)"
  defines "src \<equiv> source_ip netif (st_core s)"
  shows "length f = max 60 (34 + length data)" and "load_field f 0 6 = Some dest_mac"
    and "load16 f 12 = Some (htons ETH_TYPE_IPV4)"
    and "drop 14 f = ipv4_header tot (ip_id_counter s) protocol
           (header_checksum tot (ip_id_counter s) protocol src dest_ip) src dest_ip @
           data @ replicate (26 - length data) 0"
    and "load_field f 34 (length data) = Some data"
    and "load_field f 26 4 = Some src" and "load_field f 30 4 = Some dest_ip"
proof -
  let ?mac = "source_mac netif (st_core s)"
  let ?h = "ipv4_header tot (ip_id_counter s) protocol
    (header_checksum tot (ip_id_counter s) protocol src dest_ip) src dest_ip"
  have len: "length ?mac = 6" "length src = 4"
    using assms(1) by (simp_all add: length_source_mac length_source_ip src_def)
  have h: "length ?h = 20" by (rule length_ipv4_header [OF len(2) assms(3)])
  have f: "f = dest_mac @ ?mac @ mem16 (htons ETH_TYPE_IPV4) @ ?h @ data @ replicate (26 - length data) 0"
    by (simp add: f_def ipv4_frame_def Let_def tot_def src_def)
  show "length f = max 60 (34 + length data)" using assms(2) len h by (simp add: f)
  show "load_field f 0 6 = Some dest_mac" using assms(2) len h by (simp add: f load_field_def)
  show "load16 f 12 = Some (htons ETH_TYPE_IPV4)"
    using load16_mem16 [of 12 "dest_mac @ ?mac"] assms(2) len by (simp add: f)
  show d: "drop 14 f = ?h @ data @ replicate (26 - length data) 0" using assms(2) len by (simp add: f)
  have at: "load_field f (14 + k) 4 = load_field (drop 14 f) k 4" for k
    using \<open>length f = _\<close> by (auto simp: load_field_def add.commute)
  show "load_field f 26 4 = Some src" "load_field f 30 4 = Some dest_ip"
    using at [of 12] at [of 16] ipv4_header_fields(5,6) [OF len(2) assms(3)] unfolding d by simp_all
  have f': "f = (dest_mac @ ?mac @ mem16 (htons ETH_TYPE_IPV4) @ ?h) @ data @ replicate (26 - length data) 0"
    by (simp add: f)
  show "load_field f 34 (length data) = Some data"
    unfolding f' by (rule load_field_append) (simp_all add: assms(2) len h)
qed

section \<open>Properties\<close>



text \<open>
  C31: \<open>ipv4_send_packet\<close> puts one frame on the wire: between 60 and 1518 bytes, with a header
  whose checksum verifies and whose fields and payload are the ones given. With more than 1484
  bytes of payload it writes past its buffer, as it never checks the length.
\<close>

theorem ipv4_send_packet_wire:
  assumes "core_ok (st_core s)" and "length dest_mac = 6" and "length dest_ip = 4"
    and "netif_at (st_core s) (Some i) = Some ni" and "ni_send ni"
    and "0 \<le> len" and "nat len \<le> length payload"
  shows "(1484 < len \<longrightarrow> ipv4_send_packet (Some i) dest_mac dest_ip protocol payload len s = None) \<and>
    (len \<le> 1484 \<longrightarrow> (\<exists>s' f h.
       ipv4_send_packet (Some i) dest_mac dest_ip protocol payload len s = Some s' \<and>
       tx (st_core s') = tx (st_core s) @ [(Via_Netif i, f)] \<and> 60 \<le> length f \<and> length f \<le> 1518 \<and>
       load_field f 0 6 = Some dest_mac \<and> load16 f 12 = Some (htons ETH_TYPE_IPV4) \<and>
       load_field f 14 20 = Some h \<and> ip_checksum h IPV4_HEADER_SIZE = Some 0 \<and>
       load16 h 2 = Some (htons (of_int (20 + len))) \<and> h ! 9 = protocol \<and>
       load_field h 12 4 = Some (source_ip (Some i) (st_core s)) \<and> load_field h 16 4 = Some dest_ip \<and>
       load_field f 34 (nat len) = Some (take (nat len) payload)))"
proof (intro conjI impI)
  assume "1484 < len"
  then show "ipv4_send_packet (Some i) dest_mac dest_ip protocol payload len s = None"
    using ipv4_send_packet_eq [OF assms(1-3,6,7)] by simp
next
  assume le: "len \<le> 1484"
  let ?data = "take (nat len) payload" and ?src = "source_ip (Some i) (st_core s)"
  let ?tot = "of_nat (20 + length ?data) :: u16"
  let ?f = "ipv4_frame (Some i) dest_mac dest_ip protocol ?data s"
  let ?h = "ipv4_header ?tot (ip_id_counter s) protocol
    (header_checksum ?tot (ip_id_counter s) protocol ?src dest_ip) ?src dest_ip"
  have src: "length ?src = 4" using assms(1) by (rule length_source_ip)
  note hf = ipv4_header_fields [OF src assms(3), where r = "[]", simplified]
  note ff = ipv4_frame_fields [OF assms(1-3), of "Some i" protocol ?data]
  have h: "length ?h = 20" by (rule length_ipv4_header [OF src assms(3)])
  have len: "length ?data = nat len" using assms(7) by simp
  have tot: "?tot = of_int (20 + len)" using assms(6,7) by simp
  have "load_field ?f 14 20 = Some ?h"
    using ff(1,4) h by (simp add: load_field_def max_def)
  moreover have "60 \<le> length ?f \<and> length ?f \<le> 1518" using ff(1) le len by simp
  moreover have "load_field ?f 34 (nat len) = Some ?data" using ff(5) len by simp
  moreover have "ip_checksum ?h IPV4_HEADER_SIZE = Some 0"
    using header_checksum_verifies [OF src assms(3)] by (simp add: c_defs)
  ultimately show "\<exists>s' f h.
       ipv4_send_packet (Some i) dest_mac dest_ip protocol payload len s = Some s' \<and>
       tx (st_core s') = tx (st_core s) @ [(Via_Netif i, f)] \<and> 60 \<le> length f \<and> length f \<le> 1518 \<and>
       load_field f 0 6 = Some dest_mac \<and> load16 f 12 = Some (htons ETH_TYPE_IPV4) \<and>
       load_field f 14 20 = Some h \<and> ip_checksum h IPV4_HEADER_SIZE = Some 0 \<and>
       load16 h 2 = Some (htons (of_int (20 + len))) \<and> h ! 9 = protocol \<and>
       load_field h 12 4 = Some (source_ip (Some i) (st_core s)) \<and> load_field h 16 4 = Some dest_ip \<and>
       load_field f 34 (nat len) = Some (take (nat len) payload)"
    using le ff(2,3) hf(2,4-6) transmit_hooked [OF assms(4,5)] ipv4_send_packet_eq [OF assms(1-3,6,7)]
    unfolding tot by (intro exI [of _ ?f] exI [of _ ?h] exI) auto
qed

definition ip_stack_example :: ip_stack where
  "ip_stack_example = \<lparr>st_core = host_example 0x0A000002 2, st_arp = arp_empty,
     st_route = \<lparr>routes = replicate 8 \<lparr>r_network = [0, 0, 0, 0], r_netmask = [0, 0, 0, 0],
       r_gateway = [0, 0, 0, 0], r_interface = None, r_active = False\<rparr>, route_count = 0\<rparr>,
     ip_id_counter = 0xFFFF\<rparr>"

theorem ipv4_send_packet_wire_witness:
  "ipv4_send_packet (Some 0) [1, 2, 3, 4, 5, 6] [10, 0, 0, 1] 17 (replicate 1485 7) 1485
     ip_stack_example = None \<and>
   (\<exists>s' f h. ipv4_send_packet (Some 0) [1, 2, 3, 4, 5, 6] [10, 0, 0, 1] 17 (replicate 1484 7) 1484
        ip_stack_example = Some s' \<and> tx (st_core s') = [(Via_Netif 0, f)] \<and> length f \<le> 1518 \<and>
      load_field f 14 20 = Some h \<and> ip_checksum h IPV4_HEADER_SIZE = Some 0)"
proof -
  let ?ni = "netif_list (st_core ip_stack_example) ! 0"
  have ex: "core_ok (st_core ip_stack_example)" "netif_at (st_core ip_stack_example) (Some 0) = Some ?ni"
    "ni_send ?ni" "tx (st_core ip_stack_example) = []"
    by (simp_all add: ip_stack_example_def host_example_def core_ok_def netif_at_def)
  let ?m = "[1, 2, 3, 4, 5, 6] :: bytes" and ?d = "[10, 0, 0, 1] :: bytes"
  note w = ipv4_send_packet_wire [OF ex(1) _ _ ex(2,3), of ?m ?d]
  show ?thesis
    using w [of 1485 "replicate 1485 7" 17] w [of 1484 "replicate 1484 7" 17] ex(4) by auto
qed

end
