(* ===== verification/Udp.thy ===== *)
theory Udp
  imports Ipv4
begin

text \<open>
  Sending UDP datagrams, \<^verbatim>\<open>net/l4/udp.c\<close>: the datagram is built, its next hop is routed and resolved,
  and it is handed to IPv4, or dropped with an ARP request in its place. The handler for received
  datagrams calls the DNS and DHCP clients and is in theory \<open>Net_Input\<close>.
\<close>

definition UDP_HEADER_SIZE :: int where [c_defs]: "UDP_HEADER_SIZE = 8"
definition UDP_PORT_DHCP_CLIENT :: u16 where [c_defs]: "UDP_PORT_DHCP_CLIENT = 68"
definition UDP_PORT_DHCP_SERVER :: u16 where [c_defs]: "UDP_PORT_DHCP_SERVER = 67"
definition UDP_PORT_DNS :: u16 where [c_defs]: "UDP_PORT_DNS = 53"

definition udp_header :: "u16 \<Rightarrow> u16 \<Rightarrow> u16 \<Rightarrow> bytes" where
  "udp_header src_port dest_port len =
     mem16 (htons src_port) @ mem16 (htons dest_port) @ mem16 (htons len) @ mem16 0"

definition udp_send_packet ::
  "bytes \<Rightarrow> u16 \<Rightarrow> u16 \<Rightarrow> bytes \<Rightarrow> int \<Rightarrow> ip_stack \<Rightarrow> ip_stack option" where
  "udp_send_packet dest_ip src_port dest_port data len s =
     (if len > 1500 - UDP_HEADER_SIZE then Some s
      else do {
        payload \<leftarrow> load_field data 0 (nat len);
        let buffer = udp_header src_port dest_port (of_int (UDP_HEADER_SIZE + len)) @ payload;
        case route_get_next_hop dest_ip (st_route s) of
          None \<Rightarrow> Some s
        | Some next_hop \<Rightarrow>
            let netif = netif_get_default (st_core s) in
            (case arp_cache_lookup next_hop (st_arp s) of
               None \<Rightarrow> Some (s\<lparr>st_core := arp_send_request netif next_hop (st_core s)\<rparr>)
             | Some dest_mac \<Rightarrow>
                 ipv4_send_packet netif dest_mac dest_ip IP_PROTO_UDP buffer (UDP_HEADER_SIZE + len) s)
      })"

section \<open>Lemmas\<close>

lemma length_udp_header [simp]: "length (udp_header sp dp l) = 8"
  by (simp add: udp_header_def)

lemma udp_header_fields:
  "load16 (udp_header sp dp l @ r) 0 = Some (htons sp)"
  "load16 (udp_header sp dp l @ r) 2 = Some (htons dp)"
  "load16 (udp_header sp dp l @ r) 4 = Some (htons l)"
  using load16_mem16 [of 0 "[]"] load16_mem16 [of 2 "mem16 (htons sp)"]
    load16_mem16 [of 4 "mem16 (htons sp) @ mem16 (htons dp)"]
  by (simp_all add: udp_header_def)

lemma route_next_hop_length:
  assumes "routes_sized r" and "length dest_ip = 4" and "route_get_next_hop dest_ip r = Some hop"
  shows "length hop = 4"
proof -
  obtain i where i: "route_lookup dest_ip r = Some i"
    using assms(3) by (auto simp: route_get_next_hop_def split: option.splits)
  then have "i < MAX_ROUTES" "r_active (routes r ! i)"
    using route_lookup_best [of r dest_ip] by (auto simp: best_match_def covers_def)
  then have "length (r_gateway (routes r ! i)) = 4" using assms(1) by (simp add: routes_sized_def)
  then show ?thesis using assms(2,3) i by (auto simp: route_get_next_hop_def ip_copy_def split: if_splits)
qed

lemma arp_lookup_length:
  assumes "arp_ok a" and "arp_cache_lookup ip a = Some mac"
  shows "length mac = 6"
proof -
  obtain i where "first_index (\<lambda>e. ae_valid e \<and> arp_ip_equals (ae_ip e) ip) (arp_cache a) = Some i"
    and mac: "mac = mac_copy (ae_mac (arp_cache a ! i))"
    using assms(2) by (auto simp: arp_cache_lookup_def)
  then have "i < length (arp_cache a)" "ae_valid (arp_cache a ! i)" by (auto dest: first_index_SomeD)
  then have "length (ae_mac (arp_cache a ! i)) = 6" using assms(1) by (auto simp: arp_ok_def)
  then show ?thesis by (simp add: mac mac_copy_def)
qed

lemma arp_send_request_core_ok: "core_ok s \<Longrightarrow> core_ok (arp_send_request netif ip s)"
  by (simp add: arp_send_request_def transmit_core_ok)

text \<open>The four outcomes: too large, no route, address unknown, or a frame for IPv4.\<close>

lemma udp_send_packet_eq:
  fixes sp dp :: u16
  assumes "ip_stack_ok s" and "length dest_ip = 4" and "0 \<le> len" and "nat len \<le> length data"
  defines "netif \<equiv> netif_get_default (st_core s)"
  defines "dgram \<equiv> udp_header sp dp (of_int (8 + len)) @ take (nat len) data"
  shows "udp_send_packet dest_ip sp dp data len s =
    (if len > 1492 then Some s
     else case route_get_next_hop dest_ip (st_route s) of
       None \<Rightarrow> Some s
     | Some hop \<Rightarrow> (case arp_cache_lookup hop (st_arp s) of
         None \<Rightarrow> Some (s\<lparr>st_core := arp_send_request netif hop (st_core s)\<rparr>)
       | Some mac \<Rightarrow>
           if len \<le> 1476 then
             Some (s\<lparr>st_core := snd (transmit netif (ipv4_frame netif mac dest_ip IP_PROTO_UDP dgram s) (st_core s)),
                     ip_id_counter := ip_id_counter s + 1\<rparr>)
           else None))"
proof (cases "len > 1492 \<or> route_get_next_hop dest_ip (st_route s) = None")
  case True
  then show ?thesis using assms(4) by (auto simp: udp_send_packet_def c_defs load_field_def Let_def)
next
  case False
  then obtain hop where hop: "route_get_next_hop dest_ip (st_route s) = Some hop" by auto
  show ?thesis
  proof (cases "arp_cache_lookup hop (st_arp s)")
    case None
    then show ?thesis
      using False hop assms(4)
      by (simp add: udp_send_packet_def c_defs load_field_def Let_def netif_def)
  next
    case (Some mac)
    have ok: "core_ok (st_core s)" "arp_ok (st_arp s)" using assms(1) by (simp_all add: ip_stack_ok_def)
    have mac: "length mac = 6" using ok(2) Some by (rule arp_lookup_length)
    have d: "take (nat (8 + len)) dgram = dgram" "nat (8 + len) \<le> length dgram"
      using assms(3,4) by (simp_all add: dgram_def nat_add_distrib)
    show ?thesis
      using False hop Some assms(3,4) d ipv4_send_packet_eq [OF ok(1) mac assms(2), of "8 + len" dgram]
      by (simp add: udp_send_packet_def c_defs load_field_def Let_def netif_def dgram_def)
  qed
qed

lemma udp_send_packet_keeps:
  assumes "udp_send_packet dest_ip sp dp data len s = Some s'" and "ip_stack_ok s"
  shows "ip_stack_ok s'" and "st_arp s' = st_arp s" and "st_route s' = st_route s"
    and "netif_list (st_core s') = netif_list (st_core s)" and "MY_IP (st_core s') = MY_IP (st_core s)"
proof -
  have "s' = s \<or> (\<exists>netif hop. s' = s\<lparr>st_core := arp_send_request netif hop (st_core s)\<rparr>) \<or>
      (\<exists>netif mac buf l. ipv4_send_packet netif mac dest_ip IP_PROTO_UDP buf l s = Some s')"
    using assms(1)
    by (cases "route_get_next_hop dest_ip (st_route s)";
        cases "arp_cache_lookup (the (route_get_next_hop dest_ip (st_route s))) (st_arp s)")
       (auto simp: udp_send_packet_def Let_def bind_eq_Some_conv split: if_splits)
  then show "ip_stack_ok s'" "st_arp s' = st_arp s" "st_route s' = st_route s"
    "netif_list (st_core s') = netif_list (st_core s)" "MY_IP (st_core s') = MY_IP (st_core s)"
    using assms(2) ipv4_send_packet_keeps
    by (auto simp: ip_stack_ok_def arp_send_request_def transmit_core_ok transmit_config)
qed

lemma udp_send_packet_defined:
  assumes "ip_stack_ok s" and "length dest_ip = 4" and "0 \<le> len" and "nat len \<le> length data" and "len \<le> 1476"
  obtains s' where "udp_send_packet dest_ip sp dp data len s = Some s'" and "ip_stack_ok s'"
proof -
  have "\<exists>s'. udp_send_packet dest_ip sp dp data len s = Some s'"
    unfolding udp_send_packet_eq [OF assms(1-4)] using assms(5) by (simp split: option.split)
  then show ?thesis using udp_send_packet_keeps(1) [OF _ assms(1)] that by blast
qed

end
