(* ===== verification/Icmp.thy ===== *)
theory Icmp
  imports Udp
begin

text \<open>
  ICMP, \<^verbatim>\<open>net/l3/icmp.c\<close>: the handler for received messages, echo requests, and the \<open>ping_ip\<close> loop.
  What interrupts do while the loop waits is a parameter, as is the clock.
\<close>

section \<open>Model of the source\<close>

definition ICMP_TYPE_ECHO_REPLY :: u8 where [c_defs]: "ICMP_TYPE_ECHO_REPLY = 0"
definition ICMP_TYPE_ECHO_REQUEST :: u8 where [c_defs]: "ICMP_TYPE_ECHO_REQUEST = 8"
definition ICMP_HEADER_SIZE :: int where [c_defs]: "ICMP_HEADER_SIZE = 8"
definition PING_DATA_SIZE :: int where [c_defs]: "PING_DATA_SIZE = 56"

record ping_state =
  p_dest_ip :: bytes
  p_hostname :: bytes
  p_identifier :: u16
  p_sequence :: u16
  p_sent :: u16
  p_received :: u16
  p_ttl :: u8
  p_time :: u32
  p_send_time :: u64
  p_min_time :: u32
  p_max_time :: u32
  p_total_time :: u32
  p_waiting :: bool
  p_active :: bool

record icmp_state =
  g_ping :: ping_state
  g_ping_id :: u16
  g_ping_stop :: bool

type_synonym ping_world = "icmp_state \<times> ip_stack"

definition icmp_header :: "u8 \<Rightarrow> u16 \<Rightarrow> u16 \<Rightarrow> u16 \<Rightarrow> bytes" where
  "icmp_header type checksum identifier sequence =
     [type, 0] @ mem16 checksum @ mem16 (htons identifier) @ mem16 (htons sequence)"

text \<open>
  The headers are pointers into the received frame. The reply is built in a buffer of 1500 bytes:
  the copy loop stops there, but the checksum and the transmission use the full length.
\<close>

definition icmp_handle_packet ::
  "netif_ptr \<Rightarrow> bytes \<Rightarrow> bytes \<Rightarrow> bytes \<Rightarrow> int \<Rightarrow> u64 \<Rightarrow> ping_world \<Rightarrow> ping_world option" where
  "icmp_handle_packet netif eth ip_hdr icmp_data len now = (\<lambda>(p, s).
     if len < ICMP_HEADER_SIZE then Some (p, s)
     else do {
       type \<leftarrow> aget icmp_data 0;
       if type = ICMP_TYPE_ECHO_REQUEST then do {
         reply_buffer \<leftarrow> load_field icmp_data 0 (nat (min len 1500));
         let reply = [ICMP_TYPE_ECHO_REPLY, 0] @ mem16 0 @ drop 4 reply_buffer;
         checksum \<leftarrow> ip_checksum reply len;
         let reply = [ICMP_TYPE_ECHO_REPLY, 0] @ mem16 checksum @ drop 4 reply_buffer;
         src_mac \<leftarrow> load_field eth 6 6;
         src_ip \<leftarrow> load_field ip_hdr 12 4;
         s \<leftarrow> ipv4_send_packet netif src_mac src_ip IP_PROTO_ICMP reply len s;
         Some (p, s)
       }
       else if type = ICMP_TYPE_ECHO_REPLY then
         if p_active (g_ping p) \<and> p_waiting (g_ping p) then do {
           identifier \<leftarrow> load16 icmp_data 4;
           sequence \<leftarrow> load16 icmp_data 6;
           if ntohs identifier = p_identifier (g_ping p) then do {
             ttl \<leftarrow> aget ip_hdr 8;
             Some (p\<lparr>g_ping := (g_ping p)\<lparr>p_time := ucast (now - p_send_time (g_ping p)), p_ttl := ttl,
                       p_received := p_received (g_ping p) + 1, p_waiting := False\<rparr>\<rparr>, s)
           }
           else Some (p, s)
         }
         else Some (p, s)
       else Some (p, s)
     })"

definition icmp_str_copy :: "bytes \<Rightarrow> bytes \<Rightarrow> int \<Rightarrow> bytes option" where
  "icmp_str_copy dest src max_len = copy_str dest src 0 max_len"

definition icmp_send_echo_request :: "bytes \<Rightarrow> u64 \<Rightarrow> ping_world \<Rightarrow> ping_world option" where
  "icmp_send_echo_request dest_ip now = (\<lambda>(p, s).
     case netif_get_default (st_core s) of
       None \<Rightarrow> Some (p, s)
     | Some i \<Rightarrow> do {
         let data = map (\<lambda>k. of_nat k AND 0xFF) [0..<nat PING_DATA_SIZE];
         let header = (\<lambda>checksum. icmp_header ICMP_TYPE_ECHO_REQUEST checksum
                         (p_identifier (g_ping p)) (p_sequence (g_ping p)));
         checksum \<leftarrow> ip_checksum (header 0 @ data) (ICMP_HEADER_SIZE + PING_DATA_SIZE);
         let buffer = header checksum @ data;
         case route_get_next_hop dest_ip (st_route s) of
           None \<Rightarrow> Some (p, s)
         | Some next_hop \<Rightarrow>
             (case arp_cache_lookup next_hop (st_arp s) of
                None \<Rightarrow> Some (p, s\<lparr>st_core := arp_send_request (Some i) next_hop (st_core s)\<rparr>)
              | Some dest_mac \<Rightarrow> do {
                  let p = p\<lparr>g_ping := (g_ping p)\<lparr>p_sent := p_sent (g_ping p) + 1, p_waiting := True,
                             p_send_time := now\<rparr>\<rparr>;
                  s \<leftarrow> ipv4_send_packet (Some i) dest_mac dest_ip IP_PROTO_ICMP buffer
                        (ICMP_HEADER_SIZE + PING_DATA_SIZE) s;
                  Some (p, s)
                })
       })"

text \<open>
  The wait loop of \<open>ping_ip\<close>: at most 60 halts, with up to three retries while nothing was sent.
  \<open>irq n\<close> is what happens during the \<open>n\<close>-th halt and \<open>clock n\<close> the time after it.
\<close>

fun ping_wait :: "(nat \<Rightarrow> ping_world \<Rightarrow> ping_world) \<Rightarrow> (nat \<Rightarrow> u64) \<Rightarrow> bytes \<Rightarrow> nat \<Rightarrow> nat \<Rightarrow> ping_world
    \<Rightarrow> ping_world option" where
  "ping_wait irq clock dest_ip 0 retry_count w = Some w"
| "ping_wait irq clock dest_ip (Suc left) retry_count w = do {
     let timeout_count = 60 - left;
     let w = irq timeout_count w;
     let retry = p_sent (g_ping (fst w)) = 0 \<and> retry_count < 3 \<and>
                 (timeout_count = 5 \<or> timeout_count = 15 \<or> timeout_count = 25);
     w \<leftarrow> (if retry then icmp_send_echo_request dest_ip (clock timeout_count) w else Some w);
     let retry_count = (if retry then retry_count + 1 else retry_count);
     if p_sent (g_ping (fst w)) > 0 \<and> \<not> p_waiting (g_ping (fst w)) then Some w
     else ping_wait irq clock dest_ip left retry_count w
   }"

definition ping_start :: "bytes \<Rightarrow> icmp_state \<Rightarrow> icmp_state" where
  "ping_start dest_ip p =
     p\<lparr>g_ping_id := g_ping_id p + 1,
       g_ping := (g_ping p)\<lparr>p_identifier := g_ping_id p + 1, p_sequence := 1, p_sent := 0,
         p_received := 0, p_waiting := False, p_active := True, p_min_time := 0xFFFFFFFF,
         p_max_time := 0, p_total_time := 0, p_dest_ip := take 4 dest_ip\<rparr>,
       g_ping_stop := False\<rparr>"

definition ping_update_times :: "ping_state \<Rightarrow> ping_state" where
  "ping_update_times g = g\<lparr>p_min_time := min (p_time g) (p_min_time g),
     p_max_time := max (p_time g) (p_max_time g), p_total_time := p_total_time g + p_time g\<rparr>"

definition ping_ip :: "(nat \<Rightarrow> ping_world \<Rightarrow> ping_world) \<Rightarrow> (nat \<Rightarrow> u64) \<Rightarrow> bytes \<Rightarrow> ping_world
    \<Rightarrow> (int \<times> ping_world) option" where
  "ping_ip irq clock dest_ip = (\<lambda>(p, s). do {
     w \<leftarrow> icmp_send_echo_request dest_ip (clock 0) (ping_start dest_ip p, s);
     (p, s) \<leftarrow> ping_wait irq clock dest_ip 60 0 w;
     let g = (if p_received (g_ping p) > 0 then ping_update_times (g_ping p) else g_ping p);
     Some (if p_received g > 0 then 0 else - 2, p\<lparr>g_ping := g\<lparr>p_active := False\<rparr>\<rparr>, s)
   })"

definition ping_is_waiting :: "icmp_state \<Rightarrow> bool" where
  "ping_is_waiting p \<longleftrightarrow> p_active (g_ping p) \<and> p_waiting (g_ping p)"

definition ping_get_stats :: "icmp_state \<Rightarrow> u16 \<times> u16" where
  "ping_get_stats p = (p_sent (g_ping p), p_received (g_ping p))"

section \<open>Lemmas\<close>

lemma echo_reply_checksum:
  assumes "8 \<le> len" and "nat len = length buf" and "len \<le> 1500"
  obtains c where "ip_checksum ([0, 0] @ mem16 0 @ drop 4 buf) len = Some c"
    "ip_checksum ([0, 0] @ mem16 c @ drop 4 buf) len = Some 0"
proof -
  have "nat len \<le> length ([0, 0] @ mem16 0 @ drop 4 buf)" "len \<le> 65536" using assms by auto
  from ip_checksum_eq [OF this] obtain c where
    c: "ip_checksum ([0, 0] @ mem16 0 @ drop 4 buf) len = Some c" by blast
  moreover have "ip_checksum ([0, 0] @ mem16 c @ drop 4 buf) len = Some 0"
    using c assms by (intro ip_checksum_fills) auto
  ultimately show ?thesis by (rule that)
qed

text \<open>An echo request is answered, unless it is too large for the buffers on the way.\<close>

lemma icmp_echo_overflow:
  assumes "1484 < len" and "icmp_data \<noteq> []" and "icmp_data ! 0 = 8"
  shows "icmp_handle_packet netif eth ip_hdr icmp_data len now (p, s) = None"
  using assms
  by (auto simp: icmp_handle_packet_def Let_def c_defs ipv4_send_packet_overflow split: Option.bind_splits)

lemma icmp_echo_answer:
  fixes eth ip_hdr :: bytes
  assumes "core_ok (st_core s)" and "12 \<le> length eth" and "16 \<le> length ip_hdr"
    and "8 \<le> len" and "nat len \<le> length icmp_data" and "icmp_data ! 0 = 8" and "len \<le> 1484"
  defines "src_mac \<equiv> take 6 (drop 6 eth)" and "src_ip \<equiv> take 4 (drop 12 ip_hdr)"
  defines "rest \<equiv> drop 4 (take (nat len) icmp_data)"
  obtains c where "ip_checksum ([0, 0] @ mem16 c @ rest) len = Some 0"
    and "icmp_handle_packet netif eth ip_hdr icmp_data len now (p, s) =
        Some (p, s\<lparr>st_core := snd (transmit netif (ipv4_frame netif src_mac src_ip IP_PROTO_ICMP
                   ([0, 0] @ mem16 c @ rest) s) (st_core s)),
                ip_id_counter := ip_id_counter s + 1\<rparr>)"
proof -
  let ?buf = "take (nat len) icmp_data"
  have "0 < length icmp_data" using assms(4,5) by linarith
  then have f: "aget icmp_data 0 = Some 8" "load_field eth 6 6 = Some src_mac"
    "load_field ip_hdr 12 4 = Some src_ip" "length src_mac = 6" "length src_ip = 4"
    using assms(2-6) by (auto simp: load_field_def src_mac_def src_ip_def)
  have buf: "load_field icmp_data 0 (nat (min len 1500)) = Some ?buf" "nat len = length ?buf"
    using assms(5,7) by (simp_all add: load_field_def min_def)
  obtain c where c: "ip_checksum ([0, 0] @ mem16 0 @ rest) len = Some c"
    "ip_checksum ([0, 0] @ mem16 c @ rest) len = Some 0"
    using echo_reply_checksum [OF assms(4) buf(2)] assms(7) unfolding rest_def by auto
  have r: "nat len = length ([0, 0] @ mem16 c @ rest)" using assms(4,5) by (simp add: rest_def)
  have "icmp_handle_packet netif eth ip_hdr icmp_data len now (p, s) =
      do { s \<leftarrow> ipv4_send_packet netif src_mac src_ip IP_PROTO_ICMP ([0, 0] @ mem16 c @ rest) len s; Some (p, s) }"
    using f buf c assms(4) by (simp add: icmp_handle_packet_def c_defs Let_def rest_def)
  then show ?thesis
    using c(2) r assms(4,7) ipv4_send_packet_eq [OF assms(1) f(4,5), of len "[0, 0] @ mem16 c @ rest"]
    by (intro that [of c]) simp_all
qed

text \<open>Sending an echo request never runs off a buffer.\<close>

lemma icmp_send_echo_request_defined:
  assumes "ip_stack_ok s" and "length dest_ip = 4"
  obtains p' s' where "icmp_send_echo_request dest_ip now (p, s) = Some (p', s')" and "ip_stack_ok s'"
proof -
  have ok: "core_ok (st_core s)" "arp_ok (st_arp s)" using assms(1) by (simp_all add: ip_stack_ok_def)
  let ?data = "map (\<lambda>k. of_nat k AND 0xFF) [0..<56] :: bytes"
  let ?hdr = "\<lambda>c. icmp_header 8 c (p_identifier (g_ping p)) (p_sequence (g_ping p))"
  have len: "length (?hdr c @ ?data) = 64" for c by (simp add: icmp_header_def)
  obtain c where c: "ip_checksum (?hdr 0 @ ?data) 64 = Some c"
    using ip_checksum_eq [of 64 "?hdr 0 @ ?data"] len by simp
  have ipv4: "\<exists>s'. ipv4_send_packet (Some i) mac dest_ip 1 (?hdr c @ ?data) 64 s = Some s' \<and> ip_stack_ok s'"
    if "length mac = 6" for i mac
    using ipv4_send_packet_eq [OF ok(1) that assms(2), of 64 "?hdr c @ ?data" "Some i" 1] len
      ipv4_send_packet_keeps(5) [OF _ assms(1)] by simp
  show ?thesis
  proof (cases "netif_get_default (st_core s)")
    case None
    then show ?thesis using assms(1) by (intro that) (simp add: icmp_send_echo_request_def)
  next
    case (Some i)
    then show ?thesis
    proof (cases "route_get_next_hop dest_ip (st_route s)")
      case None
      then show ?thesis using Some c assms(1) by (intro that) (simp_all add: icmp_send_echo_request_def c_defs)
    next
      case hop: (Some hop)
      show ?thesis
      proof (cases "arp_cache_lookup hop (st_arp s)")
        case None
        then show ?thesis using Some hop c assms(1) arp_send_request_core_ok [OF ok(1), of "Some i" hop]
          by (intro that [of p "s\<lparr>st_core := arp_send_request (Some i) hop (st_core s)\<rparr>"])
             (simp_all add: icmp_send_echo_request_def c_defs ip_stack_ok_def)
      next
        case mac: (Some mac)
        have "length mac = 6" using ok(2) mac by (rule arp_lookup_length)
        from ipv4 [OF this, of i] obtain s' where
          "ipv4_send_packet (Some i) mac dest_ip 1 (?hdr c @ ?data) 64 s = Some s'" "ip_stack_ok s'" by blast
        then show ?thesis using Some hop mac c
          by (intro that) (simp_all add: icmp_send_echo_request_def c_defs Let_def)
      qed
    qed
  qed
qed

lemma ping_wait_defined:
  assumes "\<And>n w. ip_stack_ok (snd w) \<Longrightarrow> ip_stack_ok (snd (irq n w))" and "length dest_ip = 4"
  shows "ip_stack_ok (snd w) \<Longrightarrow> \<exists>w'. ping_wait irq clock dest_ip k r w = Some w' \<and> ip_stack_ok (snd w')"
proof (induction k arbitrary: r w)
  case 0
  then show ?case by simp
next
  case (Suc k)
  let ?w = "irq (60 - k) w"
  let ?retry = "p_sent (g_ping (fst ?w)) = 0 \<and> r < 3 \<and> (60 - k = 5 \<or> 60 - k = 15 \<or> 60 - k = 25)"
  obtain v where v: "(if ?retry then icmp_send_echo_request dest_ip (clock (60 - k)) ?w else Some ?w) = Some v"
    "ip_stack_ok (snd v)"
  proof (cases ?retry)
    case True
    obtain p' s' where "icmp_send_echo_request dest_ip (clock (60 - k)) (fst ?w, snd ?w) = Some (p', s')"
      "ip_stack_ok s'"
      using icmp_send_echo_request_defined [OF assms(1) [OF Suc.prems] assms(2)] by metis
    then show ?thesis using True by (intro that [of "(p', s')"]) auto
  next
    case False
    then show ?thesis using assms(1) [OF Suc.prems] by (intro that [of ?w]) auto
  qed
  show ?case using Suc.IH [OF v(2)] v by (cases v) (simp add: Let_def)
qed

section \<open>Properties\<close>

text \<open>
  an echo request of at most 1484 bytes is answered with one frame to its sender: type 0, the
  same identifier, sequence number and data, and a checksum that verifies. A longer one, as the
  IP header announces it, overflows the buffer of the reply.
\<close>

theorem icmp_echo_reply:
  assumes "core_ok (st_core s)" and "netif_at (st_core s) (Some i) = Some ni" and "ni_send ni"
    and "12 \<le> length eth" and "16 \<le> length ip_hdr"
    and "8 \<le> len" and "nat len \<le> length icmp_data" and "icmp_data ! 0 = ICMP_TYPE_ECHO_REQUEST"
  shows "(1484 < len \<longrightarrow> icmp_handle_packet (Some i) eth ip_hdr icmp_data len now (p, s) = None) \<and>
    (len \<le> 1484 \<longrightarrow> (\<exists>s' f reply.
       icmp_handle_packet (Some i) eth ip_hdr icmp_data len now (p, s) = Some (p, s') \<and>
       tx (st_core s') = tx (st_core s) @ [(Via_Netif i, f)] \<and>
       load_field f 0 6 = load_field eth 6 6 \<and> load_field f 30 4 = load_field ip_hdr 12 4 \<and>
       load_field f 34 (nat len) = Some reply \<and> reply ! 0 = ICMP_TYPE_ECHO_REPLY \<and> reply ! 1 = 0 \<and>
       drop 4 reply = drop 4 (take (nat len) icmp_data) \<and> ip_checksum reply len = Some 0))"
proof (intro conjI impI)
  assume "1484 < len"
  then show "icmp_handle_packet (Some i) eth ip_hdr icmp_data len now (p, s) = None"
    using assms(7,8) by (intro icmp_echo_overflow) (auto simp: c_defs)
next
  assume le: "len \<le> 1484"
  let ?mac = "take 6 (drop 6 eth)" and ?ip = "take 4 (drop 12 ip_hdr)"
  let ?rest = "drop 4 (take (nat len) icmp_data)"
  obtain c where c: "ip_checksum ([0, 0] @ mem16 c @ ?rest) len = Some 0"
    and h: "icmp_handle_packet (Some i) eth ip_hdr icmp_data len now (p, s) =
        Some (p, s\<lparr>st_core := snd (transmit (Some i) (ipv4_frame (Some i) ?mac ?ip IP_PROTO_ICMP
                   ([0, 0] @ mem16 c @ ?rest) s) (st_core s)), ip_id_counter := ip_id_counter s + 1\<rparr>)"
    using icmp_echo_answer [OF assms(1,4,5,6,7) _ le] assms(8) by (metis ICMP_TYPE_ECHO_REQUEST_def)
  let ?reply = "[0, 0] @ mem16 c @ ?rest" and ?f = "ipv4_frame (Some i) ?mac ?ip IP_PROTO_ICMP ([0, 0] @ mem16 c @ ?rest) s"
  have len: "length ?mac = 6" "length ?ip = 4" "length ?reply = nat len" using assms(4-7) by auto
  note ff = ipv4_frame_fields [OF assms(1) len(1,2), of "Some i" IP_PROTO_ICMP ?reply]
  have fields: "load_field eth 6 6 = Some ?mac" "load_field ip_hdr 12 4 = Some ?ip"
    using assms(4,5) by (simp_all add: load_field_def)
  have reply: "?reply ! 0 = ICMP_TYPE_ECHO_REPLY" "?reply ! 1 = 0" "drop 4 ?reply = ?rest"
    by (simp_all add: c_defs mem16_def)
  show "\<exists>s' f reply.
       icmp_handle_packet (Some i) eth ip_hdr icmp_data len now (p, s) = Some (p, s') \<and>
       tx (st_core s') = tx (st_core s) @ [(Via_Netif i, f)] \<and>
       load_field f 0 6 = load_field eth 6 6 \<and> load_field f 30 4 = load_field ip_hdr 12 4 \<and>
       load_field f 34 (nat len) = Some reply \<and> reply ! 0 = ICMP_TYPE_ECHO_REPLY \<and> reply ! 1 = 0 \<and>
       drop 4 reply = drop 4 (take (nat len) icmp_data) \<and> ip_checksum reply len = Some 0"
    unfolding fields
    by (rule exI, rule exI [of _ ?f], rule exI [of _ ?reply], intro conjI, rule h,
        simp add: transmit_hooked [OF assms(2,3)], rule ff(2), rule ff(7),
        rule ff(5) [unfolded len(3)], (rule reply c)+)
qed

definition p0 :: icmp_state where
  "p0 = \<lparr>g_ping = \<lparr>p_dest_ip = [0, 0, 0, 0], p_hostname = replicate 64 0, p_identifier = 0, p_sequence = 0,
     p_sent = 0, p_received = 0, p_ttl = 0, p_time = 0, p_send_time = 0, p_min_time = 0, p_max_time = 0,
     p_total_time = 0, p_waiting = False, p_active = False\<rparr>, g_ping_id = 0x1234, g_ping_stop = False\<rparr>"

theorem icmp_echo_reply_witness:
  "icmp_handle_packet (Some 0) (replicate 14 1) (replicate 20 10) (8 # replicate 1484 7) 1485 0 (p0, ip_stack_example) = None \<and>
   (\<exists>s' f reply.
      icmp_handle_packet (Some 0) (replicate 14 1) (replicate 20 10) [8, 0, 0, 0, 0x12, 0x35, 0, 1, 0x41] 9 0 (p0, ip_stack_example) =
        Some (p0, s') \<and> tx (st_core s') = [(Via_Netif 0, f)] \<and>
      load_field f 34 9 = Some reply \<and> reply ! 0 = 0 \<and> drop 4 reply = [0x12, 0x35, 0, 1, 0x41] \<and>
      ip_checksum reply 9 = Some 0)"
proof -
  let ?ni = "netif_list (st_core ip_stack_example) ! 0"
  have ex: "core_ok (st_core ip_stack_example)" "netif_at (st_core ip_stack_example) (Some 0) = Some ?ni"
    "ni_send ?ni" "tx (st_core ip_stack_example) = []"
    by (simp_all add: ip_stack_example_def host_example_def core_ok_def netif_at_def)
  note w = icmp_echo_reply [OF ex(1-3), of "replicate 14 1" "replicate 20 10" _ _ 0 p0]
  show ?thesis
    using w [of 1485 "8 # replicate 1484 7"] w [of 9 "[8, 0, 0, 0, 0x12, 0x35, 0, 1, 0x41]"] ex(4)
    by (auto simp: c_defs)
qed

text \<open>
  \<open>ping_ip\<close> always returns, whatever the network does meanwhile: 0 exactly if a reply was
  counted and -2 otherwise, leaving no ping active.
\<close>

theorem ping_ip_returns:
  assumes "\<And>n w. ip_stack_ok (snd w) \<Longrightarrow> ip_stack_ok (snd (irq n w))"
    and "ip_stack_ok s" and "length dest_ip = 4"
  shows "\<exists>r p' s'. ping_ip irq clock dest_ip (p, s) = Some (r, p', s') \<and> ip_stack_ok s' \<and>
    r = (if 0 < p_received (g_ping p') then 0 else - 2) \<and> \<not> p_active (g_ping p')"
proof -
  obtain p1 s1 where 1: "icmp_send_echo_request dest_ip (clock 0) (ping_start dest_ip p, s) = Some (p1, s1)"
    "ip_stack_ok s1"
    using icmp_send_echo_request_defined [OF assms(2,3)] by metis
  obtain p2 s2 where 2: "ping_wait irq clock dest_ip 60 0 (p1, s1) = Some (p2, s2)" "ip_stack_ok s2"
    using ping_wait_defined [of irq dest_ip "(p1, s1)" clock 60 0] assms(1,3) 1(2)
    by (metis prod.collapse snd_conv)
  show ?thesis
    using 1(1) 2 by (simp add: ping_ip_def ping_update_times_def Let_def del: ping_wait.simps)
qed

theorem ping_ip_returns_witness:
  "\<exists>r p' s'. ping_ip (\<lambda>n w. w) (\<lambda>n. of_nat n) [10, 0, 0, 1] (p0, ip_stack_example) = Some (r, p', s') \<and>
     \<not> p_active (g_ping p')"
proof -
  have "ip_stack_ok ip_stack_example"
    using arp_empty_ok
    by (simp add: ip_stack_ok_def ip_stack_example_def host_example_def core_ok_def routes_sized_def c_defs)
  then show ?thesis using ping_ip_returns [of "\<lambda>n w. w" ip_stack_example "[10, 0, 0, 1]" "\<lambda>n. of_nat n" p0] by auto
qed

end
