(* ===== verification/Dns.thy ===== *)
theory Dns
  imports Udp
begin

text \<open>
  The DNS resolver, \<^verbatim>\<open>net/l4/dns.c\<close>: the cache, queries for host names and addresses, and the
  handler for responses with its name compression.
\<close>

section \<open>Model of the source\<close>

definition DNS_PORT :: u16 where [c_defs]: "DNS_PORT = 53"
definition DNS_HEADER_SIZE :: int where [c_defs]: "DNS_HEADER_SIZE = 12"
definition DNS_MAX_PACKET_SIZE :: nat where [c_defs]: "DNS_MAX_PACKET_SIZE = 512"
definition DNS_CACHE_SIZE :: nat where [c_defs]: "DNS_CACHE_SIZE = 16"
definition DNS_CACHE_DEFAULT_TTL :: u32 where [c_defs]: "DNS_CACHE_DEFAULT_TTL = 300"
definition DNS_TYPE_A :: u8 where [c_defs]: "DNS_TYPE_A = 1"
definition DNS_TYPE_CNAME :: u8 where [c_defs]: "DNS_TYPE_CNAME = 5"
definition DNS_TYPE_PTR :: u8 where [c_defs]: "DNS_TYPE_PTR = 12"
definition DNS_CLASS_IN :: u8 where [c_defs]: "DNS_CLASS_IN = 1"
definition DNS_FLAG_QR :: u16 where [c_defs]: "DNS_FLAG_QR = 0x8000"
definition DNS_FLAG_RD :: u16 where [c_defs]: "DNS_FLAG_RD = 0x0100"
definition DNS_FLAG_RCODE :: u16 where [c_defs]: "DNS_FLAG_RCODE = 0x000F"

datatype dns_query_type = DNS_QUERY_A | DNS_QUERY_PTR | DNS_QUERY_CNAME

record dns_cache_entry =
  de_hostname :: bytes
  de_ip :: bytes
  de_cname :: bytes
  de_ttl :: u32
  de_timestamp :: u32
  de_record_type :: u8
  de_valid :: bool

record dns_pending_query =
  q_id :: u16
  q_hostname :: bytes
  q_resolved_ip :: bytes
  q_resolved_name :: bytes
  q_cname :: bytes
  q_type :: dns_query_type
  q_completed :: bool
  q_success :: bool
  q_has_cname :: bool

record dns_state =
  g_dns_server :: u32
  g_dns_server_bytes :: bytes
  g_dns_initialized :: bool
  g_dns_transaction_id :: u16
  g_pending_query :: dns_pending_query
  g_dns_cache :: "dns_cache_entry list"
  g_cache_hits :: u32
  g_cache_misses :: u32

definition ip_to_bytes :: "u32 \<Rightarrow> bytes" where
  "ip_to_bytes ip =
     [ucast (drop_bit 24 ip AND 0xFF), ucast (drop_bit 16 ip AND 0xFF),
      ucast (drop_bit 8 ip AND 0xFF), ucast (ip AND 0xFF)]"

definition str_copy :: "bytes \<Rightarrow> bytes \<Rightarrow> int \<Rightarrow> bytes option" where
  "str_copy dest src max_len = copy_str dest src 0 max_len"

fun str_len :: "bytes \<Rightarrow> int option" where
  "str_len (c # s) = (if c \<noteq> 0 then map_option (\<lambda>n. n + 1) (str_len s) else Some 0)"
| "str_len [] = None"

definition str_equal :: "bytes \<Rightarrow> bytes \<Rightarrow> bool option" where
  "str_equal a b = name_match a b"

definition ip_equal :: "bytes \<Rightarrow> bytes \<Rightarrow> bool" where
  "ip_equal a b \<longleftrightarrow> a ! 0 = b ! 0 \<and> a ! 1 = b ! 1 \<and> a ! 2 = b ! 2 \<and> a ! 3 = b ! 3"

subsection \<open>Cache\<close>

definition dns_cache_flush :: "dns_state \<Rightarrow> dns_state" where
  "dns_cache_flush s = s\<lparr>g_dns_cache := map (\<lambda>e. e\<lparr>de_valid := False\<rparr>) (g_dns_cache s),
     g_cache_hits := 0, g_cache_misses := 0\<rparr>"

definition dns_cache_find_slot :: "dns_state \<Rightarrow> nat" where
  "dns_cache_find_slot s = (case first_index (\<lambda>e. \<not> de_valid e) (g_dns_cache s) of Some i \<Rightarrow> i | None \<Rightarrow> 0)"

definition dns_cache_add :: "bytes \<Rightarrow> bytes \<Rightarrow> u32 \<Rightarrow> dns_state \<Rightarrow> dns_state option" where
  "dns_cache_add hostname ip ttl s = do {
     let slot = dns_cache_find_slot s;
     entry \<leftarrow> aget (g_dns_cache s) slot;
     name \<leftarrow> str_copy (de_hostname entry) hostname 64;
     ip \<leftarrow> load_field ip 0 4;
     Some (s\<lparr>g_dns_cache := (g_dns_cache s)[slot := entry\<lparr>de_hostname := name, de_ip := ip,
       de_ttl := (if ttl > 0 then ttl else DNS_CACHE_DEFAULT_TTL), de_timestamp := 0,
       de_record_type := DNS_TYPE_A, de_valid := True\<rparr>]\<rparr>)
   }"

definition dns_cache_add_ptr :: "bytes \<Rightarrow> bytes \<Rightarrow> u32 \<Rightarrow> dns_state \<Rightarrow> dns_state option" where
  "dns_cache_add_ptr ip hostname ttl s = do {
     let slot = dns_cache_find_slot s;
     entry \<leftarrow> aget (g_dns_cache s) slot;
     ip \<leftarrow> load_field ip 0 4;
     name \<leftarrow> str_copy (de_hostname entry) hostname 64;
     Some (s\<lparr>g_dns_cache := (g_dns_cache s)[slot := entry\<lparr>de_ip := ip, de_hostname := name,
       de_ttl := (if ttl > 0 then ttl else DNS_CACHE_DEFAULT_TTL), de_timestamp := 0,
       de_record_type := DNS_TYPE_PTR, de_valid := True\<rparr>]\<rparr>)
   }"

text \<open>The search loops; the string comparison may run off an unterminated name.\<close>

fun find_host :: "bytes \<Rightarrow> dns_cache_entry list \<Rightarrow> dns_cache_entry option option" where
  "find_host hostname [] = Some None"
| "find_host hostname (e # es) =
     (if de_valid e \<and> de_record_type e = DNS_TYPE_A then do {
        eq \<leftarrow> str_equal (de_hostname e) hostname;
        if eq then Some (Some e) else find_host hostname es
      }
      else find_host hostname es)"

definition dns_cache_lookup :: "bytes \<Rightarrow> dns_state \<Rightarrow> (bytes option \<times> dns_state) option" where
  "dns_cache_lookup hostname s = do {
     r \<leftarrow> find_host hostname (g_dns_cache s);
     Some (case r of Some e \<Rightarrow> (Some (de_ip e), s\<lparr>g_cache_hits := g_cache_hits s + 1\<rparr>)
           | None \<Rightarrow> (None, s\<lparr>g_cache_misses := g_cache_misses s + 1\<rparr>))
   }"

definition dns_cache_reverse_lookup ::
  "bytes \<Rightarrow> bytes \<Rightarrow> int \<Rightarrow> dns_state \<Rightarrow> (bytes option \<times> dns_state) option" where
  "dns_cache_reverse_lookup ip out_name max_len s =
     (case first_index (\<lambda>e. de_valid e \<and> de_record_type e = DNS_TYPE_PTR \<and> ip_equal (de_ip e) ip) (g_dns_cache s) of
        Some i \<Rightarrow> do {
          name \<leftarrow> str_copy out_name (de_hostname (g_dns_cache s ! i)) max_len;
          Some (Some name, s\<lparr>g_cache_hits := g_cache_hits s + 1\<rparr>)
        }
      | None \<Rightarrow> Some (None, s\<lparr>g_cache_misses := g_cache_misses s + 1\<rparr>))"

definition dns_init :: "u32 \<Rightarrow> dns_state \<Rightarrow> dns_state" where
  "dns_init server s =
     dns_cache_flush (s\<lparr>g_dns_server := server, g_dns_server_bytes := ip_to_bytes server,
       g_dns_initialized := True,
       g_pending_query := (g_pending_query s)\<lparr>q_id := 0, q_hostname := (q_hostname (g_pending_query s))[0 := 0],
         q_completed := False, q_success := False, q_has_cname := False\<rparr>\<rparr>)"

subsection \<open>Names\<close>

text \<open>
  The loop of \<open>dns_encode_name\<close>: \<open>label\<close> is the part of the name since the last dot. Each label is
  written with its length, reduced to a byte, in front.
\<close>

fun encode_loop :: "bytes \<Rightarrow> nat \<Rightarrow> bytes \<Rightarrow> bytes \<Rightarrow> (bytes \<times> nat) option" where
  "encode_loop buffer pos label (c # hostname) =
     (if c = 46 \<or> c = 0 then do {
        buffer \<leftarrow> store_at buffer pos (of_nat (length label) # label);
        let pos = pos + 1 + length label;
        if c = 0 then do { buffer \<leftarrow> store_at buffer pos [0]; Some (buffer, pos + 1) }
        else encode_loop buffer pos [] hostname
      }
      else encode_loop buffer pos (label @ [c]) hostname)"
| "encode_loop buffer pos label [] = None"

text \<open>The buffer argument starts at the given offset of the packet.\<close>

definition dns_encode_name :: "bytes \<Rightarrow> nat \<Rightarrow> bytes \<Rightarrow> (bytes \<times> nat) option" where
  "dns_encode_name packet offset hostname = do {
     (buffer, pos) \<leftarrow> encode_loop (drop offset packet) 0 [] hostname;
     Some (take offset packet @ buffer, pos)
   }"

text \<open>Copying the characters of a label, as far as the output has room.\<close>

fun copy_label :: "bytes \<Rightarrow> int \<Rightarrow> nat \<Rightarrow> nat \<Rightarrow> nat \<Rightarrow> bytes \<Rightarrow> (nat \<times> nat \<times> bytes) option" where
  "copy_label packet out_max 0 offset pos out_name = Some (offset, pos, out_name)"
| "copy_label packet out_max (Suc n) offset pos out_name =
     (if int pos < out_max - 2 then do {
        c \<leftarrow> aget packet offset;
        out_name \<leftarrow> aset out_name pos c;
        copy_label packet out_max n (offset + 1) (pos + 1) out_name
      }
      else Some (offset, pos, out_name))"

text \<open>The pointer of a compressed name.\<close>

definition name_pointer :: "u8 \<Rightarrow> u8 \<Rightarrow> nat" where
  "name_pointer hi lo = unat (push_bit 8 (ucast (hi AND 0x3F)) OR ucast lo :: u32)"

text \<open>The first argument counts the iterations that are left of the 256.\<close>

fun decode_loop :: "nat \<Rightarrow> bytes \<Rightarrow> int \<Rightarrow> int \<Rightarrow> nat \<Rightarrow> nat \<Rightarrow> int \<Rightarrow> nat \<Rightarrow> bytes
    \<Rightarrow> (int \<times> bytes) option" where
  "decode_loop 0 packet max_len out_max orig offset jumped pos out_name = do {
     out_name \<leftarrow> aset out_name pos 0;
     Some (if jumped \<noteq> 0 then jumped else int offset - int orig, out_name)
   }"
| "decode_loop (Suc n) packet max_len out_max orig offset jumped pos out_name =
     (if int offset < max_len then do {
        len \<leftarrow> aget packet offset;
        if len = 0 then do {
          let pos = (if pos > 0 then pos - 1 else pos);
          out_name \<leftarrow> aset out_name pos 0;
          Some (if jumped \<noteq> 0 then jumped else int offset + 1 - int orig, out_name)
        }
        else if len AND 0xC0 = 0xC0 then do {
          let jumped = (if jumped = 0 then int offset + 2 - int orig else jumped);
          lo \<leftarrow> aget packet (offset + 1);
          decode_loop n packet max_len out_max orig (name_pointer len lo) jumped pos out_name
        }
        else do {
          (offset, pos, out_name) \<leftarrow> copy_label packet out_max (unat len) (offset + 1) pos out_name;
          out_name \<leftarrow> aset out_name pos 46;
          decode_loop n packet max_len out_max orig offset jumped (pos + 1) out_name
        }
      }
      else do {
        out_name \<leftarrow> aset out_name pos 0;
        Some (if jumped \<noteq> 0 then jumped else int offset - int orig, out_name)
      })"

definition dns_decode_name :: "bytes \<Rightarrow> nat \<Rightarrow> int \<Rightarrow> bytes \<Rightarrow> int \<Rightarrow> (int \<times> bytes) option" where
  "dns_decode_name packet offset max_len out_name out_max =
     decode_loop 256 packet max_len out_max offset offset 0 0 out_name"

fun skip_loop :: "nat \<Rightarrow> bytes \<Rightarrow> int \<Rightarrow> int \<Rightarrow> int \<Rightarrow> int option" where
  "skip_loop 0 data max_len offset jumped = Some (if jumped \<noteq> 0 then jumped else offset)"
| "skip_loop (Suc n) data max_len offset jumped =
     (if offset < max_len then do {
        len \<leftarrow> aget data (nat offset);
        if len = 0 then Some (if jumped \<noteq> 0 then jumped else offset + 1)
        else if len AND 0xC0 = 0xC0 then do {
          let jumped = (if jumped = 0 then offset + 2 else jumped);
          lo \<leftarrow> aget data (nat offset + 1);
          skip_loop n data max_len (int (name_pointer len lo)) jumped
        }
        else skip_loop n data max_len (offset + (uint len + 1)) jumped
      }
      else Some (if jumped \<noteq> 0 then jumped else offset))"

definition dns_skip_name :: "bytes \<Rightarrow> int \<Rightarrow> int \<Rightarrow> int option" where
  "dns_skip_name data offset max_len = skip_loop 256 data max_len offset 0"

subsection \<open>Queries\<close>

text \<open>The header, the encoded name, the record type and the class in a packet of 512 bytes.\<close>

definition dns_build_query :: "u16 \<Rightarrow> bytes \<Rightarrow> u8 \<Rightarrow> (bytes \<times> nat) option" where
  "dns_build_query ident hostname record_type = do {
     let header = mem16 (htons ident) @ mem16 (htons DNS_FLAG_RD) @ mem16 (htons 1) @ mem16 0 @ mem16 0 @ mem16 0;
     buffer \<leftarrow> store_at (replicate DNS_MAX_PACKET_SIZE 0) 0 header;
     (buffer, name_len) \<leftarrow> dns_encode_name buffer (nat DNS_HEADER_SIZE) hostname;
     let offset = nat DNS_HEADER_SIZE + name_len;
     buffer \<leftarrow> store_at buffer offset [0x00, record_type, 0x00, DNS_CLASS_IN];
     Some (buffer, offset + 4)
   }"

definition dns_send_query :: "bytes \<Rightarrow> dns_state \<times> ip_stack \<Rightarrow> (dns_state \<times> ip_stack) option" where
  "dns_send_query hostname = (\<lambda>(d, s).
     if \<not> g_dns_initialized d then Some (d, s)
     else do {
       (cached_ip, d) \<leftarrow> dns_cache_lookup hostname d;
       case cached_ip of
         Some ip \<Rightarrow> do {
           let q = (g_pending_query d)\<lparr>q_resolved_ip := ip, q_completed := True, q_success := True\<rparr>;
           name \<leftarrow> str_copy (q_hostname q) hostname 64;
           Some (d\<lparr>g_pending_query := q\<lparr>q_hostname := name\<rparr>\<rparr>, s)
         }
       | None \<Rightarrow> do {
           let ident = g_dns_transaction_id d + 1;
           (buffer, offset) \<leftarrow> dns_build_query ident hostname DNS_TYPE_A;
           let q = g_pending_query d;
           name \<leftarrow> str_copy (q_hostname q) hostname 64;
           let q = q\<lparr>q_id := ident, q_hostname := name, q_type := DNS_QUERY_A, q_completed := False,
                     q_success := False, q_has_cname := False, q_cname := (q_cname q)[0 := 0]\<rparr>;
           s \<leftarrow> udp_send_packet (g_dns_server_bytes d) 12345 DNS_PORT buffer (int offset) s;
           Some (d\<lparr>g_dns_transaction_id := ident, g_pending_query := q\<rparr>, s)
         }
     })"

definition octet_chars :: "u8 \<Rightarrow> bytes" where
  "octet_chars octet =
     (if octet \<ge> 100 then
        let rest = octet mod 100 in [48 + octet div 100, 48 + rest div 10, 48 + rest mod 10]
      else if octet \<ge> 10 then [48 + octet div 10, 48 + octet mod 10]
      else [48 + octet])"

text \<open>The name \<^verbatim>\<open>d.c.b.a.in-addr.arpa\<close> of the address \<^verbatim>\<open>a.b.c.d\<close>, in an array of 64 characters.\<close>

definition ptr_name :: "bytes \<Rightarrow> bytes option" where
  "ptr_name ip = do {
     a \<leftarrow> aget ip 0; b \<leftarrow> aget ip 1; c \<leftarrow> aget ip 2; d \<leftarrow> aget ip 3;
     store_at (replicate 64 0) 0
       (octet_chars d @ [46] @ octet_chars c @ [46] @ octet_chars b @ [46] @ octet_chars a @ [46] @
        [105, 110, 45, 97, 100, 100, 114, 46, 97, 114, 112, 97, 0])
   }"

definition dns_send_reverse_query :: "bytes \<Rightarrow> dns_state \<times> ip_stack \<Rightarrow> (dns_state \<times> ip_stack) option" where
  "dns_send_reverse_query ip = (\<lambda>(d, s).
     if \<not> g_dns_initialized d then Some (d, s)
     else do {
       (cached_name, d) \<leftarrow> dns_cache_reverse_lookup ip (replicate 64 0) 64 d;
       case cached_name of
         Some name \<Rightarrow> do {
           name \<leftarrow> str_copy (q_resolved_name (g_pending_query d)) name 64;
           Some (d\<lparr>g_pending_query := (g_pending_query d)\<lparr>q_resolved_name := name, q_completed := True,
                     q_success := True\<rparr>\<rparr>, s)
         }
       | None \<Rightarrow> do {
           pname \<leftarrow> ptr_name ip;
           let ident = g_dns_transaction_id d + 1;
           (buffer, offset) \<leftarrow> dns_build_query ident pname DNS_TYPE_PTR;
           let q = g_pending_query d;
           name \<leftarrow> str_copy (q_hostname q) pname 64;
           ip4 \<leftarrow> load_field ip 0 4;
           let q = q\<lparr>q_id := ident, q_hostname := name, q_resolved_ip := ip4, q_type := DNS_QUERY_PTR,
                     q_completed := False, q_success := False\<rparr>;
           s \<leftarrow> udp_send_packet (g_dns_server_bytes d) 12345 DNS_PORT buffer (int offset) s;
           Some (d\<lparr>g_dns_transaction_id := ident, g_pending_query := q\<rparr>, s)
         }
     })"

subsection \<open>Responses\<close>

definition be16 :: "bytes \<Rightarrow> nat \<Rightarrow> u16 option" where
  "be16 data i = do { hi \<leftarrow> aget data i; lo \<leftarrow> aget data (i + 1); Some (push_bit 8 (ucast hi) OR ucast lo) }"

definition be32 :: "bytes \<Rightarrow> nat \<Rightarrow> u32 option" where
  "be32 data i = do {
     b0 \<leftarrow> aget data i; b1 \<leftarrow> aget data (i + 1); b2 \<leftarrow> aget data (i + 2); b3 \<leftarrow> aget data (i + 3);
     Some (push_bit 24 (ucast b0) OR push_bit 16 (ucast b1) OR push_bit 8 (ucast b2) OR ucast b3)
   }"

text \<open>\<^verbatim>\<open>for (i = 0; i < qd_count && offset < len; i++)\<close>\<close>

fun skip_questions :: "nat \<Rightarrow> bytes \<Rightarrow> int \<Rightarrow> int \<Rightarrow> int option" where
  "skip_questions 0 data len offset = Some offset"
| "skip_questions (Suc n) data len offset =
     (if offset < len then do {
        offset \<leftarrow> dns_skip_name data offset len;
        skip_questions n data len (offset + 4)
      }
      else Some offset)"

text \<open>The loop over the answers; it tells whether the handler returned from inside it.\<close>

fun parse_answers :: "nat \<Rightarrow> bytes \<Rightarrow> int \<Rightarrow> int \<Rightarrow> dns_state \<Rightarrow> (bool \<times> dns_state) option" where
  "parse_answers 0 data len offset d = Some (False, d)"
| "parse_answers (Suc n) data len offset d =
     (if offset < len then do {
        offset \<leftarrow> dns_skip_name data offset len;
        if offset + 10 > len then Some (False, d)
        else do {
          type \<leftarrow> be16 data (nat offset);
          cls \<leftarrow> be16 data (nat offset + 2);
          ttl \<leftarrow> be32 data (nat offset + 4);
          rdlength \<leftarrow> be16 data (nat offset + 8);
          let offset = offset + 10;
          if offset + uint rdlength > len then Some (False, d)
          else if type = ucast DNS_TYPE_A \<and> cls = ucast DNS_CLASS_IN \<and> rdlength = 4 then do {
            ip \<leftarrow> load_field data (nat offset) 4;
            let d = d\<lparr>g_pending_query := (g_pending_query d)\<lparr>q_resolved_ip := ip, q_completed := True,
                       q_success := True\<rparr>\<rparr>;
            d \<leftarrow> dns_cache_add (q_hostname (g_pending_query d)) ip ttl d;
            Some (True, d)
          }
          else do {
            d \<leftarrow> (if type = ucast DNS_TYPE_CNAME \<and> cls = ucast DNS_CLASS_IN then do {
                   (_, cname) \<leftarrow> dns_decode_name data (nat offset) len (replicate 64 0) 64;
                   cname \<leftarrow> str_copy (q_cname (g_pending_query d)) cname 64;
                   Some (d\<lparr>g_pending_query := (g_pending_query d)\<lparr>q_cname := cname, q_has_cname := True\<rparr>\<rparr>)
                 } else Some d);
            if type = ucast DNS_TYPE_PTR \<and> cls = ucast DNS_CLASS_IN then do {
              (_, pname) \<leftarrow> dns_decode_name data (nat offset) len (replicate 64 0) 64;
              name \<leftarrow> str_copy (q_resolved_name (g_pending_query d)) pname 64;
              let d = d\<lparr>g_pending_query := (g_pending_query d)\<lparr>q_resolved_name := name, q_completed := True,
                         q_success := True\<rparr>\<rparr>;
              d \<leftarrow> dns_cache_add_ptr (q_resolved_ip (g_pending_query d)) pname ttl d;
              Some (True, d)
            }
            else parse_answers n data len (offset + uint rdlength) d
          }
        }
      }
      else Some (False, d))"

definition dns_handle_packet :: "bytes \<Rightarrow> int \<Rightarrow> dns_state \<Rightarrow> dns_state option" where
  "dns_handle_packet data len d =
     (if len < DNS_HEADER_SIZE then Some d
      else do {
        ident \<leftarrow> load16 data 0;
        flags \<leftarrow> load16 data 2;
        qd_count \<leftarrow> load16 data 4;
        an_count \<leftarrow> load16 data 6;
        let ident = ntohs ident;
        let flags = ntohs flags;
        let qd_count = ntohs qd_count;
        let an_count = ntohs an_count;
        let failed = d\<lparr>g_pending_query := (g_pending_query d)\<lparr>q_completed := True, q_success := False\<rparr>\<rparr>;
        if flags AND DNS_FLAG_QR = 0 then Some d
        else if ident \<noteq> q_id (g_pending_query d) then Some d
        else if flags AND DNS_FLAG_RCODE \<noteq> 0 then Some failed
        else if an_count = 0 then Some failed
        else do {
          offset \<leftarrow> skip_questions (unat qd_count) data len DNS_HEADER_SIZE;
          (returned, d) \<leftarrow> parse_answers (unat an_count) data len offset d;
          if returned then Some d
          else if \<not> q_success (g_pending_query d)
          then Some (d\<lparr>g_pending_query := (g_pending_query d)\<lparr>q_completed := True, q_success := False\<rparr>\<rparr>)
          else Some d
        }
      })"

definition dns_is_pending :: "dns_state \<Rightarrow> bool" where
  "dns_is_pending d \<longleftrightarrow> \<not> q_completed (g_pending_query d) \<and> q_id (g_pending_query d) \<noteq> 0"

definition dns_get_result :: "dns_state \<Rightarrow> bytes option" where
  "dns_get_result d =
     (if q_completed (g_pending_query d) \<and> q_success (g_pending_query d) then Some (q_resolved_ip (g_pending_query d))
      else None)"

text \<open>The string is copied into the array of the caller; \<open>None\<close> inside is the result false.\<close>

definition dns_get_reverse_result :: "bytes \<Rightarrow> int \<Rightarrow> dns_state \<Rightarrow> bytes option option" where
  "dns_get_reverse_result out_name max_len d =
     (if q_completed (g_pending_query d) \<and> q_success (g_pending_query d) \<and> q_type (g_pending_query d) = DNS_QUERY_PTR
      then map_option Some (str_copy out_name (q_resolved_name (g_pending_query d)) max_len)
      else Some None)"

definition dns_get_cname :: "bytes \<Rightarrow> int \<Rightarrow> dns_state \<Rightarrow> bytes option option" where
  "dns_get_cname out_cname max_len d =
     (if q_has_cname (g_pending_query d)
      then map_option Some (str_copy out_cname (q_cname (g_pending_query d)) max_len)
      else Some None)"

section \<open>Names on the wire\<close>

text \<open>The labels of a name, their encoding, and the name they spell.\<close>

fun labels_of :: "bytes \<Rightarrow> bytes \<Rightarrow> bytes list" where
  "labels_of label [] = [label]"
| "labels_of label (c # cs) = (if c = 46 then label # labels_of [] cs else labels_of (label @ [c]) cs)"

definition encode_labels :: "bytes list \<Rightarrow> bytes" where
  "encode_labels ls = concat (map (\<lambda>l. of_nat (length l) # l) ls) @ [0]"

lemma encode_labels_Nil [simp]: "encode_labels [] = [0]"
  by (simp add: encode_labels_def)

lemma encode_labels_Cons [simp]: "encode_labels (l # ls) = of_nat (length l) # l @ encode_labels ls"
  by (simp add: encode_labels_def)


lemma length_encode_labels_of: "length (encode_labels (labels_of label cs)) = length label + length cs + 2"
  by (induction label cs rule: labels_of.induct) auto

lemma store_at_append:
  "i = length xs \<Longrightarrow> length f = length ys \<Longrightarrow> store_at (xs @ ys @ zs) i f = Some (xs @ f @ zs)"
  by (simp add: store_at_def)

lemma store_atI:
  "i = length xs \<Longrightarrow> length f \<le> length ys \<Longrightarrow> store_at (xs @ ys) i f = Some (xs @ f @ drop (length f) ys)"
  by (simp add: store_at_def)

lemma encode_loop_labels:
  assumes "cstring hostname cs" and "length (encode_labels (labels_of label cs)) \<le> length ys"
  shows "encode_loop (xs @ ys) (length xs) label hostname =
    Some (xs @ encode_labels (labels_of label cs) @ drop (length (encode_labels (labels_of label cs))) ys,
          length xs + length (encode_labels (labels_of label cs)))"
  using assms
proof (induction label cs arbitrary: hostname xs ys rule: labels_of.induct)
  case (1 label)
  then obtain r where h: "hostname = 0 # r" by (cases hostname) auto
  let ?l = "of_nat (length label) # label"
  have "store_at (xs @ ys) (length xs) ?l = Some (xs @ ?l @ drop (length ?l) ys)"
    using 1(2) by (intro store_atI) simp_all
  moreover have "store_at ((xs @ ?l) @ drop (length ?l) ys) (length xs + 1 + length label) [0] =
      Some ((xs @ ?l) @ [0] @ drop 1 (drop (length ?l) ys))"
    using 1(2) store_atI [of "length xs + 1 + length label" "xs @ ?l" "[0]" "drop (length ?l) ys"] by simp
  ultimately show ?case using h by simp
next
  case (2 label c cs)
  then obtain r where h: "hostname = c # r" "c \<noteq> 0" "cstring r cs" by (cases hostname) auto
  show ?case
  proof (cases "c = 46")
    case True
    let ?l = "of_nat (length label) # label"
    have "store_at (xs @ ys) (length xs) ?l = Some (xs @ ?l @ drop (length ?l) ys)"
      using 2(4) True by (intro store_atI) simp_all
    moreover have "encode_loop ((xs @ ?l) @ drop (length ?l) ys) (length (xs @ ?l)) [] r =
        Some ((xs @ ?l) @ encode_labels (labels_of [] cs) @
              drop (length (encode_labels (labels_of [] cs))) (drop (length ?l) ys),
              length (xs @ ?l) + length (encode_labels (labels_of [] cs)))"
      using 2(4) True by (intro 2(1) [OF True h(3)]) simp
    ultimately show ?thesis using h True by (simp add: add.commute add.left_commute)
  next
    case False
    then show ?thesis using h 2(4) 2(2) [OF False h(3), of ys xs] by simp
  qed
qed

text \<open>A label on the wire has 1 to 63 characters.\<close>

abbreviation wire_label :: "bytes \<Rightarrow> bool" where
  "wire_label l \<equiv> 0 < length l \<and> length l \<le> 63"

lemma label_length_byte:
  assumes "wire_label l"
  shows "(of_nat (length l) :: u8) \<noteq> 0" and "(of_nat (length l) :: u8) AND 0xC0 \<noteq> 0xC0"
    and "unat (of_nat (length l) :: u8) = length l"
proof -
  show u: "unat (of_nat (length l) :: u8) = length l" using assms by (simp add: unat_of_nat)
  then show "(of_nat (length l) :: u8) \<noteq> 0" using assms by (metis unat_0 less_irrefl)
  have "(of_nat (length l) :: u8) AND 0xC0 \<le> of_nat (length l)" by (rule word_and_le2)
  then have "unat ((of_nat (length l) :: u8) AND 0xC0) \<le> 63" using assms u by (simp add: word_le_nat_alt)
  then show "(of_nat (length l) :: u8) AND 0xC0 \<noteq> 0xC0" by auto
qed



text \<open>Skipping a name, plain or behind a pointer.\<close>

lemma skip_loop_labels:
  assumes "\<forall>l \<in> set ls. wire_label l" and "length ls < n"
    and "length (pre @ encode_labels ls) \<le> nat max_len"
  shows "skip_loop n (pre @ encode_labels ls @ post) max_len (int (length pre)) jumped =
    Some (if jumped \<noteq> 0 then jumped else int (length (pre @ encode_labels ls)))"
  using assms
proof (induction ls arbitrary: n pre)
  case Nil
  then obtain k where "n = Suc k" by (cases n) auto
  moreover have "int (length pre) < max_len" using Nil(3) by simp
  ultimately show ?case by simp
next
  case (Cons l ls)
  then obtain k where n: "n = Suc k" "length ls < k" by (cases n) auto
  have b: "(of_nat (length l) :: u8) \<noteq> 0" "(of_nat (length l) :: u8) AND 0xC0 \<noteq> 0xC0"
    "uint (of_nat (length l) :: u8) = int (length l)"
    using label_length_byte [of l] Cons.prems(1) by (simp, simp, metis list.set_intros(1) of_nat_unat)
  have lt: "int (length pre) < max_len" using Cons.prems(3) by simp
  have "skip_loop n (pre @ encode_labels (l # ls) @ post) max_len (int (length pre)) jumped =
      skip_loop k ((pre @ of_nat (length l) # l) @ encode_labels ls @ post) max_len
        (int (length (pre @ of_nat (length l) # l))) jumped"
    using b n(1) lt by (simp add: algebra_simps)
  also have "\<dots> = Some (if jumped \<noteq> 0 then jumped else int (length ((pre @ of_nat (length l) # l) @ encode_labels ls)))"
    by (rule Cons.IH) (use Cons.prems n(2) in simp_all)
  finally show ?case by simp
qed

section \<open>The resolver\<close>

text \<open>Every array has its size, and the names in use are terminated.\<close>

definition entry_ok :: "dns_cache_entry \<Rightarrow> bool" where
  "entry_ok e \<longleftrightarrow> length (de_hostname e) = 64 \<and>
     (de_valid e \<longrightarrow> (\<exists>cs. cstring (de_hostname e) cs) \<and> length (de_ip e) = 4)"

definition dns_ok :: "dns_state \<Rightarrow> bool" where
  "dns_ok d \<longleftrightarrow> length (g_dns_cache d) = DNS_CACHE_SIZE \<and> (\<forall>e \<in> set (g_dns_cache d). entry_ok e) \<and>
     length (g_dns_server_bytes d) = 4 \<and> length (q_hostname (g_pending_query d)) = 64 \<and>
     (\<exists>cs. cstring (q_hostname (g_pending_query d)) cs) \<and>
     length (q_cname (g_pending_query d)) = 64 \<and> length (q_resolved_name (g_pending_query d)) = 64"

lemma name_match_cstring: "cstring a x \<Longrightarrow> cstring b y \<Longrightarrow> name_match a b = Some (x = y)"
proof (induction a b arbitrary: x y rule: name_match.induct)
  case (1 c a d b)
  show ?case
  proof (cases x)
    case Nil
    then show ?thesis using 1(2,3) by (cases y) auto
  next
    case (Cons c' x')
    then show ?thesis using 1 by (cases y) auto
  qed
qed auto

text \<open>The first valid host entry with the given name.\<close>

abbreviation host_entry :: "bytes \<Rightarrow> dns_cache_entry \<Rightarrow> bool" where
  "host_entry cs e \<equiv> de_valid e \<and> de_record_type e = DNS_TYPE_A \<and> cstring (de_hostname e) cs"

lemma cstring_unique: "cstring buf x \<Longrightarrow> cstring buf y \<Longrightarrow> x = y"
  using name_match_cstring [of buf x buf y] name_match_cstring [of buf x buf x] by simp

lemma find_host_eq:
  "\<forall>e \<in> set es. entry_ok e \<Longrightarrow> cstring h cs \<Longrightarrow> find_host h es = Some (find (host_entry cs) es)"
proof (induction es)
  case (Cons e es)
  show ?case
  proof (cases "de_valid e \<and> de_record_type e = DNS_TYPE_A")
    case True
    then obtain x where x: "cstring (de_hostname e) x" using Cons.prems(1) by (auto simp: entry_ok_def)
    then have "str_equal (de_hostname e) h = Some (x = cs)"
      using Cons.prems(2) by (simp add: str_equal_def name_match_cstring)
    moreover have "cstring (de_hostname e) cs \<longleftrightarrow> x = cs" using x cstring_unique by blast
    ultimately show ?thesis using True Cons by auto
  qed (use Cons in auto)
qed simp

lemma dns_cache_lookup_eq:
  assumes "dns_ok d" and "cstring h cs"
  shows "dns_cache_lookup h d = Some (case find (host_entry cs) (g_dns_cache d) of
      Some e \<Rightarrow> (Some (de_ip e), d\<lparr>g_cache_hits := g_cache_hits d + 1\<rparr>)
    | None \<Rightarrow> (None, d\<lparr>g_cache_misses := g_cache_misses d + 1\<rparr>))"
  using find_host_eq [of "g_dns_cache d" h cs] assms by (simp add: dns_cache_lookup_def dns_ok_def)

lemma cstring_take: "cstring buf cs \<Longrightarrow> length cs < length buf"
  by (auto simp: cstring_def)

lemma dns_cache_add_effect:
  assumes "dns_ok d" and "cstring h cs" and "length cs \<le> 63" and "length ip = 4"
  obtains e where "dns_cache_add h ip ttl d = Some (d\<lparr>g_dns_cache := (g_dns_cache d)[dns_cache_find_slot d := e]\<rparr>)"
    and "host_entry cs e" and "de_ip e = ip" and "entry_ok e" and "dns_cache_find_slot d < DNS_CACHE_SIZE"
proof -
  let ?i = "dns_cache_find_slot d" and ?e = "g_dns_cache d ! dns_cache_find_slot d"
  have len: "length (g_dns_cache d) = 16" using assms(1) by (simp add: dns_ok_def c_defs)
  have i: "?i < 16"
    using len by (auto simp: dns_cache_find_slot_def split: option.splits dest: first_index_SomeD)
  then have e: "length (de_hostname ?e) = 64" using assms(1) len by (auto simp: dns_ok_def entry_ok_def)
  obtain name where n: "copy_str (de_hostname ?e) h 0 (int 64) = Some name" "length name = 64"
    "cstring name (take (64 - 1) cs)"
    using copy_str_cstring [OF assms(2), of 64 "de_hostname ?e"] e by auto
  have name: "cstring name cs" using n(3) assms(3) by simp
  show ?thesis
    by (rule that [of "?e\<lparr>de_hostname := name, de_ip := ip,
          de_ttl := (if ttl > 0 then ttl else DNS_CACHE_DEFAULT_TTL), de_timestamp := 0,
          de_record_type := DNS_TYPE_A, de_valid := True\<rparr>"])
       (use n(1,2) name i len assms(4) in \<open>auto simp: dns_cache_add_def str_copy_def load_field_def entry_ok_def c_defs Let_def\<close>)
qed

text \<open>If no entry had the name, the new one is found.\<close>

lemma find_update:
  assumes "find P xs = None" and "i < length xs" and "P e"
  shows "find P (xs[i := e]) = Some e"
  using assms
proof (induction xs arbitrary: i)
  case (Cons x xs)
  then show ?case by (cases i) (auto split: if_splits)
qed simp

lemma aget_append [simp]: "aget (xs @ ys) (length xs + k) = aget ys k"
  by (simp add: aget_def nth_append)

lemma be16_append: "be16 (xs @ ys) (length xs + k) = be16 ys k"
  using aget_append [of xs ys "k + 1"] by (simp add: be16_def add.assoc del: add_Suc_right)

lemma be32_append: "be32 (xs @ ys) (length xs + k) = be32 ys k"
  using aget_append [of xs ys "k + 1"] aget_append [of xs ys "k + 2"] aget_append [of xs ys "k + 3"]
  by (simp add: be32_def add.assoc)

lemma load_field_append_at: "load_field (xs @ ys) (length xs + k) n = load_field ys k n"
  by (simp add: load_field_def)

text \<open>A response with one question and, as its answer, an address record that points back to it.\<close>

definition dns_response :: "u16 \<Rightarrow> u16 \<Rightarrow> bytes list \<Rightarrow> bytes \<Rightarrow> bytes \<Rightarrow> bytes \<Rightarrow> bytes" where
  "dns_response ident flags ls question ttl ip =
     mem16 (htons ident) @ mem16 (htons flags) @ mem16 (htons 1) @ mem16 (htons 1) @ [0, 0, 0, 0] @
     encode_labels ls @ question @ [0xC0, 0x0C, 0, 1, 0, 1] @ ttl @ [0, 4] @ ip"

lemma parse_address_answer:
  assumes "dns_skip_name data (int m) len = Some (int m + 2)" and "len = int m + 16"
    and "be16 data (m + 2) = Some 1" and "be16 data (m + 4) = Some 1" and "be32 data (m + 6) = Some t"
    and "be16 data (m + 10) = Some 4" and "load_field data (m + 12) 4 = Some ip"
    and "dns_cache_add (q_hostname (g_pending_query d)) ip t
      (d\<lparr>g_pending_query := (g_pending_query d)\<lparr>q_resolved_ip := ip, q_completed := True, q_success := True\<rparr>\<rparr>) = Some d'"
  shows "parse_answers (Suc n) data len (int m) d = Some (True, d')"
proof -
  have nats: "nat (int m + 2) = m + 2" "m + 2 + 2 = m + 4" "m + 2 + 4 = m + 6" "m + 2 + 8 = m + 10"
    "nat (int m + 2 + 10) = m + 12" by simp_all
  show ?thesis
    unfolding parse_answers.simps assms(1) bind.bind_lunit nats assms(3-7)
    using assms(2,7,8) by (simp add: c_defs nat_add_distrib add.commute [of 12])
qed

lemma dns_handle_response:
  assumes "dns_ok d" and "cstring (q_hostname (g_pending_query d)) cs"
    and "\<forall>l \<in> set ls. wire_label l" and "length ls < 255" and "length question = 4" and "length ttl = 4"
    and "length ip = 4" and "flags AND DNS_FLAG_QR \<noteq> 0" and "flags AND DNS_FLAG_RCODE = 0"
    and "data = dns_response (q_id (g_pending_query d)) flags ls question ttl ip"
  obtains e where "dns_handle_packet data (int (length data)) d =
      Some (d\<lparr>g_pending_query := (g_pending_query d)\<lparr>q_resolved_ip := ip, q_completed := True, q_success := True\<rparr>,
              g_dns_cache := (g_dns_cache d)[dns_cache_find_slot d := e]\<rparr>)"
    and "host_entry cs e" and "de_ip e = ip" and "entry_ok e" and "dns_cache_find_slot d < DNS_CACHE_SIZE"
proof -
  let ?q = "g_pending_query d"
  let ?H = "mem16 (htons (q_id ?q)) @ mem16 (htons flags) @ mem16 (htons 1) @ mem16 (htons 1) @ [0, 0, 0, 0]"
  let ?A = "[0xC0, 0x0C, 0, 1, 0, 1] @ ttl @ [0, 4] @ ip"
  let ?P = "?H @ encode_labels ls @ question"
  have H: "length ?H = 12" by simp
  have data: "data = ?P @ ?A" "data = ?H @ encode_labels ls @ question @ ?A" using assms(10) by (simp_all add: dns_response_def)
  have len: "int (length data) = int (length ?P) + 16" using assms(6,7) by (simp add: data(1))
  obtain t0 t1 t2 t3 where ttl: "ttl = [t0, t1, t2, t3]" using assms(6) by (auto simp: length_Suc_conv numeral_eq_Suc)
  have h: "load16 data 0 = Some (htons (q_id ?q))" "load16 data 2 = Some (htons flags)"
    "load16 data 4 = Some (htons 1)" "load16 data 6 = Some (htons 1)"
    using load16_mem16 [of 0 "[]"] load16_mem16 [of 2 "mem16 (htons (q_id ?q))"]
      load16_mem16 [of 4 "mem16 (htons (q_id ?q)) @ mem16 (htons flags)"]
      load16_mem16 [of 6 "mem16 (htons (q_id ?q)) @ mem16 (htons flags) @ mem16 (htons 1)"]
    by (simp_all add: data(2))
  have skip: "skip_loop n data (int (length data)) 12 j =
      Some (if j \<noteq> 0 then j else int (length (?H @ encode_labels ls)))" if "length ls < n" for n j
    using skip_loop_labels [OF assms(3) that, of ?H "int (length data)" "question @ ?A" j] H by (simp add: data(2))
  have q: "skip_questions 1 data (int (length data)) 12 = Some (int (length ?P))"
    using skip [of 256 0] assms(4,5) len by (simp add: dns_skip_name_def)
  have ptr: "name_pointer 0xC0 0x0C = 12" by (simp add: name_pointer_def)
  have a: "aget data (length ?P + k) = aget ?A k" for k unfolding data(1) by (rule aget_append)
  have 256: "(256 :: nat) = Suc 255" by simp
  have sk: "dns_skip_name data (int (length ?P)) (int (length data)) = Some (int (length ?P) + 2)"
    unfolding dns_skip_name_def 256 skip_loop.simps
    using a [of 0] a [of 1] skip [of 255 "int (length ?P) + 2"] assms(4) len ptr
    by (simp del: length_append)
  let ?d = "d\<lparr>g_pending_query := ?q\<lparr>q_resolved_ip := ip, q_completed := True, q_success := True\<rparr>\<rparr>"
  have rec: "be16 data (length ?P + 2) = Some 1" "be16 data (length ?P + 4) = Some 1"
    "be32 data (length ?P + 6) = Some (the (be32 ttl 0))" "be16 data (length ?P + 10) = Some 4"
    "load_field data (length ?P + 12) 4 = Some ip"
    unfolding data(1) be16_append be32_append load_field_append_at
    using assms(7) by (simp_all add: ttl be16_def be32_def load_field_def)
  have ok: "dns_ok ?d" "length cs \<le> 63"
    using assms(1,2) cstring_take [OF assms(2)] by (auto simp: dns_ok_def)
  obtain e where e: "dns_cache_add (q_hostname ?q) ip (the (be32 ttl 0)) ?d =
      Some (?d\<lparr>g_dns_cache := (g_dns_cache ?d)[dns_cache_find_slot ?d := e]\<rparr>)"
    "host_entry cs e" "de_ip e = ip" "entry_ok e" "dns_cache_find_slot ?d < DNS_CACHE_SIZE"
    by (rule dns_cache_add_effect [OF ok(1) assms(2) ok(2) assms(7)])
  have "parse_answers 1 data (int (length data)) (int (length ?P)) d =
      Some (True, ?d\<lparr>g_dns_cache := (g_dns_cache ?d)[dns_cache_find_slot ?d := e]\<rparr>)"
    unfolding One_nat_def by (rule parse_address_answer [OF sk len rec]) (use e(1) in simp)
  then show ?thesis
    using that [OF _ e(2-4)] e(5) h q assms(8,9) len
    by (simp add: dns_handle_packet_def c_defs Let_def dns_cache_find_slot_def del: length_append)
qed



lemma dns_encode_name_eq:
  assumes "cstring hostname cs" and "offset + length cs + 2 \<le> length packet"
  shows "dns_encode_name packet offset hostname =
    Some (take offset packet @ encode_labels (labels_of [] cs) @ drop (offset + length cs + 2) packet, length cs + 2)"
  using encode_loop_labels [OF assms(1), of "[]" "drop offset packet" "[]"] assms(2)
  by (simp add: dns_encode_name_def length_encode_labels_of add.commute add.left_commute)

lemma dns_build_query_defined:
  assumes "cstring hostname cs" and "length cs \<le> 494"
  obtains buffer where "dns_build_query ident hostname record_type = Some (buffer, length cs + 18)"
    and "length buffer = 512"
proof -
  let ?h = "mem16 (htons ident) @ mem16 (htons DNS_FLAG_RD) @ mem16 (htons 1) @ mem16 0 @ mem16 0 @ mem16 0"
  let ?b = "?h @ replicate 500 0"
  let ?e = "encode_labels (labels_of [] cs)"
  let ?b1 = "?h @ ?e @ drop (12 + length cs + 2) ?b"
  have s: "store_at (replicate 512 0) 0 ?h = Some ?b" by (simp add: store_at_def)
  have e: "dns_encode_name ?b 12 hostname = Some (?b1, length cs + 2)"
    using dns_encode_name_eq [OF assms(1), of 12 ?b] assms(2) by simp
  have len: "length ?b1 = 512" using assms(2) by (simp add: length_encode_labels_of)
  then obtain b2 where b2: "store_at ?b1 (12 + (length cs + 2)) [0, record_type, 0, 1] = Some b2" "length b2 = 512"
    using assms(2) by (simp add: store_at_def)
  show ?thesis
    using s e b2 by (intro that [of b2]) (simp_all add: dns_build_query_def c_defs Let_def)
qed

text \<open>A query on a cache miss goes out and is recorded as the pending one.\<close>

lemma dns_send_query_miss:
  assumes "dns_ok d" and "g_dns_initialized d" and "ip_stack_ok s" and "cstring h cs" and "length cs \<le> 63"
    and "find (host_entry cs) (g_dns_cache d) = None"
  obtains d1 s1 where "dns_send_query h (d, s) = Some (d1, s1)" and "dns_ok d1" and "ip_stack_ok s1"
    and "g_dns_initialized d1" and "g_dns_cache d1 = g_dns_cache d"
    and "q_id (g_pending_query d1) = g_dns_transaction_id d + 1" and "cstring (q_hostname (g_pending_query d1)) cs"
    and "\<not> q_completed (g_pending_query d1)"
proof -
  let ?q = "g_pending_query d" and ?id = "g_dns_transaction_id d + 1"
  have sz: "length (q_hostname ?q) = 64" "length (g_dns_server_bytes d) = 4" "length (q_cname ?q) = 64"
    using assms(1) by (simp_all add: dns_ok_def)
  have look: "dns_cache_lookup h d = Some (None, d\<lparr>g_cache_misses := g_cache_misses d + 1\<rparr>)"
    using dns_cache_lookup_eq [OF assms(1,4)] assms(6) by simp
  have "length cs \<le> 494" using assms(5) by simp
  then obtain b where b: "dns_build_query ?id h 1 = Some (b, length cs + 18)" "length b = 512"
    by (rule dns_build_query_defined [OF assms(4)])
  obtain name where n: "copy_str (q_hostname ?q) h 0 64 = Some name" "length name = 64" "cstring name cs"
    using copy_str_cstring [OF assms(4), of 64 "q_hostname ?q"] sz(1) assms(5) by auto
  have l: "0 \<le> int (length cs + 18)" "nat (int (length cs + 18)) \<le> length b" "int (length cs + 18) \<le> 1476"
    using b(2) assms(5) by simp_all
  obtain s1 where s1: "udp_send_packet (g_dns_server_bytes d) 12345 53 b (int (length cs + 18)) s = Some s1"
      "ip_stack_ok s1"
    by (rule udp_send_packet_defined [OF assms(3) sz(2) l])
  let ?q1 = "?q\<lparr>q_id := ?id, q_hostname := name, q_type := DNS_QUERY_A, q_completed := False,
    q_success := False, q_has_cname := False, q_cname := (q_cname ?q)[0 := 0]\<rparr>"
  let ?d1 = "d\<lparr>g_cache_misses := g_cache_misses d + 1, g_dns_transaction_id := ?id, g_pending_query := ?q1\<rparr>"
  have "dns_send_query h (d, s) = Some (?d1, s1)"
    using look b n s1(1) assms(2) by (simp add: dns_send_query_def c_defs str_copy_def Let_def)
  moreover have "dns_ok ?d1" using assms(1) n by (auto simp: dns_ok_def)
  ultimately show ?thesis using n s1(2) assms(2) by (intro that [of ?d1 s1]) simp_all
qed

lemma dns_send_query_hit:
  assumes "dns_ok d" and "g_dns_initialized d" and "cstring h cs"
    and "find (host_entry cs) (g_dns_cache d) = Some e"
  obtains d1 where "dns_send_query h (d, s) = Some (d1, s)" and "dns_get_result d1 = Some (de_ip e)"
proof -
  let ?q = "g_pending_query d"
  have sz: "length (q_hostname ?q) = 64" using assms(1) by (simp add: dns_ok_def)
  obtain name where n: "copy_str (q_hostname ?q) h 0 64 = Some name"
    using copy_str_cstring [OF assms(3), of 64 "q_hostname ?q"] sz by auto
  have "dns_cache_lookup h d = Some (Some (de_ip e), d\<lparr>g_cache_hits := g_cache_hits d + 1\<rparr>)"
    using dns_cache_lookup_eq [OF assms(1,3)] assms(4) by simp
  then show ?thesis
    using n assms(2)
    by (intro that [of "d\<lparr>g_cache_hits := g_cache_hits d + 1, g_pending_query := ?q\<lparr>q_resolved_ip := de_ip e,
          q_completed := True, q_success := True, q_hostname := name\<rparr>\<rparr>"])
       (simp_all add: dns_send_query_def str_copy_def Let_def dns_get_result_def)
qed

section \<open>Properties\<close>



text \<open>
  C27: a query for a name that is not cached, followed by the response of the server, gives the
  address of the response; asking again is then answered from the cache, without any packet.
\<close>

theorem dns_query_resolves:
  assumes "dns_ok d" and "g_dns_initialized d" and "ip_stack_ok s" and "cstring h cs" and "length cs \<le> 63"
    and "find (host_entry cs) (g_dns_cache d) = None"
    and "\<forall>l \<in> set ls. wire_label l" and "length ls < 255" and "length question = 4" and "length ttl = 4"
    and "length ip = 4" and "flags AND DNS_FLAG_QR \<noteq> 0" and "flags AND DNS_FLAG_RCODE = 0"
    and "data = dns_response (g_dns_transaction_id d + 1) flags ls question ttl ip"
  shows "\<exists>d1 s1 d2 d3. dns_send_query h (d, s) = Some (d1, s1) \<and> dns_get_result d1 = None \<and>
    dns_handle_packet data (int (length data)) d1 = Some d2 \<and> dns_get_result d2 = Some ip \<and> \<not> dns_is_pending d2 \<and>
    dns_send_query h (d2, s1) = Some (d3, s1) \<and> dns_get_result d3 = Some ip"
proof -
  obtain d1 s1 where 1: "dns_send_query h (d, s) = Some (d1, s1)" "dns_ok d1" "g_dns_initialized d1"
    "g_dns_cache d1 = g_dns_cache d" "q_id (g_pending_query d1) = g_dns_transaction_id d + 1"
    "cstring (q_hostname (g_pending_query d1)) cs" "\<not> q_completed (g_pending_query d1)"
    by (rule dns_send_query_miss [OF assms(1-6)])
  have data: "data = dns_response (q_id (g_pending_query d1)) flags ls question ttl ip" using assms(14) 1(5) by simp
  let ?d2 = "\<lambda>e. d1\<lparr>g_pending_query := (g_pending_query d1)\<lparr>q_resolved_ip := ip, q_completed := True, q_success := True\<rparr>,
    g_dns_cache := (g_dns_cache d1)[dns_cache_find_slot d1 := e]\<rparr>"
  obtain e where 2: "dns_handle_packet data (int (length data)) d1 = Some (?d2 e)" "host_entry cs e" "de_ip e = ip"
    "entry_ok e" "dns_cache_find_slot d1 < DNS_CACHE_SIZE"
    by (rule dns_handle_response [OF 1(2,6) assms(7-13) data])
  have ok2: "dns_ok (?d2 e)"
    using 1(2) 2(4) set_update_subset_insert [of "g_dns_cache d1" "dns_cache_find_slot d1" e] by (auto simp: dns_ok_def)
  have init2: "g_dns_initialized (?d2 e)" using 1(3) by simp
  have "find (host_entry cs) (g_dns_cache (?d2 e)) = Some e"
    using find_update [of "host_entry cs" "g_dns_cache d1"] assms(6) 1(2,4) 2(2,5) by (simp add: dns_ok_def)
  then obtain d3 where 3: "dns_send_query h (?d2 e, s1) = Some (d3, s1)" "dns_get_result d3 = Some (de_ip e)"
    by (rule dns_send_query_hit [OF ok2 init2 assms(4)])
  show ?thesis
    using 1(1,7) 2(1,3) 3
    by (intro exI [of _ d1] exI [of _ s1] exI [of _ "?d2 e"] exI [of _ d3]) (simp add: dns_get_result_def dns_is_pending_def)
qed

definition dns_example :: dns_state where
  "dns_example = \<lparr>g_dns_server = 0x08080808, g_dns_server_bytes = [8, 8, 8, 8], g_dns_initialized = True,
     g_dns_transaction_id = 0x1234,
     g_pending_query = \<lparr>q_id = 0, q_hostname = replicate 64 0, q_resolved_ip = [0, 0, 0, 0],
       q_resolved_name = replicate 64 0, q_cname = replicate 64 0, q_type = DNS_QUERY_A, q_completed = False,
       q_success = False, q_has_cname = False\<rparr>,
     g_dns_cache = replicate 16 \<lparr>de_hostname = replicate 64 0, de_ip = [0, 0, 0, 0], de_cname = replicate 64 0,
       de_ttl = 0, de_timestamp = 0, de_record_type = 0, de_valid = False\<rparr>,
     g_cache_hits = 0, g_cache_misses = 0\<rparr>"

lemma dns_example_ok: "dns_ok dns_example"
proof -
  have "replicate 64 (0 :: u8) = 0 # replicate 63 0" by code_simp
  then have "cstring (replicate 64 0) []" by simp
  then show ?thesis by (auto simp: dns_ok_def dns_example_def entry_ok_def c_defs)
qed

theorem dns_query_resolves_witness:
  "\<exists>d1 s1 d2 d3. dns_send_query [97, 46, 98, 0] (dns_example, ip_stack_example) = Some (d1, s1) \<and>
    dns_handle_packet (dns_response 0x1235 0x8180 [[97], [98]] [0, 1, 0, 1] [0, 0, 0, 60] [93, 184, 216, 34]) 37 d1 = Some d2 \<and>
    dns_get_result d2 = Some [93, 184, 216, 34] \<and>
    dns_send_query [97, 46, 98, 0] (d2, s1) = Some (d3, s1) \<and> dns_get_result d3 = Some [93, 184, 216, 34]"
proof -
  have st: "ip_stack_ok ip_stack_example"
    using arp_empty_ok
    by (simp add: ip_stack_ok_def ip_stack_example_def host_example_def core_ok_def routes_sized_def c_defs)
  have d: "g_dns_initialized dns_example" "cstring [97, 46, 98, 0] [97, 46, 98]" "length [97, 46, 98 :: u8] \<le> 63"
    "find (host_entry [97, 46, 98]) (g_dns_cache dns_example) = None"
    "\<forall>l \<in> set [[97], [98 :: u8]]. wire_label l" "length [[97], [98 :: u8]] < 255"
    "g_dns_transaction_id dns_example + 1 = 0x1235"
    by (simp_all add: dns_example_def find_None_iff)
  have f: "(0x8180 :: u16) AND DNS_FLAG_QR \<noteq> 0" "(0x8180 :: u16) AND DNS_FLAG_RCODE = 0" by (simp_all add: c_defs)
  let ?data = "dns_response 0x1235 0x8180 [[97], [98]] [0, 1, 0, 1] [0, 0, 0, 60] [93, 184, 216, 34]"
  have len: "int (length ?data) = 37" by (simp add: dns_response_def)
  show ?thesis
    using dns_query_resolves [OF dns_example_ok d(1) st d(2-6) _ _ _ f refl, of "[0, 1, 0, 1]" "[0, 0, 0, 60]" "[93, 184, 216, 34]"]
    unfolding d(7) len by auto
qed




end
