(* ===== verification/Dhcp.thy ===== *)
theory Dhcp
  imports Udp
begin

text \<open>
  The DHCP client, \<^verbatim>\<open>net/l4/dhcp.c\<close>: building and broadcasting its messages, the option parser, the
  state machine, and the configuration of the interface and of the routes when a lease is granted.
\<close>

section \<open>Model of the source\<close>

definition DHCP_SERVER_PORT :: u16 where [c_defs]: "DHCP_SERVER_PORT = 67"
definition DHCP_CLIENT_PORT :: u16 where [c_defs]: "DHCP_CLIENT_PORT = 68"
definition DHCP_BOOTREQUEST :: u8 where [c_defs]: "DHCP_BOOTREQUEST = 1"
definition DHCP_BOOTREPLY :: u8 where [c_defs]: "DHCP_BOOTREPLY = 2"
definition DHCP_HTYPE_ETH :: u8 where [c_defs]: "DHCP_HTYPE_ETH = 1"
definition DHCP_HLEN_ETH :: u8 where [c_defs]: "DHCP_HLEN_ETH = 6"
definition DHCP_OPT_PAD :: u8 where [c_defs]: "DHCP_OPT_PAD = 0"
definition DHCP_OPT_SUBNET_MASK :: u8 where [c_defs]: "DHCP_OPT_SUBNET_MASK = 1"
definition DHCP_OPT_ROUTER :: u8 where [c_defs]: "DHCP_OPT_ROUTER = 3"
definition DHCP_OPT_DNS :: u8 where [c_defs]: "DHCP_OPT_DNS = 6"
definition DHCP_OPT_REQUESTED_IP :: u8 where [c_defs]: "DHCP_OPT_REQUESTED_IP = 50"
definition DHCP_OPT_LEASE_TIME :: u8 where [c_defs]: "DHCP_OPT_LEASE_TIME = 51"
definition DHCP_OPT_MESSAGE_TYPE :: u8 where [c_defs]: "DHCP_OPT_MESSAGE_TYPE = 53"
definition DHCP_OPT_SERVER_ID :: u8 where [c_defs]: "DHCP_OPT_SERVER_ID = 54"
definition DHCP_OPT_PARAM_REQUEST :: u8 where [c_defs]: "DHCP_OPT_PARAM_REQUEST = 55"
definition DHCP_OPT_END :: u8 where [c_defs]: "DHCP_OPT_END = 255"
definition DHCPDISCOVER :: u8 where [c_defs]: "DHCPDISCOVER = 1"
definition DHCPOFFER :: u8 where [c_defs]: "DHCPOFFER = 2"
definition DHCPREQUEST :: u8 where [c_defs]: "DHCPREQUEST = 3"
definition DHCPACK :: u8 where [c_defs]: "DHCPACK = 5"
definition DHCPNAK :: u8 where [c_defs]: "DHCPNAK = 6"
definition DHCP_HEADER_SIZE :: int where [c_defs]: "DHCP_HEADER_SIZE = 236"

datatype dhcp_fsm = DHCP_STATE_INIT | DHCP_STATE_SELECTING | DHCP_STATE_REQUESTING
  | DHCP_STATE_BOUND | DHCP_STATE_RENEWING | DHCP_STATE_REBINDING

record dhcp_context =
  dc_netif :: netif_ptr
  dc_state :: dhcp_fsm
  dc_xid :: u32
  dc_offered_ip :: u32
  dc_server_ip :: u32
  dc_lease_time :: u32
  dc_renewal_time :: u32
  dc_rebind_time :: u32
  dc_discover_count :: u32
  dc_request_count :: u32

record dhcp_state =
  dhcp_ctx :: dhcp_context
  dhcp_initialized :: bool
  dhcp_xid_counter :: u32

definition dhcp_generate_xid :: "dhcp_state \<Rightarrow> u32 \<times> dhcp_state" where
  "dhcp_generate_xid c =
     (let x = dhcp_xid_counter c * 1103515245 + 12345 in (x, c\<lparr>dhcp_xid_counter := x\<rparr>))"

definition mem_zero :: "bytes \<Rightarrow> nat \<Rightarrow> nat \<Rightarrow> bytes option" where
  "mem_zero buf i len = store_at buf i (replicate len 0)"

definition mem_copy :: "bytes \<Rightarrow> nat \<Rightarrow> bytes \<Rightarrow> nat \<Rightarrow> bytes option" where
  "mem_copy dest i src len = do { xs \<leftarrow> load_field src 0 len; store_at dest i xs }"

text \<open>The fixed header up to the hardware address, the magic cookie and the first option.\<close>

definition dhcp_build_header ::
  "netif_ptr \<Rightarrow> bytes \<Rightarrow> int \<Rightarrow> u8 \<Rightarrow> u32 \<Rightarrow> net_core \<Rightarrow> (bytes \<times> int) option" where
  "dhcp_build_header netif buffer buflen msg_type xid core =
     (if buflen < DHCP_HEADER_SIZE + 64 then Some (buffer, - 1)
      else do {
        buffer \<leftarrow> mem_zero buffer 0 (nat (DHCP_HEADER_SIZE + 64));
        buffer \<leftarrow> store_at buffer 0
          ([DHCP_BOOTREQUEST, DHCP_HTYPE_ETH, DHCP_HLEN_ETH, 0] @ mem32 (htonl xid) @ mem16 0 @
           mem16 (htons 0x8000) @ mem32 0 @ mem32 0 @ mem32 0 @ mem32 0);
        ni \<leftarrow> netif_at core netif;
        buffer \<leftarrow> mem_copy buffer 28 (mac_addr ni) 6;
        buffer \<leftarrow> store_at buffer (nat DHCP_HEADER_SIZE)
          [0x63, 0x82, 0x53, 0x63, DHCP_OPT_MESSAGE_TYPE, 1, msg_type];
        Some (buffer, 7)
      })"

text \<open>The options start at byte 236 of the packet; these functions get the packet.\<close>

definition dhcp_add_param_request :: "bytes \<Rightarrow> int \<Rightarrow> (bytes \<times> int) option" where
  "dhcp_add_param_request packet start_idx = do {
     packet \<leftarrow> store_at packet (nat (DHCP_HEADER_SIZE + start_idx))
       [DHCP_OPT_PARAM_REQUEST, 4, DHCP_OPT_SUBNET_MASK, DHCP_OPT_ROUTER, DHCP_OPT_DNS, DHCP_OPT_LEASE_TIME];
     Some (packet, start_idx + 6)
   }"

definition dhcp_finalize_options :: "bytes \<Rightarrow> int \<Rightarrow> (bytes \<times> int) option" where
  "dhcp_finalize_options packet idx = do {
     packet \<leftarrow> store_at packet (nat (DHCP_HEADER_SIZE + idx)) [DHCP_OPT_END];
     Some (packet, idx + 1)
   }"

text \<open>\<^verbatim>\<open>while (total_len < 300) dhcp_packet[total_len++] = 0;\<close>\<close>

definition dhcp_pad :: "bytes \<Rightarrow> int \<Rightarrow> (bytes \<times> int) option" where
  "dhcp_pad packet total_len =
     (if total_len < 300 then do {
        packet \<leftarrow> store_at packet (nat total_len) (replicate (nat (300 - total_len)) 0);
        Some (packet, 300)
      }
      else Some (packet, total_len))"

definition dhcp_ip_header :: "u16 \<Rightarrow> u16 \<Rightarrow> bytes" where
  "dhcp_ip_header total_length checksum =
     [0x45, 0] @ mem16 (htons total_length) @ mem16 (htons 0) @ mem16 0 @ [64, IP_PROTO_UDP] @
     mem16 checksum @ [0, 0, 0, 0] @ [255, 255, 255, 255]"

definition dhcp_send_raw :: "netif_ptr \<Rightarrow> bytes \<Rightarrow> int \<Rightarrow> net_core \<Rightarrow> net_core option" where
  "dhcp_send_raw netif dhcp_data dhcp_len core = do {
     ni \<leftarrow> netif_at core netif;
     src_mac \<leftarrow> load_field (mac_addr ni) 0 6;
     let total_length = of_int (IPV4_HEADER_SIZE + UDP_HEADER_SIZE + dhcp_len);
     checksum \<leftarrow> ip_checksum (dhcp_ip_header total_length 0) IPV4_HEADER_SIZE;
     payload \<leftarrow> load_field dhcp_data 0 (nat dhcp_len);
     let packet = replicate 6 0xFF @ src_mac @ mem16 (htons ETH_TYPE_IPV4) @
                  dhcp_ip_header total_length checksum @
                  udp_header DHCP_CLIENT_PORT DHCP_SERVER_PORT (of_int (UDP_HEADER_SIZE + dhcp_len)) @
                  payload @ replicate (60 - (42 + nat dhcp_len)) 0;
     if length packet > 1518 then None
     else if ni_send ni then Some (snd (transmit netif packet core)) else Some core
   }"

definition dhcp_init :: "netif_ptr \<Rightarrow> dhcp_state \<Rightarrow> dhcp_state" where
  "dhcp_init netif c =
     c\<lparr>dhcp_ctx := \<lparr>dc_netif = netif, dc_state = DHCP_STATE_INIT, dc_xid = 0, dc_offered_ip = 0, dc_server_ip = 0,
        dc_lease_time = 0, dc_renewal_time = 0, dc_rebind_time = 0, dc_discover_count = 0, dc_request_count = 0\<rparr>,
       dhcp_initialized := True\<rparr>"

definition dhcp_discover :: "netif_ptr \<Rightarrow> dhcp_state \<times> ip_stack \<Rightarrow> (int \<times> dhcp_state \<times> ip_stack) option" where
  "dhcp_discover netif = (\<lambda>(c, s). do {
     let c = (if \<not> dhcp_initialized c \<or> dc_netif (dhcp_ctx c) \<noteq> netif then dhcp_init netif c else c);
     let (xid, c) = dhcp_generate_xid c;
     let c = c\<lparr>dhcp_ctx := (dhcp_ctx c)\<lparr>dc_xid := xid, dc_state := DHCP_STATE_SELECTING,
                dc_discover_count := dc_discover_count (dhcp_ctx c) + 1\<rparr>\<rparr>;
     (packet, opt_idx) \<leftarrow> dhcp_build_header netif (replicate 576 0) 576 DHCPDISCOVER xid (st_core s);
     if opt_idx < 0 then Some (- 1, c, s)
     else do {
       (packet, opt_idx) \<leftarrow> dhcp_add_param_request packet opt_idx;
       (packet, opt_idx) \<leftarrow> dhcp_finalize_options packet opt_idx;
       (packet, total_len) \<leftarrow> dhcp_pad packet (DHCP_HEADER_SIZE + opt_idx);
       core \<leftarrow> dhcp_send_raw netif packet total_len (st_core s);
       Some (0, c, s\<lparr>st_core := core\<rparr>)
     }
   })"

definition dhcp_send_request :: "netif_ptr \<Rightarrow> dhcp_state \<times> ip_stack \<Rightarrow> (int \<times> dhcp_state \<times> ip_stack) option" where
  "dhcp_send_request netif = (\<lambda>(c, s). do {
     let c = c\<lparr>dhcp_ctx := (dhcp_ctx c)\<lparr>dc_state := DHCP_STATE_REQUESTING,
                dc_request_count := dc_request_count (dhcp_ctx c) + 1\<rparr>\<rparr>;
     (packet, opt_idx) \<leftarrow> dhcp_build_header netif (replicate 576 0) 576 DHCPREQUEST (dc_xid (dhcp_ctx c)) (st_core s);
     if opt_idx < 0 then Some (- 1, c, s)
     else do {
       packet \<leftarrow> store_at packet (nat (DHCP_HEADER_SIZE + opt_idx))
         ([DHCP_OPT_REQUESTED_IP, 4] @ ip_u32_to_bytes (dc_offered_ip (dhcp_ctx c)));
       packet \<leftarrow> store_at packet (nat (DHCP_HEADER_SIZE + opt_idx + 6))
         ([DHCP_OPT_SERVER_ID, 4] @ ip_u32_to_bytes (dc_server_ip (dhcp_ctx c)));
       (packet, opt_idx) \<leftarrow> dhcp_add_param_request packet (opt_idx + 12);
       (packet, opt_idx) \<leftarrow> dhcp_finalize_options packet opt_idx;
       (packet, total_len) \<leftarrow> dhcp_pad packet (DHCP_HEADER_SIZE + opt_idx);
       core \<leftarrow> dhcp_send_raw netif packet total_len (st_core s);
       Some (0, c, s\<lparr>st_core := core\<rparr>)
     }
   })"

text \<open>The six results of the option parser.\<close>

record dhcp_options =
  do_msg_type :: u8
  do_server_ip :: u32
  do_subnet_mask :: u32
  do_router :: u32
  do_dns :: u32
  do_lease_time :: u32

definition parse_option :: "bytes \<Rightarrow> nat \<Rightarrow> u8 \<Rightarrow> u8 \<Rightarrow> dhcp_options \<Rightarrow> dhcp_options option" where
  "parse_option options i opt opt_len r =
     (if opt = DHCP_OPT_MESSAGE_TYPE then
        if opt_len \<ge> 1 then do { v \<leftarrow> aget options i; Some (r\<lparr>do_msg_type := v\<rparr>) } else Some r
      else if opt = DHCP_OPT_SERVER_ID then
        if opt_len \<ge> 4 then do { v \<leftarrow> ip_bytes_to_u32 (drop i options); Some (r\<lparr>do_server_ip := v\<rparr>) } else Some r
      else if opt = DHCP_OPT_SUBNET_MASK then
        if opt_len \<ge> 4 then do { v \<leftarrow> ip_bytes_to_u32 (drop i options); Some (r\<lparr>do_subnet_mask := v\<rparr>) } else Some r
      else if opt = DHCP_OPT_ROUTER then
        if opt_len \<ge> 4 then do { v \<leftarrow> ip_bytes_to_u32 (drop i options); Some (r\<lparr>do_router := v\<rparr>) } else Some r
      else if opt = DHCP_OPT_DNS then
        if opt_len \<ge> 4 then do { v \<leftarrow> ip_bytes_to_u32 (drop i options); Some (r\<lparr>do_dns := v\<rparr>) } else Some r
      else if opt = DHCP_OPT_LEASE_TIME then
        if opt_len \<ge> 4 then do { v \<leftarrow> load32 options i; Some (r\<lparr>do_lease_time := ntohl v\<rparr>) } else Some r
      else Some r)"

function parse_loop :: "bytes \<Rightarrow> int \<Rightarrow> nat \<Rightarrow> dhcp_options \<Rightarrow> dhcp_options option" where
  "parse_loop options len i r =
     (if int i < len then do {
        opt \<leftarrow> aget options i;
        if opt = DHCP_OPT_PAD then parse_loop options len (i + 1) r
        else if opt = DHCP_OPT_END then Some r
        else if int (i + 1) \<ge> len then Some r
        else do {
          opt_len \<leftarrow> aget options (i + 1);
          if int (i + 2) + uint opt_len > len then Some r
          else do {
            r \<leftarrow> parse_option options (i + 2) opt opt_len r;
            parse_loop options len (i + 2 + unat opt_len) r
          }
        }
      }
      else Some r)"
  by pat_completeness auto
termination
  by (relation "measure (\<lambda>(options, len, i, r). nat (len - int i))")
     (auto intro: order_le_less_trans [where y = 0])

declare parse_loop.simps [simp del]

definition dhcp_parse_options :: "bytes \<Rightarrow> int \<Rightarrow> dhcp_options option" where
  "dhcp_parse_options options len =
     parse_loop options len 0 \<lparr>do_msg_type = 0, do_server_ip = 0, do_subnet_mask = 0, do_router = 0,
       do_dns = 0, do_lease_time = 0\<rparr>"

text \<open>The address field \<^verbatim>\<open>yiaddr\<close> is at byte 16 of the header.\<close>

definition dhcp_handle_offer ::
  "netif_ptr \<Rightarrow> bytes \<Rightarrow> bytes \<Rightarrow> int \<Rightarrow> dhcp_state \<times> ip_stack \<Rightarrow> (dhcp_state \<times> ip_stack) option" where
  "dhcp_handle_offer netif dhcp options opt_len = (\<lambda>(c, s). do {
     r \<leftarrow> dhcp_parse_options options opt_len;
     if do_msg_type r \<noteq> DHCPOFFER then Some (c, s)
     else do {
       offered \<leftarrow> ip_bytes_to_u32 (drop 16 dhcp);
       let c = c\<lparr>dhcp_ctx := (dhcp_ctx c)\<lparr>dc_offered_ip := offered, dc_server_ip := do_server_ip r\<rparr>\<rparr>;
       (_, c, s) \<leftarrow> dhcp_send_request netif (c, s);
       Some (c, s)
     }
   })"

definition set_netif :: "netif_ptr \<Rightarrow> (NetInterface \<Rightarrow> NetInterface) \<Rightarrow> net_core \<Rightarrow> net_core option" where
  "set_netif netif f core = (case netif of
     None \<Rightarrow> None
   | Some i \<Rightarrow> do { ni \<leftarrow> aget (netif_list core) i; Some (core\<lparr>netif_list := (netif_list core)[i := f ni]\<rparr>) })"

definition dhcp_handle_ack ::
  "netif_ptr \<Rightarrow> bytes \<Rightarrow> bytes \<Rightarrow> int \<Rightarrow> dhcp_state \<times> ip_stack \<Rightarrow> (dhcp_state \<times> ip_stack) option" where
  "dhcp_handle_ack netif dhcp options opt_len = (\<lambda>(c, s). do {
     r \<leftarrow> dhcp_parse_options options opt_len;
     if do_msg_type r = DHCPNAK then Some (c\<lparr>dhcp_ctx := (dhcp_ctx c)\<lparr>dc_state := DHCP_STATE_INIT\<rparr>\<rparr>, s)
     else if do_msg_type r \<noteq> DHCPACK then Some (c, s)
     else do {
       let c = c\<lparr>dhcp_ctx := (dhcp_ctx c)\<lparr>dc_state := DHCP_STATE_BOUND, dc_lease_time := do_lease_time r\<rparr>\<rparr>;
       assigned_ip \<leftarrow> ip_bytes_to_u32 (drop 16 dhcp);
       core \<leftarrow> set_netif netif (\<lambda>ni. ni\<lparr>ip_addr := assigned_ip, netmask := do_subnet_mask r,
                gateway := do_router r, dns_server := do_dns r\<rparr>) (st_core s);
       Some (c, s\<lparr>st_core := core, st_route := route_update_from_netif netif core (st_route s)\<rparr>)
     }
   })"

definition dhcp_handle_packet ::
  "netif_ptr \<Rightarrow> bytes \<Rightarrow> int \<Rightarrow> dhcp_state \<times> ip_stack \<Rightarrow> (dhcp_state \<times> ip_stack) option" where
  "dhcp_handle_packet netif data len = (\<lambda>(c, s).
     if \<not> dhcp_initialized c then Some (c, s)
     else
       let netif = (if netif = None then netif_get_default (st_core s) else netif) in
       if netif = None \<or> netif \<noteq> dc_netif (dhcp_ctx c) then Some (c, s)
       else if len < DHCP_HEADER_SIZE + 4 then Some (c, s)
       else do {
         op \<leftarrow> aget data 0;
         if op \<noteq> DHCP_BOOTREPLY then Some (c, s)
         else do {
           xid \<leftarrow> load32 data 4;
           if ntohl xid \<noteq> dc_xid (dhcp_ctx c) then Some (c, s)
           else do {
             cookie \<leftarrow> load_field data (nat DHCP_HEADER_SIZE) 4;
             if cookie \<noteq> [0x63, 0x82, 0x53, 0x63] then Some (c, s)
             else do {
               let options = drop (nat DHCP_HEADER_SIZE + 4) data;
               let opt_len = len - DHCP_HEADER_SIZE - 4;
               _ \<leftarrow> dhcp_parse_options options opt_len;
               case dc_state (dhcp_ctx c) of
                 DHCP_STATE_SELECTING \<Rightarrow> dhcp_handle_offer netif data options opt_len (c, s)
               | DHCP_STATE_REQUESTING \<Rightarrow> dhcp_handle_ack netif data options opt_len (c, s)
               | DHCP_STATE_RENEWING \<Rightarrow> dhcp_handle_ack netif data options opt_len (c, s)
               | DHCP_STATE_REBINDING \<Rightarrow> dhcp_handle_ack netif data options opt_len (c, s)
               | _ \<Rightarrow> Some (c, s)
             }
           }
         }
       })"

definition dhcp_release :: "netif_ptr \<Rightarrow> dhcp_state \<times> ip_stack \<Rightarrow> (dhcp_state \<times> ip_stack) option" where
  "dhcp_release netif = (\<lambda>(c, s).
     if \<not> dhcp_initialized c \<or> dc_netif (dhcp_ctx c) \<noteq> netif then Some (c, s)
     else do {
       core \<leftarrow> set_netif netif (\<lambda>ni. ni\<lparr>ip_addr := 0, netmask := 0, gateway := 0, dns_server := 0\<rparr>) (st_core s);
       Some (c\<lparr>dhcp_ctx := (dhcp_ctx c)\<lparr>dc_state := DHCP_STATE_INIT\<rparr>\<rparr>, s\<lparr>st_core := core\<rparr>)
     })"

definition dhcp_get_state :: "netif_ptr \<Rightarrow> dhcp_state \<Rightarrow> dhcp_fsm" where
  "dhcp_get_state netif c =
     (if \<not> dhcp_initialized c \<or> dc_netif (dhcp_ctx c) \<noteq> netif then DHCP_STATE_INIT else dc_state (dhcp_ctx c))"

definition dhcp_is_bound :: "netif_ptr \<Rightarrow> dhcp_state \<Rightarrow> bool" where
  "dhcp_is_bound netif c \<longleftrightarrow> dhcp_get_state netif c = DHCP_STATE_BOUND"

section \<open>The option parser\<close>

lemma ip_bytes_to_u32_defined: "4 \<le> length b \<Longrightarrow> \<exists>v. ip_bytes_to_u32 b = Some v"
proof -
  assume "4 \<le> length b"
  then have "0 < length b" "1 < length b" "2 < length b" "3 < length b" by linarith+
  then show ?thesis by (simp add: ip_bytes_to_u32_def)
qed

lemma parse_option_defined:
  assumes "i + unat opt_len \<le> length options"
  shows "\<exists>r'. parse_option options i opt opt_len r = Some r'"
proof -
  have "\<exists>v. ip_bytes_to_u32 (drop i options) = Some v" "\<exists>v. load32 options i = Some v" if "opt_len \<ge> 4"
    using assms that by (auto simp: ip_bytes_to_u32_def load32_def aget_def word_le_nat_alt)
  moreover have "\<exists>v. aget options i = Some v" if "opt_len \<ge> 1"
    using assms that by (auto simp: aget_def word_le_nat_alt)
  ultimately show ?thesis by (auto simp: parse_option_def)
qed

text \<open>Whatever the bytes are, the parser stays inside the options.\<close>

lemma parse_loop_defined:
  "len \<le> int (length options) \<Longrightarrow> \<exists>r'. parse_loop options len i r = Some r'"
proof (induction options len i r rule: parse_loop.induct)
  case (1 options len i r)
  note IH = "1.IH" and le = "1.prems"
  show ?case
  proof (cases "int i < len")
    case lt: True
    then have i: "aget options i = Some (options ! i)" using le by (simp add: aget_def)
    let ?opt = "options ! i"
    consider "?opt = DHCP_OPT_PAD" | "?opt \<noteq> DHCP_OPT_PAD" "?opt = DHCP_OPT_END \<or> len \<le> int (i + 1)"
      | "?opt \<noteq> DHCP_OPT_PAD" "?opt \<noteq> DHCP_OPT_END" "int (i + 1) < len" by linarith
    then show ?thesis
    proof cases
      case 1
      then show ?thesis using lt i IH(1) [OF lt i] le by (simp add: parse_loop.simps [of options len i])
    next
      case 2
      then show ?thesis using lt i by (auto simp: parse_loop.simps [of options len i])
    next
      case 3
      then have j: "aget options (i + 1) = Some (options ! (i + 1))" using le by (simp add: aget_def)
      let ?l = "options ! (i + 1)"
      show ?thesis
      proof (cases "len < int (i + 2) + uint ?l")
        case True
        then show ?thesis using lt i j 3 by (simp add: parse_loop.simps [of options len i])
      next
        case False
        then have "int (i + 2 + unat ?l) \<le> len" by simp
        then have "i + 2 + unat ?l \<le> length options" using le by linarith
        then obtain r' where r': "parse_option options (i + 2) ?opt ?l r = Some r'"
          using parse_option_defined by blast
        then show ?thesis
          using IH(2) [OF lt i _ _ _ j _ r'] False 3 lt i j le
          by (simp add: parse_loop.simps [of options len i])
      qed
    qed
  qed (simp add: parse_loop.simps)
qed

lemma dhcp_parse_options_defined:
  "len \<le> int (length options) \<Longrightarrow> \<exists>r. dhcp_parse_options options len = Some r"
  by (simp add: dhcp_parse_options_def parse_loop_defined)

text \<open>What a list of options means: the last option of each kind that is long enough counts.\<close>

fun apply_option :: "u8 \<times> bytes \<Rightarrow> dhcp_options \<Rightarrow> dhcp_options" where
  "apply_option (code, d) r =
     (let ip = the (ip_bytes_to_u32 d) in
      if code = DHCP_OPT_MESSAGE_TYPE \<and> 1 \<le> length d then r\<lparr>do_msg_type := d ! 0\<rparr>
      else if code = DHCP_OPT_SERVER_ID \<and> 4 \<le> length d then r\<lparr>do_server_ip := ip\<rparr>
      else if code = DHCP_OPT_SUBNET_MASK \<and> 4 \<le> length d then r\<lparr>do_subnet_mask := ip\<rparr>
      else if code = DHCP_OPT_ROUTER \<and> 4 \<le> length d then r\<lparr>do_router := ip\<rparr>
      else if code = DHCP_OPT_DNS \<and> 4 \<le> length d then r\<lparr>do_dns := ip\<rparr>
      else if code = DHCP_OPT_LEASE_TIME \<and> 4 \<le> length d then r\<lparr>do_lease_time := ip\<rparr>
      else r)"

definition encode_options :: "(u8 \<times> bytes) list \<Rightarrow> bytes" where
  "encode_options os = concat (map (\<lambda>(code, d). code # of_nat (length d) # d) os) @ [DHCP_OPT_END]"

lemma ntohl_load32:
  assumes "ip_bytes_to_u32 (drop i buf) = Some v"
  shows "\<exists>w. load32 buf i = Some w \<and> ntohl w = v"
proof -
  have len: "i + 3 < length buf"
    using assms by (auto simp: ip_bytes_to_u32_def aget_def bind_eq_Some_conv split: if_splits)
  let ?b0 = "buf ! i" and ?b1 = "buf ! (i + 1)" and ?b2 = "buf ! (i + 2)" and ?b3 = "buf ! (i + 3)"
  have v: "v = push_bit 24 (ucast ?b0) OR push_bit 16 (ucast ?b1) OR push_bit 8 (ucast ?b2) OR ucast ?b3"
    using assms len by (auto simp: ip_bytes_to_u32_def)
  have b: "aget buf i = Some ?b0" "aget buf (i + 1) = Some ?b1" "aget buf (i + 2) = Some ?b2"
    "aget buf (i + 3) = Some ?b3" using len by simp_all
  let ?w = "ucast ?b0 OR push_bit 8 (ucast ?b1) OR push_bit 16 (ucast ?b2) OR push_bit 24 (ucast ?b3) :: u32"
  have "ntohl ?w = v"
  proof (rule bit_word_eqI)
    fix n assume "n < LENGTH(32)"
    then have "n < 32" by simp
    then show "bit (ntohl ?w) n \<longleftrightarrow> bit v n" unfolding v
      by (cases rule: byte_cases) (auto simp: ntohl_def byte_masks bit_simps less_diff_conv2 dest: bit_imp_le_length)
  qed
  then show ?thesis unfolding load32_def b by simp
qed

lemma parse_option_apply:
  assumes "length d \<le> 255"
  shows "parse_option (xs @ d @ ys) (length xs) code (of_nat (length d)) r = Some (apply_option (code, d) r)"
proof -
  have l: "unat (of_nat (length d) :: u8) = length d" using assms by (simp add: unat_of_nat)
  have ge: "(of_nat (length d) :: u8) \<ge> 4 \<longleftrightarrow> 4 \<le> length d" "(of_nat (length d) :: u8) \<ge> 1 \<longleftrightarrow> 1 \<le> length d"
    by (simp_all add: word_le_nat_alt l)
  have ip: "ip_bytes_to_u32 (drop (length xs) (xs @ d @ ys)) = Some (the (ip_bytes_to_u32 d))" if "4 \<le> length d"
    using that by (cases d) (auto simp: ip_bytes_to_u32_def aget_def nth_append)
  then have lease: "\<exists>w. load32 (xs @ d @ ys) (length xs) = Some w \<and> ntohl w = the (ip_bytes_to_u32 d)" if "4 \<le> length d"
    using that ntohl_load32 by blast
  have b: "aget (xs @ d @ ys) (length xs) = Some (d ! 0)" if "1 \<le> length d"
    using that by (cases d) (auto simp: aget_def nth_append)
  show ?thesis
    using ip lease b unfolding parse_option_def ge by (auto simp: Let_def c_defs)
qed

lemma parse_loop_options:
  assumes "\<forall>(code, d) \<in> set os. code \<noteq> DHCP_OPT_PAD \<and> code \<noteq> DHCP_OPT_END \<and> length d \<le> 255"
    and "int (length xs + length (encode_options os)) \<le> len"
  shows "parse_loop (xs @ encode_options os @ ys) len (length xs) r = Some (fold apply_option os r)"
  using assms
proof (induction os arbitrary: xs r)
  case Nil
  then show ?case by (simp add: parse_loop.simps encode_options_def c_defs)
next
  case (Cons o' os)
  obtain code d where o': "o' = (code, d)" by (cases o')
  have d: "code \<noteq> DHCP_OPT_PAD" "code \<noteq> DHCP_OPT_END" "length d \<le> 255" using Cons.prems(1) o' by auto
  let ?l = "of_nat (length d) :: u8" and ?buf = "xs @ encode_options (o' # os) @ ys"
  have l: "unat ?l = length d" "uint ?l = int (length d)"
    using d(3) by (simp_all add: unat_of_nat uint_nat)
  let ?xs = "xs @ [code, ?l]"
  have buf: "?buf = ?xs @ d @ (encode_options os @ ys)" "?buf = (?xs @ d) @ encode_options os @ ys"
    by (simp_all add: encode_options_def o')
  have len: "int (length xs) + 2 + int (length d) \<le> len" "int (length ?xs + length d + length (encode_options os)) \<le> len"
    using Cons.prems(2) by (simp_all add: encode_options_def o')
  have g: "aget ?buf (length xs) = Some code" "aget ?buf (length xs + 1) = Some ?l"
    unfolding buf(1) by (simp_all add: aget_def nth_append)
  have p: "parse_option ?buf (length xs + 2) code ?l r = Some (apply_option (code, d) r)"
    using parse_option_apply [OF d(3), of ?xs "encode_options os @ ys"] unfolding buf(1) by simp
  have "parse_loop ?buf len (length xs) r = parse_loop ?buf len (length (?xs @ d)) (apply_option (code, d) r)"
    using len(1) l g p d(1,2) by (simp add: parse_loop.simps [of ?buf len "length xs"])
  also have "\<dots> = Some (fold apply_option os (apply_option (code, d) r))"
    unfolding buf(2) using Cons.prems(1) len(2) by (intro Cons.IH) simp_all
  finally show ?case by (simp add: o')
qed

section \<open>Messages\<close>

definition dhcp_prefix :: "u32 \<Rightarrow> bytes \<Rightarrow> u8 \<Rightarrow> bytes" where
  "dhcp_prefix xid mac msg_type =
     ([1, 1, 6, 0] @ mem32 (htonl xid) @ mem16 0 @ mem16 (htons 0x8000) @ mem32 0 @ mem32 0 @ mem32 0 @ mem32 0) @
     mac @ replicate 202 0 @ [0x63, 0x82, 0x53, 0x63, 53, 1, msg_type]"

definition dhcp_message :: "u32 \<Rightarrow> bytes \<Rightarrow> u8 \<Rightarrow> bytes \<Rightarrow> bytes" where
  "dhcp_message xid mac msg_type opts =
     dhcp_prefix xid mac msg_type @ opts @ [255] @ replicate (56 - length opts) 0"

lemma length_dhcp_prefix: "length mac = 6 \<Longrightarrow> length (dhcp_prefix xid mac t) = 243"
  by (simp add: dhcp_prefix_def)

lemma store_at_replicate:
  assumes "length xs + length f \<le> length xs + n"
  shows "store_at (xs @ replicate n 0) (length xs) f = Some (xs @ f @ replicate (n - length f) 0)"
  using assms by (simp add: store_at_def)

lemma dhcp_build_header_eq:
  assumes "netif_at core netif = Some ni" and "length (mac_addr ni) = 6"
  shows "dhcp_build_header netif (replicate 576 0) 576 t xid core =
    Some (dhcp_prefix xid (mac_addr ni) t @ replicate 333 0, 7)"
proof -
  let ?h = "[1, 1, 6, 0] @ mem32 (htonl xid) @ mem16 0 @ mem16 (htons 0x8000) @ mem32 0 @ mem32 0 @ mem32 0 @ mem32 0"
  have 1: "store_at (replicate 576 0) 0 (replicate 300 0) = Some (replicate 576 (0 :: u8))"
    by (simp add: store_at_def flip: replicate_add)
  have 2: "store_at (replicate 576 0) 0 ?h = Some (?h @ replicate 548 0)" by (simp add: store_at_def)
  have 3: "mem_copy (?h @ replicate 548 0) 28 (mac_addr ni) 6 = Some (?h @ mac_addr ni @ replicate 542 0)"
    using assms(2) by (simp add: mem_copy_def load_field_def store_at_def)
  have 4: "store_at (?h @ mac_addr ni @ replicate 542 0) 236 [0x63, 0x82, 0x53, 0x63, 53, 1, t] =
      Some (dhcp_prefix xid (mac_addr ni) t @ replicate 333 0)"
    using assms(2) by (simp add: store_at_def dhcp_prefix_def)
  show ?thesis
    using 1 2 3 4 assms(1) by (simp add: dhcp_build_header_def mem_zero_def c_defs)
qed

definition dhcp_frame :: "bytes \<Rightarrow> bytes \<Rightarrow> bytes" where
  "dhcp_frame mac msg =
     replicate 6 0xFF @ mac @ mem16 (htons ETH_TYPE_IPV4) @
     dhcp_ip_header 328 (the (ip_checksum (dhcp_ip_header 328 0) 20)) @ udp_header 68 67 308 @ msg"

lemma dhcp_send_raw_eq:
  assumes "netif_at core netif = Some ni" and "length (mac_addr ni) = 6" and "300 \<le> length packet"
  shows "dhcp_send_raw netif packet 300 core =
    Some (if ni_send ni then snd (transmit netif (dhcp_frame (mac_addr ni) (take 300 packet)) core) else core)"
proof -
  have len: "length (dhcp_ip_header tot c) = 20" for tot c by (simp add: dhcp_ip_header_def)
  then obtain c where c: "ip_checksum (dhcp_ip_header 328 0) 20 = Some c"
    using ip_checksum_eq [of 20 "dhcp_ip_header 328 0"] by simp
  show ?thesis
    using assms c len by (simp add: dhcp_send_raw_def load_field_def c_defs Let_def dhcp_frame_def)
qed

lemma param_request:
  assumes "length xs = 236 + nat i" and "0 \<le> i" and "13 \<le> n"
  shows "dhcp_add_param_request (xs @ replicate n 0) i =
      Some (xs @ [55, 4, 1, 3, 6, 51] @ replicate (n - 6) 0, i + 6)"
    and "dhcp_finalize_options (xs @ [55, 4, 1, 3, 6, 51] @ replicate (n - 6) 0) (i + 6) =
      Some (xs @ [55, 4, 1, 3, 6, 51] @ [255] @ replicate (n - 7) 0, i + 7)"
proof -
  have i: "nat (236 + i) = length xs" "nat (236 + (i + 6)) = length (xs @ [55, 4, 1, 3, 6, 51])"
    using assms(1,2) by (simp_all add: nat_add_distrib)
  show "dhcp_add_param_request (xs @ replicate n 0) i =
      Some (xs @ [55, 4, 1, 3, 6, 51] @ replicate (n - 6) 0, i + 6)"
    using store_at_replicate [of xs "[55, 4, 1, 3, 6, 51]" n] assms(3) i(1)
    by (simp add: dhcp_add_param_request_def c_defs)
  show "dhcp_finalize_options (xs @ [55, 4, 1, 3, 6, 51] @ replicate (n - 6) 0) (i + 6) =
      Some (xs @ [55, 4, 1, 3, 6, 51] @ [255] @ replicate (n - 7) 0, i + 7)"
    using store_at_replicate [of "xs @ [55, 4, 1, 3, 6, 51]" "[255]" "n - 6"] assms(3) i(2)
    by (simp add: dhcp_finalize_options_def c_defs)
qed

lemma dhcp_pad_eq:
  assumes "length xs = nat i" and "0 \<le> i" and "i < 300"  and "300 \<le> length xs + n"
  shows "dhcp_pad (xs @ replicate n 0) i = Some (xs @ replicate n 0, 300)"
proof -
  have "nat (300 - i) \<le> n" using assms by linarith
  then show ?thesis
    using store_at_replicate [of xs "replicate (nat (300 - i)) 0" n] assms
    by (simp add: dhcp_pad_def flip: replicate_add)
qed

lemma dhcp_discover_eq:
  fixes c :: dhcp_state
  assumes "netif_at (st_core s) netif = Some ni" and "length (mac_addr ni) = 6"
  defines "c1 \<equiv> (if \<not> dhcp_initialized c \<or> dc_netif (dhcp_ctx c) \<noteq> netif then dhcp_init netif c else c)"
  defines "xid \<equiv> dhcp_xid_counter c1 * 1103515245 + 12345"
  defines "msg \<equiv> dhcp_message xid (mac_addr ni) DHCPDISCOVER [55, 4, 1, 3, 6, 51]"
  shows "dhcp_discover netif (c, s) = Some (0,
    c1\<lparr>dhcp_xid_counter := xid, dhcp_ctx := (dhcp_ctx c1)\<lparr>dc_xid := xid, dc_state := DHCP_STATE_SELECTING,
        dc_discover_count := dc_discover_count (dhcp_ctx c1) + 1\<rparr>\<rparr>,
    s\<lparr>st_core := (if ni_send ni then snd (transmit netif (dhcp_frame (mac_addr ni) msg) (st_core s)) else st_core s)\<rparr>)"
proof -
  let ?p = "dhcp_prefix xid (mac_addr ni) 1"
  have p: "length ?p = 243" using assms(2) by (rule length_dhcp_prefix)
  note pr = param_request [of ?p 7 333]
  have pad: "dhcp_pad (?p @ [55, 4, 1, 3, 6, 51] @ [255] @ replicate 326 0) 250 =
      Some (?p @ [55, 4, 1, 3, 6, 51] @ [255] @ replicate 326 0, 300)"
    using dhcp_pad_eq [of "?p @ [55, 4, 1, 3, 6, 51] @ [255]" 250 326] p by simp
  have "take 300 (?p @ [55, 4, 1, 3, 6, 51] @ [255] @ replicate 326 0) = msg"
    using p by (simp add: msg_def dhcp_message_def c_defs)
  then have raw: "dhcp_send_raw netif (?p @ [55, 4, 1, 3, 6, 51] @ [255] @ replicate 326 0) 300 (st_core s) =
      Some (if ni_send ni then snd (transmit netif (dhcp_frame (mac_addr ni) msg) (st_core s)) else st_core s)"
    using dhcp_send_raw_eq [OF assms(1,2), of "?p @ [55, 4, 1, 3, 6, 51] @ [255] @ replicate 326 0"] p by simp
  show ?thesis
    using dhcp_build_header_eq [OF assms(1,2), of 1 xid] pr p pad raw
    by (cases "\<not> dhcp_initialized c \<or> dc_netif (dhcp_ctx c) \<noteq> netif")
       (simp_all add: dhcp_discover_def dhcp_generate_xid_def c_defs Let_def c1_def xid_def)
qed

definition request_options :: "u32 \<Rightarrow> u32 \<Rightarrow> bytes" where
  "request_options offered server =
     [50, 4] @ ip_u32_to_bytes offered @ [54, 4] @ ip_u32_to_bytes server @ [55, 4, 1, 3, 6, 51]"

lemma dhcp_send_request_eq:
  assumes "netif_at (st_core s) netif = Some ni" and "length (mac_addr ni) = 6"
  shows "dhcp_send_request netif (c, s) = Some (0,
    c\<lparr>dhcp_ctx := (dhcp_ctx c)\<lparr>dc_state := DHCP_STATE_REQUESTING,
        dc_request_count := dc_request_count (dhcp_ctx c) + 1\<rparr>\<rparr>,
    s\<lparr>st_core := (if ni_send ni then snd (transmit netif (dhcp_frame (mac_addr ni)
        (dhcp_message (dc_xid (dhcp_ctx c)) (mac_addr ni) DHCPREQUEST
          (request_options (dc_offered_ip (dhcp_ctx c)) (dc_server_ip (dhcp_ctx c))))) (st_core s)) else st_core s)\<rparr>)"
proof -
  let ?p = "dhcp_prefix (dc_xid (dhcp_ctx c)) (mac_addr ni) 3"
  let ?o1 = "[50, 4] @ ip_u32_to_bytes (dc_offered_ip (dhcp_ctx c))" and ?o2 = "[54, 4] @ ip_u32_to_bytes (dc_server_ip (dhcp_ctx c))"
  let ?q = "?p @ ?o1 @ ?o2"
  have p: "length ?p = 243" using assms(2) by (rule length_dhcp_prefix)
  have q: "length ?q = 255" using p by simp
  have 1: "store_at (?p @ replicate 333 0) 243 ?o1 = Some ((?p @ ?o1) @ replicate 327 0)"
    using store_at_replicate [of ?p ?o1 333] p by simp
  have 2: "store_at ((?p @ ?o1) @ replicate 327 0) 249 ?o2 = Some (?q @ replicate 321 0)"
    using store_at_replicate [of "?p @ ?o1" ?o2 327] p by simp
  have pr: "dhcp_add_param_request (?q @ replicate 321 0) 19 = Some (?q @ [55, 4, 1, 3, 6, 51] @ replicate 315 0, 25)"
    "dhcp_finalize_options (?q @ [55, 4, 1, 3, 6, 51] @ replicate 315 0) 25 =
      Some (?q @ [55, 4, 1, 3, 6, 51] @ [255] @ replicate 314 0, 26)"
    using param_request [of ?q 19 321] q by simp_all
  let ?r = "?q @ [55, 4, 1, 3, 6, 51] @ [255] @ replicate 314 0"
  have pad: "dhcp_pad ?r 262 = Some (?r, 300)"
    using dhcp_pad_eq [of "?q @ [55, 4, 1, 3, 6, 51] @ [255]" 262 314] q by simp
  have "take 300 ?r = dhcp_message (dc_xid (dhcp_ctx c)) (mac_addr ni) DHCPREQUEST
      (request_options (dc_offered_ip (dhcp_ctx c)) (dc_server_ip (dhcp_ctx c)))"
    using p by (simp add: dhcp_message_def request_options_def c_defs)
  then have raw: "dhcp_send_raw netif ?r 300 (st_core s) = Some (if ni_send ni then snd (transmit netif (dhcp_frame (mac_addr ni)
      (dhcp_message (dc_xid (dhcp_ctx c)) (mac_addr ni) DHCPREQUEST
        (request_options (dc_offered_ip (dhcp_ctx c)) (dc_server_ip (dhcp_ctx c))))) (st_core s)) else st_core s)"
    using dhcp_send_raw_eq [OF assms(1,2), of ?r] q by simp
  have n: "nat (236 + 7) = 243" "nat (236 + 7 + 6) = 249" "(7 :: int) + 12 = 19" "(236 :: int) + 26 = 262" by simp_all
  show ?thesis
    using dhcp_build_header_eq [OF assms(1,2), of 3 "dc_xid (dhcp_ctx c)"] 1 2 pr pad raw
    unfolding dhcp_send_request_def by (simp add: c_defs Let_def n del: append_assoc append_Cons append_Nil)
qed

section \<open>The state machine\<close>

text \<open>The interface of the client exists.\<close>

definition dhcp_ok :: "dhcp_state \<times> ip_stack \<Rightarrow> bool" where
  "dhcp_ok = (\<lambda>(c, s). ip_stack_ok s \<and>
     (\<forall>i. dc_netif (dhcp_ctx c) = Some i \<longrightarrow> i < length (netif_list (st_core s))))"

lemma routes_sized_add:
  assumes "routes_sized r" and "length gw = 4"
  shows "routes_sized (snd (route_add nw m gw ifc r))"
proof -
  have "length (r_gateway e) = 4"
    if "e \<in> set ((routes r)[i := \<lparr>r_network = ip_copy nw, r_netmask = ip_copy m, r_gateway = ip_copy gw,
      r_interface = ifc, r_active = True\<rparr>])" "r_active e" for i e
    using that(2) subsetD [OF set_update_subset_insert that(1)] assms by (auto simp: routes_sized_def ip_copy_def)
  then show ?thesis
    using assms(1) by (auto simp: route_add_def routes_sized_def Let_def split: option.splits)
qed

lemma routes_sized_update: "routes_sized r \<Longrightarrow> routes_sized (route_update_from_netif netif core r)"
  by (auto simp: route_update_from_netif_def Let_def routes_sized_add split: option.splits)

lemma netif_mac:
  assumes "core_ok core" and "netif = Some i" and "i < length (netif_list core)"
  obtains ni where "netif_at core netif = Some ni" and "length (mac_addr ni) = 6"
  using assms by (auto simp: core_ok_def netif_at_def)

lemma set_netif_ok:
  assumes "core_ok core" and "netif = Some i" and "i < length (netif_list core)" and "\<And>ni. mac_addr (f ni) = mac_addr ni"
  obtains core' where "set_netif netif f core = Some core'" and "core_ok core'"
    and "length (netif_list core') = length (netif_list core)" and "netif_at core' netif = Some (f (netif_list core ! i))"
proof -
  have "\<forall>ni \<in> set ((netif_list core)[i := f (netif_list core ! i)]). length (mac_addr ni) = 6"
    using assms set_update_subset_insert [of "netif_list core" i "f (netif_list core ! i)"] by (auto simp: core_ok_def)
  then show ?thesis
    using assms(1-3)
    by (intro that [of "core\<lparr>netif_list := (netif_list core)[i := f (netif_list core ! i)]\<rparr>"])
       (auto simp: set_netif_def core_ok_def netif_at_def)
qed

text \<open>Handling a message from inside the options never leaves the packet and keeps the invariant.\<close>

lemma dhcp_handle_offer_ok:
  assumes "dhcp_ok (c, s)" and "netif = Some i" and "i < length (netif_list (st_core s))"
    and "20 \<le> length dhcp" and "opt_len \<le> int (length options)" and "dc_netif (dhcp_ctx c) = netif"
  shows "\<exists>w. dhcp_handle_offer netif dhcp options opt_len (c, s) = Some w \<and> dhcp_ok w"
proof -
  obtain r where r: "dhcp_parse_options options opt_len = Some r" using dhcp_parse_options_defined [OF assms(5)] ..
  obtain ni where ni: "netif_at (st_core s) netif = Some ni" "length (mac_addr ni) = 6"
    using assms(1) netif_mac [OF _ assms(2,3)] by (auto simp: dhcp_ok_def ip_stack_ok_def)
  have "4 \<le> length (drop 16 dhcp)" using assms(4) by simp
  then obtain ip where "ip_bytes_to_u32 (drop 16 dhcp) = Some ip" using ip_bytes_to_u32_defined by blast
  then show ?thesis
    using r assms(1) dhcp_send_request_eq [OF ni]
    by (auto simp: dhcp_handle_offer_def Let_def dhcp_ok_def ip_stack_ok_def transmit_core_ok transmit_config)
qed

lemma dhcp_handle_ack_ok:
  assumes "dhcp_ok (c, s)" and "netif = Some i" and "i < length (netif_list (st_core s))"
    and "20 \<le> length dhcp" and "opt_len \<le> int (length options)" and "dc_netif (dhcp_ctx c) = netif"
  shows "\<exists>w. dhcp_handle_ack netif dhcp options opt_len (c, s) = Some w \<and> dhcp_ok w"
proof -
  obtain r where r: "dhcp_parse_options options opt_len = Some r" using dhcp_parse_options_defined [OF assms(5)] ..
  have "4 \<le> length (drop 16 dhcp)" using assms(4) by simp
  then obtain ip where ip: "ip_bytes_to_u32 (drop 16 dhcp) = Some ip" using ip_bytes_to_u32_defined by blast
  let ?f = "\<lambda>ni. ni\<lparr>ip_addr := ip, netmask := do_subnet_mask r, gateway := do_router r, dns_server := do_dns r\<rparr>"
  have "core_ok (st_core s)" using assms(1) by (simp add: dhcp_ok_def ip_stack_ok_def)
  then obtain core' where core: "set_netif netif ?f (st_core s) = Some core'" "core_ok core'"
    "length (netif_list core') = length (netif_list (st_core s))"
    by (rule set_netif_ok [OF _ assms(2,3), of ?f]) simp_all
  show ?thesis
    using r ip core assms(1,2,3,6) by (simp add: dhcp_handle_ack_def Let_def dhcp_ok_def ip_stack_ok_def routes_sized_update)
qed

lemma dhcp_handle_packet_ok:
  assumes "dhcp_ok (c, s)" and "len \<le> int (length data)"
  shows "\<exists>w. dhcp_handle_packet netif data len (c, s) = Some w \<and> dhcp_ok w"
proof (cases "dhcp_initialized c \<and> dc_netif (dhcp_ctx c) \<noteq> None \<and> 240 \<le> len \<and>
    (if netif = None then netif_get_default (st_core s) else netif) = dc_netif (dhcp_ctx c)")
  case False
  then show ?thesis using assms(1) by (cases netif) (auto simp: dhcp_handle_packet_def Let_def c_defs)
next
  case True
  then obtain i where i: "dc_netif (dhcp_ctx c) = Some i" by auto
  then have lt: "i < length (netif_list (st_core s))" using assms(1) by (simp add: dhcp_ok_def)
  let ?o = "drop 240 data" and ?l = "len - 240"
  have d: "\<exists>b. aget data 0 = Some b" "\<exists>x. load32 data 4 = Some x" "\<exists>k. load_field data 236 4 = Some k"
    "20 \<le> length data" "?l \<le> int (length ?o)"
    using True assms(2) by (auto simp: aget_def load32_def load_field_def)
  obtain r where r: "dhcp_parse_options ?o ?l = Some r" using dhcp_parse_options_defined [OF d(5)] ..
  note ok = dhcp_handle_offer_ok [OF assms(1) refl lt d(4,5) i] dhcp_handle_ack_ok [OF assms(1) refl lt d(4,5) i]
  have n: "nat 236 + 4 = 240" "len - 236 - 4 = ?l" by simp_all
  show ?thesis
    using True i d(1-3) r ok assms(1)
    by (cases netif) (auto simp: dhcp_handle_packet_def Let_def c_defs n split: dhcp_fsm.split)
qed

text \<open>A server message: the fields that the client reads, with anything in between.\<close>

definition dhcp_reply :: "u32 \<Rightarrow> u32 \<Rightarrow> bytes \<Rightarrow> bytes \<Rightarrow> bytes \<Rightarrow> (u8 \<times> bytes) list \<Rightarrow> bytes" where
  "dhcp_reply xid yiaddr h1 h2 h3 os =
     [2] @ h1 @ mem32 (htonl xid) @ h2 @ ip_u32_to_bytes yiaddr @ h3 @ [0x63, 0x82, 0x53, 0x63] @ encode_options os"

abbreviation no_options :: dhcp_options where
  "no_options \<equiv> \<lparr>do_msg_type = 0, do_server_ip = 0, do_subnet_mask = 0, do_router = 0, do_dns = 0, do_lease_time = 0\<rparr>"

definition options_ok :: "(u8 \<times> bytes) list \<Rightarrow> bool" where
  "options_ok os \<longleftrightarrow> (\<forall>(code, d) \<in> set os. code \<noteq> DHCP_OPT_PAD \<and> code \<noteq> DHCP_OPT_END \<and> length d \<le> 255)"

lemma dhcp_parse_options_encoded:
  assumes "options_ok os" and "int (length (encode_options os)) \<le> len"
  shows "dhcp_parse_options (encode_options os @ ys) len = Some (fold apply_option os no_options)"
  using parse_loop_options [of os "[]" len ys no_options] assms
  by (simp add: dhcp_parse_options_def options_ok_def)

lemma dhcp_reply_fields:
  fixes xid yiaddr :: u32 and os :: "(u8 \<times> bytes) list"
  assumes "length h1 = 3" and "length h2 = 8" and "length h3 = 216"
  defines "data \<equiv> dhcp_reply xid yiaddr h1 h2 h3 os"
  shows "aget data 0 = Some 2" and "load32 data 4 = Some (htonl xid)" and "ip_bytes_to_u32 (drop 16 data) = Some yiaddr"
    and "load_field data 236 4 = Some [0x63, 0x82, 0x53, 0x63]" and "drop 240 data = encode_options os"
    and "length data = 240 + length (encode_options os)"
proof -
  let ?r = "[0x63, 0x82, 0x53, 0x63] @ encode_options os"
  have d: "data = ([2] @ h1) @ mem32 (htonl xid) @ h2 @ ip_u32_to_bytes yiaddr @ h3 @ ?r"
    "data = ([2] @ h1 @ mem32 (htonl xid) @ h2 @ ip_u32_to_bytes yiaddr @ h3) @ [0x63, 0x82, 0x53, 0x63] @ encode_options os"
    by (simp_all add: data_def dhcp_reply_def)
  show "aget data 0 = Some 2" by (simp add: d(1))
  show "load32 data 4 = Some (htonl xid)" unfolding d(1) using assms(1) by (intro load32_mem32) simp
  have "drop 16 data = ip_u32_to_bytes yiaddr @ h3 @ ?r" using assms(1,2) by (simp add: d(1))
  then show "ip_bytes_to_u32 (drop 16 data) = Some yiaddr"
    using ip_u32_bytes_roundtrip [of yiaddr] by (simp add: ip_bytes_to_u32_def ip_u32_to_bytes_def aget_def)
  show "load_field data 236 4 = Some [0x63, 0x82, 0x53, 0x63]"
    unfolding d(2) using assms(1-3) by (intro load_field_append) simp_all
  show "drop 240 data = encode_options os" "length data = 240 + length (encode_options os)"
    using assms(1-3) by (simp_all add: d(1))
qed

lemma dhcp_handle_reply:
  assumes "dhcp_initialized c" and "dc_netif (dhcp_ctx c) = Some 0" and "netif_list (st_core s) \<noteq> []"
    and "length h1 = 3" and "length h2 = 8" and "length h3 = 216" and "options_ok os"
    and "data = dhcp_reply (dc_xid (dhcp_ctx c)) yiaddr h1 h2 h3 os"
  shows "dc_state (dhcp_ctx c) = DHCP_STATE_SELECTING \<Longrightarrow> dhcp_handle_packet None data (int (length data)) (c, s) =
      dhcp_handle_offer (Some 0) data (encode_options os) (int (length (encode_options os))) (c, s)"
    and "dc_state (dhcp_ctx c) = DHCP_STATE_REQUESTING \<Longrightarrow> dhcp_handle_packet None data (int (length data)) (c, s) =
      dhcp_handle_ack (Some 0) data (encode_options os) (int (length (encode_options os))) (c, s)"
proof -
  note f = dhcp_reply_fields [OF assms(4-6), of "dc_xid (dhcp_ctx c)" yiaddr os, folded assms(8)]
  have p: "dhcp_parse_options (encode_options os) (int (length (encode_options os))) = Some (fold apply_option os no_options)"
    using dhcp_parse_options_encoded [OF assms(7), of _ "[]"] by simp
  have n: "nat 236 + 4 = 240" "int (length data) - 236 - 4 = int (length (encode_options os))" "data \<noteq> []"
    "\<not> int (length data) < 240" using f(6) by auto
  show "dhcp_handle_packet None data (int (length data)) (c, s) =
      dhcp_handle_offer (Some 0) data (encode_options os) (int (length (encode_options os))) (c, s)"
    if "dc_state (dhcp_ctx c) = DHCP_STATE_SELECTING"
    using assms(1-3) f(1-5) p n that by (simp add: dhcp_handle_packet_def Let_def netif_get_default_def c_defs)
  show "dhcp_handle_packet None data (int (length data)) (c, s) =
      dhcp_handle_ack (Some 0) data (encode_options os) (int (length (encode_options os))) (c, s)"
    if "dc_state (dhcp_ctx c) = DHCP_STATE_REQUESTING"
    using assms(1-3) f(1-5) p n that by (simp add: dhcp_handle_packet_def Let_def netif_get_default_def c_defs)
qed

text \<open>The three steps of the exchange.\<close>

lemma transmit_netif_at: "netif_at (snd (transmit netif frame core)) p = netif_at core p"
  by (simp add: netif_at_def transmit_config split: option.split)

lemma dhcp_discover_effect:
  assumes "netif_at (st_core s) (Some 0) = Some ni" and "length (mac_addr ni) = 6" and "ni_send ni"
  obtains c1 s1 where "dhcp_discover (Some 0) (c, s) = Some (0, c1, s1)" and "dhcp_initialized c1"
    and "dc_netif (dhcp_ctx c1) = Some 0" and "dc_state (dhcp_ctx c1) = DHCP_STATE_SELECTING"
    and "netif_at (st_core s1) (Some 0) = Some ni" and "st_route s1 = st_route s"
    and "tx (st_core s1) = tx (st_core s) @ [(Via_Netif 0, dhcp_frame (mac_addr ni)
           (dhcp_message (dc_xid (dhcp_ctx c1)) (mac_addr ni) DHCPDISCOVER [55, 4, 1, 3, 6, 51]))]"
  by (rule that [OF dhcp_discover_eq [OF assms(1,2), of c]])
     (use assms(1,3) in \<open>auto simp: dhcp_init_def transmit_netif_at transmit_hooked [OF assms(1,3)]\<close>)

lemma dhcp_offer_effect:
  assumes "netif_at (st_core s) (Some 0) = Some ni" and "length (mac_addr ni) = 6" and "ni_send ni"
    and "options_ok os" and "r = fold apply_option os no_options" and "do_msg_type r = DHCPOFFER"
    and "ip_bytes_to_u32 (drop 16 data) = Some yiaddr" and "dc_netif (dhcp_ctx c) = Some 0" and "dhcp_initialized c"
  obtains c1 s1 where "dhcp_handle_offer (Some 0) data (encode_options os) (int (length (encode_options os))) (c, s) = Some (c1, s1)"
    and "dhcp_initialized c1" and "dc_netif (dhcp_ctx c1) = Some 0" and "dc_state (dhcp_ctx c1) = DHCP_STATE_REQUESTING"
    and "dc_xid (dhcp_ctx c1) = dc_xid (dhcp_ctx c)"
    and "netif_at (st_core s1) (Some 0) = Some ni" and "st_route s1 = st_route s"
    and "tx (st_core s1) = tx (st_core s) @ [(Via_Netif 0, dhcp_frame (mac_addr ni)
           (dhcp_message (dc_xid (dhcp_ctx c)) (mac_addr ni) DHCPREQUEST (request_options yiaddr (do_server_ip r))))]"
proof -
  have p: "dhcp_parse_options (encode_options os) (int (length (encode_options os))) = Some r"
    using dhcp_parse_options_encoded [OF assms(4), of _ "[]"] assms(5) by simp
  let ?c = "c\<lparr>dhcp_ctx := (dhcp_ctx c)\<lparr>dc_offered_ip := yiaddr, dc_server_ip := do_server_ip r\<rparr>\<rparr>"
  have "dhcp_handle_offer (Some 0) data (encode_options os) (int (length (encode_options os))) (c, s) =
      map_option snd (dhcp_send_request (Some 0) (?c, s))"
    using p assms(6,7) dhcp_send_request_eq [OF assms(1,2), of ?c] by (simp add: dhcp_handle_offer_def)
  note e = this [unfolded dhcp_send_request_eq [OF assms(1,2)] option.map snd_conv]
  show ?thesis
    by (rule that [OF e]) (use assms in \<open>auto simp: transmit_netif_at transmit_hooked [OF assms(1,3)]\<close>)
qed

lemma dhcp_ack_effect:
  assumes "netif_at (st_core s) (Some 0) = Some ni" and "options_ok os" and "r = fold apply_option os no_options"
    and "do_msg_type r = DHCPACK" and "ip_bytes_to_u32 (drop 16 data) = Some yiaddr"
    and "dc_netif (dhcp_ctx c) = Some 0" and "dhcp_initialized c"
  obtains c1 s1 where "dhcp_handle_ack (Some 0) data (encode_options os) (int (length (encode_options os))) (c, s) = Some (c1, s1)"
    and "dhcp_is_bound (Some 0) c1"
    and "netif_at (st_core s1) (Some 0) = Some (ni\<lparr>ip_addr := yiaddr, netmask := do_subnet_mask r,
      gateway := do_router r, dns_server := do_dns r\<rparr>)"
    and "st_route s1 = route_update_from_netif (Some 0) (st_core s1) (st_route s)"
proof -
  have p: "dhcp_parse_options (encode_options os) (int (length (encode_options os))) = Some r"
    using dhcp_parse_options_encoded [OF assms(2), of _ "[]"] assms(3) by simp
  have ni: "0 < length (netif_list (st_core s))" "netif_list (st_core s) ! 0 = ni"
    using assms(1) by (auto simp: netif_at_def aget_def split: if_splits)
  let ?core = "(st_core s)\<lparr>netif_list := (netif_list (st_core s))[0 := ni\<lparr>ip_addr := yiaddr,
    netmask := do_subnet_mask r, gateway := do_router r, dns_server := do_dns r\<rparr>]\<rparr>"
  have "dhcp_handle_ack (Some 0) data (encode_options os) (int (length (encode_options os))) (c, s) =
      Some (c\<lparr>dhcp_ctx := (dhcp_ctx c)\<lparr>dc_state := DHCP_STATE_BOUND, dc_lease_time := do_lease_time r\<rparr>\<rparr>,
        s\<lparr>st_core := ?core, st_route := route_update_from_netif (Some 0) ?core (st_route s)\<rparr>)"
    using p ni assms(4,5) by (simp add: dhcp_handle_ack_def set_netif_def c_defs)
  then show ?thesis
    by (rule that) (use assms(6,7) ni in \<open>auto simp: netif_at_def dhcp_is_bound_def dhcp_get_state_def\<close>)
qed

section \<open>Properties\<close>

text \<open>
  C25: whatever bytes arrive on the client port, the handler reads only inside the packet, ends, and
  keeps the state of the network stack well-formed.
\<close>

theorem dhcp_handle_packet_safe:
  assumes "dhcp_ok (c, s)" and "len \<le> int (length data)"
  shows "\<exists>c' s'. dhcp_handle_packet netif data len (c, s) = Some (c', s') \<and> dhcp_ok (c', s')"
  using dhcp_handle_packet_ok [OF assms, of netif] by auto

definition dhcp_example :: dhcp_state where
  "dhcp_example = \<lparr>dhcp_ctx = \<lparr>dc_netif = Some 0, dc_state = DHCP_STATE_INIT, dc_xid = 0, dc_offered_ip = 0,
     dc_server_ip = 0, dc_lease_time = 0, dc_renewal_time = 0, dc_rebind_time = 0, dc_discover_count = 0,
     dc_request_count = 0\<rparr>, dhcp_initialized = True, dhcp_xid_counter = 0x12345678\<rparr>"

lemma dhcp_example_ok: "dhcp_ok (dhcp_example, ip_stack_example)"
  using arp_empty_ok
  by (simp add: dhcp_ok_def dhcp_example_def ip_stack_ok_def ip_stack_example_def host_example_def
      core_ok_def routes_sized_def c_defs)

theorem dhcp_handle_packet_safe_witness:
  "\<exists>c' s'. dhcp_handle_packet None (replicate 300 2) 300 (dhcp_example, ip_stack_example) = Some (c', s') \<and>
     dhcp_ok (c', s')"
  using dhcp_handle_packet_safe [OF dhcp_example_ok, of 300 "replicate 300 2" None] by simp

text \<open>
  C26: the exchange DISCOVER, OFFER, REQUEST, ACK: the client asks for the address and server of the
  offer, and after the acknowledgement is bound, with its interface and routes configured as the
  server said, whatever the other fields and options of the messages are.
\<close>

theorem dhcp_handshake:
  assumes "dhcp_ok (c, s)" and "netif_at (st_core s) (Some 0) = Some ni" and "ni_send ni"
    and "length h1 = 3" and "length h2 = 8" and "length h3 = 216" and "options_ok os" and "options_ok os'"
    and "r = fold apply_option os no_options" and "do_msg_type r = DHCPOFFER"
    and "r' = fold apply_option os' no_options" and "do_msg_type r' = DHCPACK"
  shows "\<exists>c1 s1 c2 s2 c3 s3 xid.
    dhcp_discover (Some 0) (c, s) = Some (0, c1, s1) \<and> dhcp_get_state (Some 0) c1 = DHCP_STATE_SELECTING \<and>
    (let offer = dhcp_reply xid yiaddr h1 h2 h3 os in
       dhcp_handle_packet None offer (int (length offer)) (c1, s1) = Some (c2, s2)) \<and>
    tx (st_core s2) = tx (st_core s) @
      [(Via_Netif 0, dhcp_frame (mac_addr ni) (dhcp_message xid (mac_addr ni) DHCPDISCOVER [55, 4, 1, 3, 6, 51])),
       (Via_Netif 0, dhcp_frame (mac_addr ni)
          (dhcp_message xid (mac_addr ni) DHCPREQUEST (request_options yiaddr (do_server_ip r))))] \<and>
    (let ack = dhcp_reply xid yiaddr h1 h2 h3 os' in
       dhcp_handle_packet None ack (int (length ack)) (c2, s2) = Some (c3, s3)) \<and>
    dhcp_is_bound (Some 0) c3 \<and>
    netif_at (st_core s3) (Some 0) = Some (ni\<lparr>ip_addr := yiaddr, netmask := do_subnet_mask r',
      gateway := do_router r', dns_server := do_dns r'\<rparr>) \<and>
    st_route s3 = route_update_from_netif (Some 0) (st_core s3) (st_route s)"
proof -
  have list: "netif_list (st_core s) \<noteq> []" "length (mac_addr ni) = 6"
    using assms(1,2) by (auto simp: netif_at_def aget_def dhcp_ok_def ip_stack_ok_def core_ok_def split: if_splits)
  obtain c1 s1 where 1: "dhcp_discover (Some 0) (c, s) = Some (0, c1, s1)" "dhcp_initialized c1"
    "dc_netif (dhcp_ctx c1) = Some 0" "dc_state (dhcp_ctx c1) = DHCP_STATE_SELECTING"
    "netif_at (st_core s1) (Some 0) = Some ni" "st_route s1 = st_route s"
    "tx (st_core s1) = tx (st_core s) @ [(Via_Netif 0, dhcp_frame (mac_addr ni)
       (dhcp_message (dc_xid (dhcp_ctx c1)) (mac_addr ni) DHCPDISCOVER [55, 4, 1, 3, 6, 51]))]"
    by (rule dhcp_discover_effect [OF assms(2) list(2) assms(3)])
  define xid where "xid = dc_xid (dhcp_ctx c1)"
  note reply = dhcp_reply_fields(3) [OF assms(4-6)]
  obtain c2 s2 where 2: "dhcp_handle_offer (Some 0) (dhcp_reply xid yiaddr h1 h2 h3 os) (encode_options os)
      (int (length (encode_options os))) (c1, s1) = Some (c2, s2)"
    "dhcp_initialized c2" "dc_netif (dhcp_ctx c2) = Some 0" "dc_state (dhcp_ctx c2) = DHCP_STATE_REQUESTING"
    "dc_xid (dhcp_ctx c2) = xid" "netif_at (st_core s2) (Some 0) = Some ni" "st_route s2 = st_route s1"
    "tx (st_core s2) = tx (st_core s1) @ [(Via_Netif 0, dhcp_frame (mac_addr ni)
       (dhcp_message xid (mac_addr ni) DHCPREQUEST (request_options yiaddr (do_server_ip r))))]"
    unfolding xid_def
    by (rule dhcp_offer_effect [OF 1(5) list(2) assms(3,7,9,10) reply 1(3,2)])
  obtain c3 s3 where 3: "dhcp_handle_ack (Some 0) (dhcp_reply xid yiaddr h1 h2 h3 os') (encode_options os')
      (int (length (encode_options os'))) (c2, s2) = Some (c3, s3)" "dhcp_is_bound (Some 0) c3"
    "netif_at (st_core s3) (Some 0) = Some (ni\<lparr>ip_addr := yiaddr, netmask := do_subnet_mask r',
      gateway := do_router r', dns_server := do_dns r'\<rparr>)"
    "st_route s3 = route_update_from_netif (Some 0) (st_core s3) (st_route s2)"
    by (rule dhcp_ack_effect [OF 2(6) assms(8,11,12) reply 2(3,2)])
  have lists: "netif_list (st_core s1) \<noteq> []" "netif_list (st_core s2) \<noteq> []"
    using 1(5) 2(6) by (auto simp: netif_at_def)
  have h: "dhcp_handle_packet None (dhcp_reply xid yiaddr h1 h2 h3 os)
      (int (length (dhcp_reply xid yiaddr h1 h2 h3 os))) (c1, s1) = Some (c2, s2)"
    "dhcp_handle_packet None (dhcp_reply xid yiaddr h1 h2 h3 os')
      (int (length (dhcp_reply xid yiaddr h1 h2 h3 os'))) (c2, s2) = Some (c3, s3)"
    using dhcp_handle_reply(1) [OF 1(2,3) lists(1) assms(4-7) refl 1(4), folded xid_def] 2(1)
      dhcp_handle_reply(2) [OF 2(2,3) lists(2) assms(4-6,8) refl 2(4), unfolded 2(5)] 3(1) by simp_all
  have "dhcp_get_state (Some 0) c1 = DHCP_STATE_SELECTING" using 1(2-4) by (simp add: dhcp_get_state_def)
  then show ?thesis
    using 1(1,6,7) 2(7,8) 3(2-4) h unfolding Let_def xid_def
    by (intro exI [of _ c1] exI [of _ s1] exI [of _ c2] exI [of _ s2] exI [of _ c3] exI [of _ s3]
        exI [of _ "dc_xid (dhcp_ctx c1)"]) simp
qed

definition offer_options :: "(u8 \<times> bytes) list" where
  "offer_options = [(53, [2]), (54, [10, 0, 2, 2])]"

definition ack_options :: "(u8 \<times> bytes) list" where
  "ack_options = [(53, [5]), (54, [10, 0, 2, 2]), (1, [255, 255, 255, 0]), (3, [10, 0, 2, 2]), (6, [10, 0, 2, 3]), (51, [0, 1, 81, 128])]"

theorem dhcp_handshake_witness:
  "\<exists>c1 s1 c2 s2 c3 s3 xid ni. dhcp_discover (Some 0) (dhcp_example, ip_stack_example) = Some (0, c1, s1) \<and>
    (let offer = dhcp_reply xid 0x0A00020F (replicate 3 0) (replicate 8 0) (replicate 216 0) offer_options in
       dhcp_handle_packet None offer (int (length offer)) (c1, s1) = Some (c2, s2)) \<and>
    (let ack = dhcp_reply xid 0x0A00020F (replicate 3 0) (replicate 8 0) (replicate 216 0) ack_options in
       dhcp_handle_packet None ack (int (length ack)) (c2, s2) = Some (c3, s3)) \<and>
    dhcp_is_bound (Some 0) c3 \<and> netif_at (st_core s3) (Some 0) = Some ni \<and>
    ip_addr ni = 0x0A00020F \<and> gateway ni = 0x0A000202"
proof -
  let ?ni = "netif_list (st_core ip_stack_example) ! 0"
  have ni: "netif_at (st_core ip_stack_example) (Some 0) = Some ?ni" "ni_send ?ni"
    by (simp_all add: ip_stack_example_def host_example_def netif_at_def)
  have o: "options_ok offer_options" "options_ok ack_options"
    by (simp_all add: options_ok_def offer_options_def ack_options_def c_defs)
  have r: "do_msg_type (fold apply_option offer_options no_options) = DHCPOFFER"
    "do_msg_type (fold apply_option ack_options no_options) = DHCPACK"
    "do_router (fold apply_option ack_options no_options) = 0x0A000202"
    by (simp_all add: offer_options_def ack_options_def Let_def c_defs ip_bytes_to_u32_def aget_def)
  show ?thesis
    using dhcp_handshake [OF dhcp_example_ok ni, of "replicate 3 0" "replicate 8 0" "replicate 216 0",
        OF _ _ _ o refl r(1) refl r(2), of "0x0A00020F"] r(3)
    by (simp add: Let_def) fastforce
qed

end
