(* ===== verification/Tcp.thy ===== *)
theory Tcp
  imports Udp Kheap
begin

text \<open>
  TCP, \<^verbatim>\<open>net/l4/tcp.c\<close>: the socket table on the kernel heap, the segments it sends, the state machine
  for received segments with the circular receive buffers, and the socket interface.

  A pointer to a socket is the address of the table it points into and an index. The table moves
  when it grows, so an older pointer is dangling: using it is undefined behaviour. Wait queues are
  the business of the scheduler; the calls that initialise and wake them are recorded in order.
\<close>

section \<open>Model of the source\<close>

definition TCP_HEADER_SIZE :: int where [c_defs]: "TCP_HEADER_SIZE = 20"
definition TCP_INITIAL_SOCKETS :: int where [c_defs]: "TCP_INITIAL_SOCKETS = 8"
definition TCP_MAX_SOCKETS :: int where [c_defs]: "TCP_MAX_SOCKETS = 256"
definition TCP_RECV_BUFFER_SIZE :: u16 where [c_defs]: "TCP_RECV_BUFFER_SIZE = 4096"
definition TCP_WINDOW_SIZE :: u16 where [c_defs]: "TCP_WINDOW_SIZE = 4096"
definition TCP_FLAG_FIN :: u8 where [c_defs]: "TCP_FLAG_FIN = 0x01"
definition TCP_FLAG_SYN :: u8 where [c_defs]: "TCP_FLAG_SYN = 0x02"
definition TCP_FLAG_RST :: u8 where [c_defs]: "TCP_FLAG_RST = 0x04"
definition TCP_FLAG_PSH :: u8 where [c_defs]: "TCP_FLAG_PSH = 0x08"
definition TCP_FLAG_ACK :: u8 where [c_defs]: "TCP_FLAG_ACK = 0x10"

datatype tcp_state = TCP_STATE_CLOSED | TCP_STATE_LISTEN | TCP_STATE_SYN_SENT | TCP_STATE_SYN_RCVD
  | TCP_STATE_ESTABLISHED | TCP_STATE_FIN_WAIT_1 | TCP_STATE_FIN_WAIT_2 | TCP_STATE_CLOSE_WAIT
  | TCP_STATE_CLOSING | TCP_STATE_LAST_ACK | TCP_STATE_TIME_WAIT

record tcp_socket =
  t_state :: tcp_state
  in_use :: bool
  local_port :: u16
  remote_port :: u16
  remote_ip :: bytes
  t_seq :: u32
  t_ack :: u32
  t_window :: u16
  t_flags :: u8
  recv_buffer :: bytes
  recv_head :: u16
  recv_tail :: u16
  recv_count :: u16

datatype tcp_queue = State_Queue | Recv_Queue | Accept_Queue
datatype queue_call = Queue_Init nat tcp_queue | Queue_Wake_All nat tcp_queue

record tcp_table =
  tcp_sockets :: "tcp_socket list"
  tcp_base :: u64
  tcp_socket_capacity :: int
  tcp_socket_count :: int
  tcp_heap :: kheap_state
  tcp_queues :: "queue_call list"

type_synonym sock_ptr = "u64 \<times> nat"

text \<open>The size of the structure on the 64-bit machine, with its three wait queues of 24 bytes.\<close>

definition sizeof_tcp_socket :: u64 where [c_defs]: "sizeof_tcp_socket = 4208"

definition sock_at :: "tcp_table \<Rightarrow> sock_ptr \<Rightarrow> tcp_socket option" where
  "sock_at t p = (if fst p = tcp_base t then aget (tcp_sockets t) (snd p) else None)"

definition set_sock :: "sock_ptr \<Rightarrow> (tcp_socket \<Rightarrow> tcp_socket) \<Rightarrow> tcp_table \<Rightarrow> tcp_table option" where
  "set_sock p f t = do {
     sock \<leftarrow> sock_at t p;
     Some (t\<lparr>tcp_sockets := (tcp_sockets t)[snd p := f sock]\<rparr>)
   }"

definition queue_calls :: "queue_call list \<Rightarrow> tcp_table \<Rightarrow> tcp_table" where
  "queue_calls qs t = t\<lparr>tcp_queues := tcp_queues t @ qs\<rparr>"

definition init_queues :: "nat \<Rightarrow> queue_call list" where
  "init_queues i = [Queue_Init i State_Queue, Queue_Init i Recv_Queue, Queue_Init i Accept_Queue]"

subsection \<open>Segments\<close>

definition tcp_get_flags :: "u16 \<Rightarrow> u8" where
  "tcp_get_flags data_offset_flags = ucast (data_offset_flags AND 0x3F)"

definition tcp_get_header_len :: "u16 \<Rightarrow> int" where
  "tcp_get_header_len data_offset_flags = uint (drop_bit 12 data_offset_flags AND 0x0F) * 4"

definition tcp_make_data_offset_flags :: "int \<Rightarrow> u8 \<Rightarrow> u16" where
  "tcp_make_data_offset_flags header_len flags =
     push_bit 12 (of_int (header_len div 4)) OR ucast (flags AND 0x3F)"

text \<open>Summing big-endian words; an odd last byte is the high half of a word.\<close>

function be_sum :: "bytes \<Rightarrow> int \<Rightarrow> u32 \<Rightarrow> u32 option" where
  "be_sum ptr remaining acc =
     (if remaining > 1 then do {
        hi \<leftarrow> aget ptr 0; lo \<leftarrow> aget ptr 1;
        be_sum (drop 2 ptr) (remaining - 2) (acc + ucast (push_bit 8 (ucast hi) OR ucast lo :: u16))
      }
      else if remaining = 1 then do { hi \<leftarrow> aget ptr 0; Some (acc + ucast (push_bit 8 (ucast hi) :: u16)) }
      else Some acc)"
  by pat_completeness auto
termination by (relation "measure (\<lambda>(p, n, a). nat n)") auto

declare be_sum.simps [simp del]

definition tcp_checksum :: "bytes \<Rightarrow> bytes \<Rightarrow> bytes \<Rightarrow> bytes \<Rightarrow> int \<Rightarrow> u16 option" where
  "tcp_checksum src_ip dest_ip tcp_hdr data data_len = do {
     let tcp_len = TCP_HEADER_SIZE + data_len;
     acc \<leftarrow> be_sum src_ip 4 0;
     acc \<leftarrow> be_sum dest_ip 4 acc;
     let acc = acc + ucast IP_PROTO_TCP + ucast (of_int tcp_len :: u16);
     acc \<leftarrow> be_sum tcp_hdr TCP_HEADER_SIZE acc;
     acc \<leftarrow> be_sum data data_len acc;
     Some (htons (ucast (NOT (fold_carry acc))))
   }"

definition tcp_header :: "u16 \<Rightarrow> u16 \<Rightarrow> u32 \<Rightarrow> u32 \<Rightarrow> u8 \<Rightarrow> u16 \<Rightarrow> u16 \<Rightarrow> bytes" where
  "tcp_header src_port dest_port seq_num ack_num flags window_size checksum =
     mem16 (htons src_port) @ mem16 (htons dest_port) @ mem32 (htonl seq_num) @ mem32 (htonl ack_num) @
     mem16 (htons (tcp_make_data_offset_flags TCP_HEADER_SIZE flags)) @ mem16 window_size @
     mem16 checksum @ mem16 0"

subsection \<open>The table\<close>

definition tcp_init_socket :: "tcp_socket \<Rightarrow> tcp_socket" where
  "tcp_init_socket sock = sock\<lparr>in_use := False, t_state := TCP_STATE_CLOSED, local_port := 0, remote_port := 0,
     t_seq := 0, t_ack := 0, t_window := 8192, t_flags := 0, recv_head := 0, recv_tail := 0, recv_count := 0,
     remote_ip := [0, 0, 0, 0]\<rparr>"

text \<open>A slot of freshly allocated memory; its contents are never read before they are written.\<close>

definition raw_slot :: tcp_socket where
  "raw_slot = \<lparr>t_state = TCP_STATE_CLOSED, in_use = False, local_port = 0, remote_port = 0, remote_ip = [0, 0, 0, 0],
     t_seq = 0, t_ack = 0, t_window = 0, t_flags = 0, recv_buffer = replicate 4096 0, recv_head = 0, recv_tail = 0,
     recv_count = 0\<rparr>"

definition tcp_grow_sockets :: "tcp_table \<Rightarrow> (bool \<times> tcp_table) option" where
  "tcp_grow_sockets t =
     (if tcp_socket_capacity t \<ge> TCP_MAX_SOCKETS then Some (False, t)
      else do {
        let new_capacity = tcp_socket_capacity t * 2;
        let new_capacity = (if new_capacity > TCP_MAX_SOCKETS then TCP_MAX_SOCKETS else new_capacity);
        let new_capacity = (if new_capacity < TCP_INITIAL_SOCKETS then TCP_INITIAL_SOCKETS else new_capacity);
        (new_sockets, heap) \<leftarrow> kmalloc (of_int new_capacity * sizeof_tcp_socket) (tcp_heap t);
        if new_sockets = 0 then Some (False, t\<lparr>tcp_heap := heap\<rparr>)
        else do {
          heap \<leftarrow> (if tcp_base t \<noteq> 0 \<and> tcp_socket_capacity t > 0 then kfree (tcp_base t) heap else Some heap);
          let fresh = nat (new_capacity - tcp_socket_capacity t);
          let old = nat (tcp_socket_capacity t);
          Some (True, queue_calls (concat (map (\<lambda>i. init_queues (old + i)) [0..<fresh]))
            (t\<lparr>tcp_sockets := tcp_sockets t @ replicate fresh (tcp_init_socket raw_slot),
               tcp_base := new_sockets, tcp_socket_capacity := new_capacity, tcp_heap := heap\<rparr>))
        }
      })"

definition tcp_init :: "tcp_table \<Rightarrow> tcp_table option" where
  "tcp_init t = do {
     (ok, t) \<leftarrow> tcp_grow_sockets (t\<lparr>tcp_sockets := [], tcp_base := 0, tcp_socket_capacity := 0, tcp_socket_count := 0\<rparr>);
     Some t
   }"

definition take_slot :: "nat \<Rightarrow> tcp_table \<Rightarrow> tcp_table" where
  "take_slot i t = t\<lparr>tcp_sockets := (tcp_sockets t)[i := (tcp_sockets t ! i)\<lparr>in_use := True\<rparr>],
     tcp_socket_count := tcp_socket_count t + 1\<rparr>"

definition tcp_alloc_socket :: "tcp_table \<Rightarrow> (sock_ptr option \<times> tcp_table) option" where
  "tcp_alloc_socket t = (case first_index (\<lambda>k. \<not> in_use k) (tcp_sockets t) of
     Some i \<Rightarrow> Some (Some (tcp_base t, i), take_slot i t)
   | None \<Rightarrow> do {
       (ok, t) \<leftarrow> tcp_grow_sockets t;
       if ok then
         (case first_index (\<lambda>k. \<not> in_use k) (tcp_sockets t) of
            Some i \<Rightarrow> Some (Some (tcp_base t, i), take_slot i t)
          | None \<Rightarrow> Some (None, t))
       else Some (None, t)
     })"

definition find_sock :: "(tcp_socket \<Rightarrow> bool) \<Rightarrow> tcp_table \<Rightarrow> sock_ptr option" where
  "find_sock P t = map_option (Pair (tcp_base t)) (first_index (\<lambda>k. in_use k \<and> P k) (tcp_sockets t))"

definition tcp_find_listening_socket :: "u16 \<Rightarrow> tcp_table \<Rightarrow> sock_ptr option" where
  "tcp_find_listening_socket port = find_sock (\<lambda>k. local_port k = port \<and> t_state k = TCP_STATE_LISTEN)"

definition tcp_find_ready_client :: "u16 \<Rightarrow> tcp_table \<Rightarrow> sock_ptr option" where
  "tcp_find_ready_client port = find_sock (\<lambda>k. local_port k = port \<and> t_state k = TCP_STATE_ESTABLISHED)"

definition tcp_find_socket_by_local_port :: "u16 \<Rightarrow> tcp_table \<Rightarrow> sock_ptr option" where
  "tcp_find_socket_by_local_port port = find_sock (\<lambda>k. local_port k = port)"

definition tcp_find_socket :: "u16 \<Rightarrow> bytes \<Rightarrow> u16 \<Rightarrow> tcp_table \<Rightarrow> sock_ptr option" where
  "tcp_find_socket lport rip rport =
     find_sock (\<lambda>k. local_port k = lport \<and> remote_port k = rport \<and> remote_ip k ! 0 = rip ! 0 \<and>
       remote_ip k ! 1 = rip ! 1 \<and> remote_ip k ! 2 = rip ! 2 \<and> remote_ip k ! 3 = rip ! 3)"

definition tcp_listen :: "u16 \<Rightarrow> tcp_table \<Rightarrow> (sock_ptr option \<times> tcp_table) option" where
  "tcp_listen port t =
     (if tcp_find_socket_by_local_port port t \<noteq> None then Some (None, t)
      else do {
        (sock, t) \<leftarrow> tcp_alloc_socket t;
        case sock of
          None \<Rightarrow> Some (None, t)
        | Some p \<Rightarrow> do {
            t \<leftarrow> set_sock p (\<lambda>k. k\<lparr>t_state := TCP_STATE_LISTEN, local_port := port, remote_port := 0, t_seq := 0,
                   t_ack := 0, t_window := 8192, t_flags := 0, remote_ip := [0, 0, 0, 0]\<rparr>) t;
            Some (Some p, t)
          }
      })"

subsection \<open>Sending\<close>

type_synonym tcp_world = "tcp_table \<times> ip_stack"

definition tcp_send_rst :: "bytes \<Rightarrow> u16 \<Rightarrow> u16 \<Rightarrow> u32 \<Rightarrow> u32 \<Rightarrow> ip_stack \<Rightarrow> ip_stack option" where
  "tcp_send_rst dest_ip dest_port src_port seq_num ack_num s = do {
     let header = tcp_header src_port dest_port seq_num ack_num (TCP_FLAG_RST OR TCP_FLAG_ACK) 0;
     let netif = netif_get_default (st_core s);
     checksum \<leftarrow> tcp_checksum (my_ip netif (st_core s)) dest_ip (header 0) [] 0;
     let buffer = header checksum;
     case route_get_next_hop dest_ip (st_route s) of
       None \<Rightarrow> Some s
     | Some next_hop \<Rightarrow>
         (case arp_cache_lookup next_hop (st_arp s) of
            None \<Rightarrow> Some s
          | Some dest_mac \<Rightarrow> ipv4_send_packet netif dest_mac dest_ip IP_PROTO_TCP buffer TCP_HEADER_SIZE s)
   }"

definition seq_advance :: "u8 \<Rightarrow> int \<Rightarrow> int" where
  "seq_advance flags len =
     (if flags AND TCP_FLAG_SYN \<noteq> 0 then 1 else 0) + (if flags AND TCP_FLAG_FIN \<noteq> 0 then 1 else 0) +
     (if len > 0 then len else 0)"

definition tcp_send_packet :: "sock_ptr option \<Rightarrow> u8 \<Rightarrow> bytes \<Rightarrow> int \<Rightarrow> tcp_world \<Rightarrow> tcp_world option" where
  "tcp_send_packet sock flags payload len = (\<lambda>(t, s). case sock of
     None \<Rightarrow> Some (t, s)
   | Some p \<Rightarrow>
       if len > 1500 - TCP_HEADER_SIZE then Some (t, s)
       else do {
         k \<leftarrow> sock_at t p;
         let header = tcp_header (local_port k) (remote_port k) (t_seq k) (t_ack k) flags (htons (t_window k));
         data \<leftarrow> load_field payload 0 (nat len);
         let netif = netif_get_default (st_core s);
         checksum \<leftarrow> tcp_checksum (my_ip netif (st_core s)) (remote_ip k) (header 0) data len;
         let buffer = header checksum @ data;
         case route_get_next_hop (remote_ip k) (st_route s) of
           None \<Rightarrow> Some (t, s)
         | Some next_hop \<Rightarrow>
             (case arp_cache_lookup next_hop (st_arp s) of
                None \<Rightarrow> Some (t, s\<lparr>st_core := arp_send_request netif next_hop (st_core s)\<rparr>)
              | Some dest_mac \<Rightarrow> do {
                  s \<leftarrow> ipv4_send_packet netif dest_mac (remote_ip k) IP_PROTO_TCP buffer (TCP_HEADER_SIZE + len) s;
                  t \<leftarrow> set_sock p (\<lambda>k. k\<lparr>t_seq := t_seq k + of_int (seq_advance flags len)\<rparr>) t;
                  Some (t, s)
                })
       })"

text \<open>The reset of a socket that the two closing operations share.\<close>

definition tcp_reset_sock :: "tcp_state \<Rightarrow> u16 \<Rightarrow> tcp_socket \<Rightarrow> tcp_socket" where
  "tcp_reset_sock st port k = k\<lparr>t_state := st, remote_port := 0, t_seq := 0, t_ack := 0, t_flags := 0,
     recv_head := 0, recv_tail := 0, recv_count := 0, remote_ip := [0, 0, 0, 0], local_port := port\<rparr>"

definition tcp_send_fin :: "sock_ptr \<Rightarrow> tcp_world \<Rightarrow> tcp_world option" where
  "tcp_send_fin p w = do {
     k \<leftarrow> sock_at (fst w) p;
     if t_state k = TCP_STATE_ESTABLISHED \<or> t_state k = TCP_STATE_CLOSE_WAIT
     then tcp_send_packet (Some p) (TCP_FLAG_FIN OR TCP_FLAG_ACK) [] 0 w
     else Some w
   }"

definition tcp_close :: "sock_ptr option \<Rightarrow> tcp_world \<Rightarrow> tcp_world option" where
  "tcp_close sock w = (case sock of
     None \<Rightarrow> Some w
   | Some p \<Rightarrow> do {
       (t, s) \<leftarrow> tcp_send_fin p w;
       t \<leftarrow> set_sock p (\<lambda>k. (tcp_reset_sock TCP_STATE_CLOSED 0 k)\<lparr>in_use := False\<rparr>) t;
       Some (queue_calls [Queue_Wake_All (snd p) State_Queue] (t\<lparr>tcp_socket_count := tcp_socket_count t - 1\<rparr>), s)
     })"

definition tcp_close_and_relisten :: "sock_ptr option \<Rightarrow> u16 \<Rightarrow> tcp_world \<Rightarrow> tcp_world option" where
  "tcp_close_and_relisten sock listen_port w = (case sock of
     None \<Rightarrow> Some w
   | Some p \<Rightarrow> do {
       (t, s) \<leftarrow> tcp_send_fin p w;
       t \<leftarrow> set_sock p (tcp_reset_sock TCP_STATE_LISTEN listen_port) t;
       Some (queue_calls [Queue_Wake_All (snd p) State_Queue] t, s)
     })"

subsection \<open>Receiving\<close>

text \<open>The loop that stores a payload; in one of its two copies it stops when the buffer is full.\<close>

definition store_byte :: "u8 \<Rightarrow> tcp_socket \<Rightarrow> tcp_socket option" where
  "store_byte b k = do {
     buf \<leftarrow> aset (recv_buffer k) (unat (recv_head k)) b;
     Some (k\<lparr>recv_buffer := buf, recv_head := (recv_head k + 1) mod TCP_RECV_BUFFER_SIZE,
             recv_count := recv_count k + 1\<rparr>)
   }"

fun store_loop :: "bool \<Rightarrow> nat \<Rightarrow> bytes \<Rightarrow> nat \<Rightarrow> tcp_socket \<Rightarrow> tcp_socket option" where
  "store_loop stop 0 data i k = Some k"
| "store_loop stop (Suc n) data i k =
     (if recv_count k < TCP_RECV_BUFFER_SIZE then do {
        b \<leftarrow> aget data i;
        k \<leftarrow> store_byte b k;
        store_loop stop n data (i + 1) k
      }
      else if stop then Some k
      else store_loop stop n data (i + 1) k)"

definition wake_listener :: "u16 \<Rightarrow> tcp_table \<Rightarrow> tcp_table" where
  "wake_listener port t = (case tcp_find_listening_socket port t of
     Some l \<Rightarrow> queue_calls [Queue_Wake_All (snd l) Accept_Queue] t
   | None \<Rightarrow> t)"

text \<open>Storing the payload of a segment and acknowledging it.\<close>

definition receive_data :: "bool \<Rightarrow> sock_ptr \<Rightarrow> bytes \<Rightarrow> int \<Rightarrow> int \<Rightarrow> u32 \<Rightarrow> tcp_world \<Rightarrow> tcp_world option" where
  "receive_data stop p data len header_len seq_num = (\<lambda>(t, s). do {
     let payload_len = len - header_len;
     k \<leftarrow> sock_at t p;
     k \<leftarrow> store_loop stop (nat payload_len) data (nat header_len) k;
     t \<leftarrow> set_sock p (\<lambda>_. k\<lparr>t_ack := seq_num + of_int payload_len\<rparr>) t;
     (t, s) \<leftarrow> tcp_send_packet (Some p) TCP_FLAG_ACK [] 0 (t, s);
     Some (queue_calls [Queue_Wake_All (snd p) Recv_Queue] t, s)
   })"

text \<open>What a reset, and the last acknowledgement, do to the socket.\<close>

definition back_to_listen :: "tcp_socket \<Rightarrow> tcp_socket" where
  "back_to_listen k = k\<lparr>t_state := TCP_STATE_LISTEN, remote_port := 0, remote_ip := [0, 0, 0, 0]\<rparr>"

definition handle_listen ::
  "sock_ptr \<Rightarrow> bytes \<Rightarrow> u16 \<Rightarrow> u16 \<Rightarrow> u32 \<Rightarrow> u8 \<Rightarrow> u64 \<Rightarrow> tcp_world \<Rightarrow> tcp_world option" where
  "handle_listen p src_ip src_port dest_port seq_num flags ticks = (\<lambda>(t, s).
     if flags AND TCP_FLAG_SYN \<noteq> 0 then do {
       (client, t) \<leftarrow> tcp_alloc_socket t;
       case client of
         None \<Rightarrow> do { s \<leftarrow> tcp_send_rst src_ip src_port dest_port 0 (seq_num + 1) s; Some (t, s) }
       | Some c \<Rightarrow> do {
           listener \<leftarrow> sock_at t p;
           t \<leftarrow> set_sock c (\<lambda>k. k\<lparr>local_port := local_port listener, remote_ip := src_ip, remote_port := src_port,
                  t_seq := ucast ticks * 12345, t_ack := seq_num + 1, t_state := TCP_STATE_SYN_RCVD,
                  t_window := TCP_WINDOW_SIZE\<rparr>) t;
           tcp_send_packet (Some c) (TCP_FLAG_SYN OR TCP_FLAG_ACK) [] 0 (queue_calls (init_queues (snd c)) t, s)
         }
     }
     else Some (t, s))"

definition establish :: "sock_ptr \<Rightarrow> tcp_table \<Rightarrow> tcp_table option" where
  "establish p t = do {
     t \<leftarrow> set_sock p (\<lambda>k. k\<lparr>t_state := TCP_STATE_ESTABLISHED\<rparr>) t;
     let t = queue_calls [Queue_Wake_All (snd p) State_Queue] t;
     k \<leftarrow> sock_at t p;
     Some (wake_listener (local_port k) t)
   }"

definition handle_syn_rcvd ::
  "sock_ptr \<Rightarrow> bytes \<Rightarrow> int \<Rightarrow> int \<Rightarrow> u32 \<Rightarrow> u32 \<Rightarrow> u8 \<Rightarrow> tcp_world \<Rightarrow> tcp_world option" where
  "handle_syn_rcvd p data len header_len seq_num ack_num flags = (\<lambda>(t, s).
     if flags AND TCP_FLAG_SYN \<noteq> 0 \<and> flags AND TCP_FLAG_ACK = 0 then do {
       t \<leftarrow> set_sock p (\<lambda>k. k\<lparr>t_seq := t_seq k - 1\<rparr>) t;
       tcp_send_packet (Some p) (TCP_FLAG_SYN OR TCP_FLAG_ACK) [] 0 (t, s)
     }
     else do {
       k \<leftarrow> sock_at t p;
       (t, s) \<leftarrow>
         (if flags AND TCP_FLAG_ACK \<noteq> 0 then
            if ack_num = t_seq k then do {
              t \<leftarrow> establish p t;
              if len > header_len then receive_data False p data len header_len seq_num (t, s) else Some (t, s)
            }
            else
              let diff = sint (ack_num - t_seq k) in
              if diff \<ge> - 1 \<and> diff \<le> 1 then do { t \<leftarrow> establish p t; Some (t, s) } else Some (t, s)
          else Some (t, s));
       if flags AND TCP_FLAG_RST \<noteq> 0 then do { t \<leftarrow> set_sock p back_to_listen t; Some (t, s) } else Some (t, s)
     })"

text \<open>Acknowledge a FIN and move to the given state.\<close>

definition ack_fin :: "sock_ptr \<Rightarrow> u32 \<Rightarrow> tcp_state \<Rightarrow> tcp_world \<Rightarrow> tcp_world option" where
  "ack_fin p seq_num st w = do {
     t \<leftarrow> set_sock p (\<lambda>k. k\<lparr>t_ack := seq_num + 1\<rparr>) (fst w);
     (t, s) \<leftarrow> tcp_send_packet (Some p) TCP_FLAG_ACK [] 0 (t, snd w);
     t \<leftarrow> set_sock p (\<lambda>k. k\<lparr>t_state := st\<rparr>) t;
     Some (t, s)
   }"

definition handle_established ::
  "sock_ptr \<Rightarrow> bytes \<Rightarrow> int \<Rightarrow> int \<Rightarrow> u32 \<Rightarrow> u8 \<Rightarrow> tcp_world \<Rightarrow> tcp_world option" where
  "handle_established p data len header_len seq_num flags w = do {
     w \<leftarrow> (if len > header_len then receive_data True p data len header_len seq_num w else Some w);
     (t, s) \<leftarrow>
       (if flags AND TCP_FLAG_FIN \<noteq> 0 then do {
          w \<leftarrow> ack_fin p seq_num TCP_STATE_CLOSE_WAIT w;
          (t, s) \<leftarrow> tcp_send_packet (Some p) (TCP_FLAG_FIN OR TCP_FLAG_ACK) [] 0 w;
          t \<leftarrow> set_sock p (\<lambda>k. k\<lparr>t_state := TCP_STATE_LAST_ACK\<rparr>) t;
          Some (t, s)
        } else Some w);
     if flags AND TCP_FLAG_RST \<noteq> 0 then do {
       t \<leftarrow> set_sock p back_to_listen t;
       Some (queue_calls [Queue_Wake_All (snd p) State_Queue] t, s)
     }
     else Some (t, s)
   }"

definition wake_state :: "sock_ptr \<Rightarrow> tcp_world \<Rightarrow> tcp_world" where
  "wake_state p w = (queue_calls [Queue_Wake_All (snd p) State_Queue] (fst w), snd w)"

definition handle_closing_states ::
  "sock_ptr \<Rightarrow> tcp_state \<Rightarrow> u32 \<Rightarrow> u8 \<Rightarrow> tcp_world \<Rightarrow> tcp_world option" where
  "handle_closing_states p st seq_num flags w =
     (let ACK = flags AND TCP_FLAG_ACK \<noteq> 0; FIN = flags AND TCP_FLAG_FIN \<noteq> 0 in
      case st of
        TCP_STATE_FIN_WAIT_1 \<Rightarrow>
          if ACK then
            if FIN then map_option (wake_state p) (ack_fin p seq_num TCP_STATE_TIME_WAIT w)
            else do { t \<leftarrow> set_sock p (\<lambda>k. k\<lparr>t_state := TCP_STATE_FIN_WAIT_2\<rparr>) (fst w); Some (wake_state p (t, snd w)) }
          else if FIN then map_option (wake_state p) (ack_fin p seq_num TCP_STATE_CLOSING w)
          else Some w
      | TCP_STATE_FIN_WAIT_2 \<Rightarrow>
          if FIN then map_option (wake_state p) (ack_fin p seq_num TCP_STATE_TIME_WAIT w) else Some w
      | TCP_STATE_CLOSING \<Rightarrow>
          if ACK then do { t \<leftarrow> set_sock p (\<lambda>k. k\<lparr>t_state := TCP_STATE_TIME_WAIT\<rparr>) (fst w); Some (wake_state p (t, snd w)) }
          else Some w
      | TCP_STATE_TIME_WAIT \<Rightarrow> if FIN then tcp_send_packet (Some p) TCP_FLAG_ACK [] 0 w else Some w
      | TCP_STATE_LAST_ACK \<Rightarrow>
          if ACK then do { t \<leftarrow> set_sock p back_to_listen (fst w); Some (t, snd w) } else Some w
      | _ \<Rightarrow> Some w)"

definition tcp_handle_packet :: "bytes \<Rightarrow> bytes \<Rightarrow> int \<Rightarrow> u64 \<Rightarrow> tcp_world \<Rightarrow> tcp_world option" where
  "tcp_handle_packet ip_hdr data len ticks = (\<lambda>(t, s).
     if len < TCP_HEADER_SIZE then Some (t, s)
     else do {
       sp \<leftarrow> load16 data 0; dp \<leftarrow> load16 data 2; sq \<leftarrow> load32 data 4; ak \<leftarrow> load32 data 8; ff \<leftarrow> load16 data 12;
       let src_port = ntohs sp;
       let dest_port = ntohs dp;
       let seq_num = ntohl sq;
       let ack_num = ntohl ak;
       let flags_field = ntohs ff;
       let flags = tcp_get_flags flags_field;
       let header_len = tcp_get_header_len flags_field;
       src_ip \<leftarrow> load_field ip_hdr 12 4;
       let sock = tcp_find_socket dest_port src_ip src_port t;
       let sock = (if sock = None \<and> flags AND TCP_FLAG_SYN \<noteq> 0 \<and> flags AND TCP_FLAG_ACK = 0
                   then tcp_find_listening_socket dest_port t else sock);
       case sock of
         None \<Rightarrow>
           if flags AND TCP_FLAG_RST = 0 then do {
             s \<leftarrow> tcp_send_rst src_ip src_port dest_port ack_num (seq_num + 1) s;
             Some (t, s)
           } else Some (t, s)
       | Some p \<Rightarrow> do {
           k \<leftarrow> sock_at t p;
           case t_state k of
             TCP_STATE_LISTEN \<Rightarrow> handle_listen p src_ip src_port dest_port seq_num flags ticks (t, s)
           | TCP_STATE_SYN_RCVD \<Rightarrow> handle_syn_rcvd p data len header_len seq_num ack_num flags (t, s)
           | TCP_STATE_ESTABLISHED \<Rightarrow> handle_established p data len header_len seq_num flags (t, s)
           | st \<Rightarrow> handle_closing_states p st seq_num flags (t, s)
         }
     })"

subsection \<open>The socket interface\<close>

definition tcp_socket_create :: "tcp_table \<Rightarrow> (sock_ptr option \<times> tcp_table) option" where
  "tcp_socket_create t = do {
     (sock, t) \<leftarrow> tcp_alloc_socket t;
     case sock of
       None \<Rightarrow> Some (None, t)
     | Some p \<Rightarrow> do {
         t \<leftarrow> set_sock p (\<lambda>k. k\<lparr>t_state := TCP_STATE_CLOSED, local_port := 0, remote_port := 0, t_seq := 0,
                t_ack := 0, t_window := 8192, t_flags := 0, recv_head := 0, recv_tail := 0, recv_count := 0,
                remote_ip := [0, 0, 0, 0]\<rparr>) t;
         Some (Some p, queue_calls (init_queues (snd p)) t)
       }
   }"

definition tcp_bind :: "sock_ptr option \<Rightarrow> u16 \<Rightarrow> tcp_table \<Rightarrow> (int \<times> tcp_table) option" where
  "tcp_bind sock port t = (case sock of
     None \<Rightarrow> Some (- 1, t)
   | Some p \<Rightarrow>
       if \<exists>i\<in>{0..<length (tcp_sockets t)}. in_use (tcp_sockets t ! i) \<and> (tcp_base t, i) \<noteq> p \<and>
            local_port (tcp_sockets t ! i) = port
       then Some (- 1, t)
       else do { t \<leftarrow> set_sock p (\<lambda>k. k\<lparr>local_port := port\<rparr>) t; Some (0, t) })"

definition take_byte :: "tcp_socket \<Rightarrow> (u8 \<times> tcp_socket) option" where
  "take_byte k = do {
     b \<leftarrow> aget (recv_buffer k) (unat (recv_tail k));
     Some (b, k\<lparr>recv_tail := (recv_tail k + 1) mod TCP_RECV_BUFFER_SIZE, recv_count := recv_count k - 1\<rparr>)
   }"

text \<open>The reading loop, with the number of bytes still wanted.\<close>

fun recv_loop :: "nat \<Rightarrow> bytes \<Rightarrow> nat \<Rightarrow> tcp_socket \<Rightarrow> (nat \<times> bytes \<times> tcp_socket) option" where
  "recv_loop 0 buf read k = Some (read, buf, k)"
| "recv_loop (Suc n) buf read k =
     (if recv_count k > 0 then do {
        (b, k) \<leftarrow> take_byte k;
        buf \<leftarrow> aset buf read b;
        recv_loop n buf (read + 1) k
      }
      else Some (read, buf, k))"

definition tcp_recv :: "sock_ptr option \<Rightarrow> bytes option \<Rightarrow> int \<Rightarrow> tcp_table \<Rightarrow> (int \<times> bytes option \<times> tcp_table) option" where
  "tcp_recv sock buf len t = (case (sock, buf) of
     (Some p, Some out) \<Rightarrow>
       if len \<le> 0 then Some (- 1, buf, t)
       else do {
         k \<leftarrow> sock_at t p;
         if t_state k \<noteq> TCP_STATE_ESTABLISHED \<and> t_state k \<noteq> TCP_STATE_CLOSE_WAIT then Some (0, buf, t)
         else do {
           (read, out, k) \<leftarrow> recv_loop (nat len) out 0 k;
           t \<leftarrow> set_sock p (\<lambda>_. k) t;
           Some (int read, Some out, t)
         }
       }
   | _ \<Rightarrow> Some (- 1, buf, t))"

definition tcp_send :: "sock_ptr option \<Rightarrow> bytes option \<Rightarrow> int \<Rightarrow> tcp_world \<Rightarrow> (int \<times> tcp_world) option" where
  "tcp_send sock buf len w = (case (sock, buf) of
     (Some p, Some out) \<Rightarrow>
       if len \<le> 0 then Some (- 1, w)
       else do {
         k \<leftarrow> sock_at (fst w) p;
         if t_state k \<noteq> TCP_STATE_ESTABLISHED then Some (- 1, w)
         else do {
           w \<leftarrow> tcp_send_packet sock (TCP_FLAG_ACK OR TCP_FLAG_PSH) out len w;
           Some (len, w)
         }
       }
   | _ \<Rightarrow> Some (- 1, w))"

definition tcp_available :: "sock_ptr option \<Rightarrow> tcp_table \<Rightarrow> int option" where
  "tcp_available sock t = (case sock of
     None \<Rightarrow> Some 0
   | Some p \<Rightarrow> map_option (\<lambda>k. uint (recv_count k)) (sock_at t p))"

definition tcp_accept :: "sock_ptr option \<Rightarrow> tcp_table \<Rightarrow> (sock_ptr option \<times> tcp_table) option" where
  "tcp_accept listen_sock t = (case listen_sock of
     None \<Rightarrow> Some (None, t)
   | Some p \<Rightarrow> do {
       k \<leftarrow> sock_at t p;
       if t_state k = TCP_STATE_ESTABLISHED \<or> t_state k = TCP_STATE_SYN_RCVD then do {
         (client, t) \<leftarrow> tcp_alloc_socket t;
         case client of
           None \<Rightarrow> Some (None, t)
         | Some c \<Rightarrow> do {
             l \<leftarrow> sock_at t p;
             t \<leftarrow> set_sock c (\<lambda>k. l\<lparr>in_use := in_use k\<rparr>) t;
             let t = queue_calls (init_queues (snd c)) t;
             t \<leftarrow> set_sock p (\<lambda>k. k\<lparr>t_state := TCP_STATE_LISTEN, remote_port := 0, t_seq := 0, t_ack := 0,
                    recv_head := 0, recv_tail := 0, recv_count := 0, remote_ip := [0, 0, 0, 0]\<rparr>) t;
             Some (Some c, t)
           }
       }
       else Some (None, t)
     })"

definition tcp_find_connection :: "u16 \<Rightarrow> bytes \<Rightarrow> u16 \<Rightarrow> tcp_table \<Rightarrow> sock_ptr option" where
  "tcp_find_connection lport rip rport t = (case tcp_find_socket lport rip rport t of
     Some p \<Rightarrow> Some p
   | None \<Rightarrow> tcp_find_listening_socket lport t)"

definition tcp_get_socket_count :: "tcp_table \<Rightarrow> int" where
  "tcp_get_socket_count t = tcp_socket_capacity t"

definition tcp_get_active_socket_count :: "tcp_table \<Rightarrow> int" where
  "tcp_get_active_socket_count t = tcp_socket_count t"

fun tcp_state_name :: "tcp_state \<Rightarrow> string" where
  "tcp_state_name TCP_STATE_CLOSED = ''CLOSED''"
| "tcp_state_name TCP_STATE_LISTEN = ''LISTEN''"
| "tcp_state_name TCP_STATE_SYN_SENT = ''SYN_SENT''"
| "tcp_state_name TCP_STATE_SYN_RCVD = ''SYN_RCVD''"
| "tcp_state_name TCP_STATE_ESTABLISHED = ''ESTABLISHED''"
| "tcp_state_name TCP_STATE_FIN_WAIT_1 = ''FIN_WAIT_1''"
| "tcp_state_name TCP_STATE_FIN_WAIT_2 = ''FIN_WAIT_2''"
| "tcp_state_name TCP_STATE_CLOSE_WAIT = ''CLOSE_WAIT''"
| "tcp_state_name TCP_STATE_CLOSING = ''CLOSING''"
| "tcp_state_name TCP_STATE_LAST_ACK = ''LAST_ACK''"
| "tcp_state_name TCP_STATE_TIME_WAIT = ''TIME_WAIT''"

end
