(* ===== verification/Tcp_Correct.thy ===== *)
theory Tcp_Correct
  imports Tcp
begin

text \<open>
  Correctness of TCP: the receive buffer as a bounded queue, the checksum, the invariant of the
  socket table and that every step of the state machine keeps it, what goes out on the wire, and
  how a connection is opened and carries a stream of bytes.
\<close>

section \<open>The receive buffer\<close>

text \<open>The bytes in the circular buffer, oldest first.\<close>

definition recv_holds :: "tcp_socket \<Rightarrow> bytes \<Rightarrow> bool" where
  "recv_holds k q \<longleftrightarrow> length (recv_buffer k) = 4096 \<and> unat (recv_tail k) < 4096 \<and>
     unat (recv_count k) = length q \<and> length q \<le> 4096 \<and>
     unat (recv_head k) = (unat (recv_tail k) + length q) mod 4096 \<and>
     (\<forall>i < length q. recv_buffer k ! ((unat (recv_tail k) + i) mod 4096) = q ! i)"

lemma unat_ring_next: "unat (h :: u16) < 4096 \<Longrightarrow> unat ((h + 1) mod 4096) = (unat h + 1) mod 4096"
  by (simp add: unat_mod_distrib unat_word_ariths)

lemma ring_index_distinct:
  assumes "i < n" and "n < (4096 :: nat)"
  shows "(t + i) mod 4096 \<noteq> (t + n) mod 4096"
proof
  assume "(t + i) mod 4096 = (t + n) mod 4096"
  then have "(n - i) mod 4096 = 0" using assms(1) by (metis add_diff_cancel_left less_imp_le mod_eq_dvd_iff_nat nat_add_left_cancel_le mod_0_imp_dvd dvd_imp_mod_0)
  then show False using assms by simp
qed

lemma store_byte_holds:
  assumes "recv_holds k q" and "length q < 4096"
  shows "\<exists>k'. store_byte b k = Some k' \<and> recv_holds k' (q @ [b])"
proof -
  let ?h = "unat (recv_head k)" and ?t = "unat (recv_tail k)"
  have h: "?h = (?t + length q) mod 4096" "?h < 4096" "length (recv_buffer k) = 4096"
    using assms(1) by (auto simp: recv_holds_def)
  have c: "unat (recv_count k + 1) = Suc (length q)"
    using assms by (simp add: recv_holds_def unat_word_ariths)
  have "(recv_buffer k)[?h := b] ! ((?t + i) mod 4096) = (q @ [b]) ! i" if "i < Suc (length q)" for i
    using assms h that ring_index_distinct [of i "length q" ?t]
    by (cases "i = length q") (auto simp: recv_holds_def nth_append nth_list_update)
  moreover have "unat ((recv_head k + 1) mod 4096) = (?t + Suc (length q)) mod 4096"
    using h by (simp add: unat_ring_next mod_Suc_eq)
  ultimately show ?thesis
    using assms h c by (simp add: store_byte_def recv_holds_def c_defs)
qed

lemma take_byte_holds:
  assumes "recv_holds k (b # q)"
  shows "\<exists>k'. take_byte k = Some (b, k') \<and> recv_holds k' q"
proof -
  let ?t = "unat (recv_tail k)"
  have t: "?t < 4096" "length (recv_buffer k) = 4096" "recv_buffer k ! ?t = b"
    using assms by (auto simp: recv_holds_def)
  have "unat (recv_count k) = Suc (length q)" using assms by (simp add: recv_holds_def)
  then have c: "unat (recv_count k - 1) = length q"
    by (subst unat_sub) (auto simp: word_le_nat_alt)
  have "recv_buffer k ! (((?t + 1) mod 4096 + i) mod 4096) = q ! i" if "i < length q" for i
    using assms that by (auto simp: recv_holds_def mod_simps dest: spec [of _ "Suc i"])
  moreover have "((?t + 1) mod 4096 + length q) mod 4096 = (?t + Suc (length q)) mod 4096"
    by (simp add: mod_simps)
  ultimately show ?thesis
    using assms t c by (simp add: take_byte_def recv_holds_def c_defs unat_ring_next)
qed

interpretation recv_ring: bounded_fifo recv_holds 4096 "\<lambda>k. unat (recv_count k)" store_byte take_byte
proof unfold_locales
  fix k :: tcp_socket and q :: bytes and b :: u8
  show "recv_holds k q \<Longrightarrow> length q < 4096 \<Longrightarrow> \<exists>k'. store_byte b k = Some k' \<and> recv_holds k' (q @ [b])"
    by (rule store_byte_holds)
  show "recv_holds k (b # q) \<Longrightarrow> \<exists>k'. take_byte k = Some (b, k') \<and> recv_holds k' q"
    by (rule take_byte_holds)
  show "recv_holds k q \<Longrightarrow> unat (recv_count k) = length q" "recv_holds k q \<Longrightarrow> length q \<le> 4096"
    by (simp_all add: recv_holds_def)
qed

text \<open>Both storing loops fill the buffer, and the reading loop drains it.\<close>

lemma store_loop_full: "\<not> recv_count k < 4096 \<Longrightarrow> store_loop stop n data i k = Some k"
  by (induction n arbitrary: i) (auto simp: c_defs)

lemma store_loop_fill:
  "i + n \<le> length data \<Longrightarrow>
   store_loop stop n data i k = fifo_fill 4096 (\<lambda>k. unat (recv_count k)) store_byte (take n (drop i data)) k"
proof (induction n arbitrary: i k)
  case 0
  then show ?case by simp
next
  case (Suc n)
  have d: "take (Suc n) (drop i data) = data ! i # take n (drop (Suc i) data)"
    using Suc.prems by (simp add: Cons_nth_drop_Suc [symmetric])
  show ?case
  proof (cases "recv_count k < 4096")
    case True
    then show ?thesis using Suc d
      by (cases "store_byte (data ! i) k") (auto simp: c_defs word_less_nat_alt)
  next
    case False
    then show ?thesis using d store_loop_full [of k stop "Suc n" data i] by (simp add: word_less_nat_alt)
  qed
qed

lemma recv_loop_drain:
  assumes "fifo_drain (\<lambda>k. unat (recv_count k)) take_byte n k = Some (xs, k')" and "read + n \<le> length buf"
  shows "recv_loop n buf read k = Some (read + length xs, take read buf @ xs @ drop (read + length xs) buf, k')"
  using assms
proof (induction n arbitrary: k buf read xs)
  case 0
  then show ?case by simp
next
  case (Suc n)
  show ?case
  proof (cases "recv_count k = 0")
    case True
    then show ?thesis using Suc.prems by simp
  next
    case False
    then have pos: "recv_count k > 0" "unat (recv_count k) \<noteq> 0" by (auto simp: word_gt_0 unat_eq_0)
    from Suc.prems(1) pos(2) obtain b k1 ys where s: "take_byte k = Some (b, k1)"
      "fifo_drain (\<lambda>k. unat (recv_count k)) take_byte n k1 = Some (ys, k')" "xs = b # ys"
      by (auto simp: bind_eq_Some_conv)
    have "recv_loop n (buf[read := b]) (read + 1) k1 =
      Some (read + 1 + length ys, take (read + 1) (buf[read := b]) @ ys @ drop (read + 1 + length ys) (buf[read := b]), k')"
      using Suc.IH [OF s(2), of "read + 1" "buf[read := b]"] Suc.prems(2) by simp
    then show ?thesis using s pos Suc.prems(2) by (simp add: take_Suc_conv_app_nth)
  qed
qed

section \<open>Checksum\<close>

text \<open>The sum of the big-endian words of a message, and of everything that the checksum covers.\<close>

fun be_words :: "bytes \<Rightarrow> nat" where
  "be_words [] = 0"
| "be_words [b] = 256 * unat b"
| "be_words (b # c # bs) = 256 * unat b + unat c + be_words bs"

definition segment_sum :: "bytes \<Rightarrow> bytes \<Rightarrow> bytes \<Rightarrow> nat" where
  "segment_sum src_ip dest_ip segment =
     be_words src_ip + be_words dest_ip + 6 + length segment + be_words segment"

lemma be_words_le: "be_words bs \<le> 65535 * length bs"
proof (induction bs rule: be_words.induct)
  case (2 b)
  then show ?case using unat_u8_lt [of b] by simp
next
  case (3 b c bs)
  have "unat b < 256" "unat c < 256" using unat_u8_lt by simp_all
  then show ?case using 3 by simp
qed simp

lemma be_words_append: "even (length xs) \<Longrightarrow> be_words (xs @ ys) = be_words xs + be_words ys"
  by (induction xs rule: be_words.induct) auto

lemma unat_be_pair:
  "unat (ucast (push_bit 8 (ucast (b :: u8)) OR ucast (c :: u8) :: u16) :: u32) = 256 * unat b + unat c"
  using unat_pair_u32 [of c b] by (simp add: or.commute)

lemma be_words_htons: "be_words (mem16 (htons v)) = unat v"
proof -
  have "v = push_bit 8 (ucast (ucast (drop_bit 8 v) :: u8)) OR ucast (ucast v :: u8)"
    by (rule bit_word_eqI) (auto simp: bit_simps)
  then have "unat (ucast v :: u32) = 256 * unat (ucast (drop_bit 8 v) :: u8) + unat (ucast v :: u8)"
    by (metis unat_be_pair)
  moreover have "unat (ucast v :: u32) = unat v"
    using unat_u16_lt [of v] by (simp add: unsigned_ucast_eq take_bit_nat_eq_self)
  ultimately show ?thesis by (simp add: htons_bytes)
qed

lemma be_sum_spec:
  "nat n \<le> length ptr \<Longrightarrow> be_sum ptr n acc = Some (acc + of_nat (be_words (take (nat n) ptr)))"
proof (induction ptr n acc rule: be_sum.induct)
  case (1 ptr n acc)
  show ?case
  proof (cases "n > 1")
    case True
    then have "2 \<le> nat n" by simp
    then obtain m where m: "nat n = Suc (Suc m)" by (metis add_2_eq_Suc le_Suc_ex)
    with 1(2) obtain b c r where p: "ptr = b # c # r" by (metis Suc_le_length_iff)
    let ?w = "push_bit 8 (ucast b) OR ucast c :: u16"
    have w: "(ucast ?w :: u32) = of_nat (256 * unat b + unat c)"
      using unat_be_pair [of b c] by (metis of_nat_unat_id)
    have "nat (n - 2) = m" using m by simp
    then show ?thesis
      using True 1(1) [OF True, of b c] 1(2) m p w by (simp add: be_sum.simps [of "b # c # r"] algebra_simps)
  next
    case False
    show ?thesis
    proof (cases "n = 1")
      case True
      then obtain b r where p: "ptr = b # r" using 1(2) by (cases ptr) auto
      have "(ucast (push_bit 8 (ucast b) :: u16) :: u32) = of_nat (256 * unat b)"
        using unat_be_pair [of b 0] by (metis add.right_neutral of_nat_unat_id or.right_neutral unsigned_0)
      then show ?thesis using True p by (simp add: be_sum.simps)
    next
      case False
      then show ?thesis using \<open>\<not> n > 1\<close> by (simp add: be_sum.simps)
    qed
  qed
qed

lemma tcp_checksum_eq:
  assumes "length src_ip = 4" and "length dest_ip = 4" and "length hdr = 20" and "length data \<le> 65000"
  shows "tcp_checksum src_ip dest_ip hdr data (int (length data)) =
    Some (htons (of_nat (65535 - ones_sum (segment_sum src_ip dest_ip (hdr @ data)))))"
proof -
  let ?n = "segment_sum src_ip dest_ip (hdr @ data)"
  have n: "?n = be_words src_ip + be_words dest_ip + 6 + (20 + length data) + (be_words hdr + be_words data)"
    using assms(3) by (simp add: segment_sum_def be_words_append)
  have "?n \<le> 65535 * 4 + 65535 * 4 + 6 + 65020 + (65535 * 20 + 65535 * 65000)"
    using be_words_le [of src_ip] be_words_le [of dest_ip] be_words_le [of hdr] be_words_le [of data] assms
    unfolding n by simp
  then have "unat (of_nat ?n :: u32) = ?n" by (simp add: unat_of_nat)
  then have f: "unat (fold_carry (of_nat ?n)) = ones_sum ?n" by (simp add: unat_fold_carry)
  have "unat (ucast (NOT (fold_carry (of_nat ?n))) :: u16) = 65535 - ones_sum ?n"
    using ones_sum_less [of ?n] f by (simp add: complement_u16)
  then have c: "(ucast (NOT (fold_carry (of_nat ?n))) :: u16) = of_nat (65535 - ones_sum ?n)"
    by (metis of_nat_unat_id)
  have len: "ucast (of_int (20 + int (length data)) :: u16) = (of_nat (20 + length data) :: u32)"
  proof -
    have "unat (of_nat (20 + length data) :: u16) = 20 + length data"
      using assms(4) unfolding unat_of_nat by simp
    then have "(ucast (of_nat (20 + length data) :: u16) :: u32) = of_nat (20 + length data)"
      by (metis of_nat_unat)
    then show ?thesis by simp
  qed
  show ?thesis
    unfolding tcp_checksum_def using assms c len
    by (simp add: be_sum_spec c_defs n add.assoc)
qed

text \<open>Filling in the checksum field of the header makes the segment verify.\<close>

lemma length_tcp_header [simp]: "length (tcp_header sp dp sq ak fl w c) = 20"
  by (simp add: tcp_header_def)

lemma tcp_checksum_fills:
  fixes sp dp w :: u16 and sq ak :: u32 and fl :: u8
  assumes "length src_ip = 4" and "length dest_ip = 4" and "length data \<le> 65000"
    and "tcp_checksum src_ip dest_ip (tcp_header sp dp sq ak fl w 0) data (int (length data)) = Some c"
  shows "tcp_checksum src_ip dest_ip (tcp_header sp dp sq ak fl w c) data (int (length data)) = Some 0"
proof -
  let ?xs = "mem16 (htons sp) @ mem16 (htons dp) @ mem32 (htonl sq) @ mem32 (htonl ak) @
    mem16 (htons (tcp_make_data_offset_flags TCP_HEADER_SIZE fl)) @ mem16 w"
  let ?S = "\<lambda>v. segment_sum src_ip dest_ip (tcp_header sp dp sq ak fl w (htons v) @ data)"
  have S: "?S v = be_words src_ip + be_words dest_ip + 6 + (20 + length data) + be_words ?xs + unat v + be_words (mem16 0 @ data)" for v
  proof -
    have "tcp_header sp dp sq ak fl w (htons v) @ data = ?xs @ mem16 (htons v) @ mem16 0 @ data"
      by (simp add: tcp_header_def)
    moreover have "be_words (?xs @ mem16 (htons v) @ mem16 0 @ data) =
        be_words ?xs + (unat v + be_words (mem16 0 @ data))"
      by (subst be_words_append, simp, subst be_words_append, simp, simp only: be_words_htons)
    ultimately show ?thesis by (simp add: segment_sum_def)
  qed
  let ?c = "of_nat (65535 - ones_sum (?S 0)) :: u16"
  have z: "htons 0 = 0" by (simp add: htons_def)
  have c: "c = htons ?c" using assms(4) tcp_checksum_eq [OF assms(1,2) _ assms(3), of "tcp_header sp dp sq ak fl w 0"] z by simp
  have "unat ?c = 65535 - ones_sum (?S 0)" by (rule unat_checksum)
  then have "ones_sum (?S 0 + unat ?c) = 65535" by (rule ones_sum_complement)
  moreover have "?S ?c = ?S 0 + unat ?c" using S [of ?c] S [of 0] by simp
  ultimately have "ones_sum (?S ?c) = 65535" by simp
  then show ?thesis
    using tcp_checksum_eq [OF assms(1,2) _ assms(3), of "tcp_header sp dp sq ak fl w c"] z c by simp
qed

section \<open>Invariant\<close>

definition sock_ok :: "tcp_socket \<Rightarrow> bool" where
  "sock_ok k \<longleftrightarrow> length (remote_ip k) = 4 \<and> (\<exists>q. recv_holds k q)"

text \<open>The table is an allocation of the kernel heap that is large enough for its capacity.\<close>

definition table_alloc :: "tcp_table \<Rightarrow> bool" where
  "table_alloc t \<longleftrightarrow> (\<exists>L. heap_allocs (tcp_heap t) L \<and>
     (if tcp_socket_capacity t = 0 then tcp_base t = 0
      else tcp_base t \<noteq> 0 \<and> (\<exists>n. (unat (tcp_base t), n) \<in> L \<and> 4208 * nat (tcp_socket_capacity t) \<le> n)))"

definition tcp_ok :: "tcp_table \<Rightarrow> bool" where
  "tcp_ok t \<longleftrightarrow> 0 \<le> tcp_socket_capacity t \<and> tcp_socket_capacity t \<le> 256 \<and>
     length (tcp_sockets t) = nat (tcp_socket_capacity t) \<and> (\<forall>k \<in> set (tcp_sockets t). sock_ok k) \<and>
     tcp_socket_count t = int (length (filter in_use (tcp_sockets t))) \<and> table_alloc t"

text \<open>A valid pointer to the socket \<open>k\<close>.\<close>

lemma sock_at_Some:
  "sock_at t p = Some k \<longleftrightarrow> fst p = tcp_base t \<and> snd p < length (tcp_sockets t) \<and> tcp_sockets t ! snd p = k"
  by (auto simp: sock_at_def aget_def)

lemma set_sock_eq:
  "sock_at t p = Some k \<Longrightarrow> set_sock p f t = Some (t\<lparr>tcp_sockets := (tcp_sockets t)[snd p := f k]\<rparr>)"
  by (simp add: set_sock_def)

lemma sock_at_update [simp]:
  "sock_at t p = Some k \<Longrightarrow> sock_at (t\<lparr>tcp_sockets := (tcp_sockets t)[snd p := k']\<rparr>) p = Some k'"
  by (simp add: sock_at_Some)

lemma sock_at_queue [simp]: "sock_at (queue_calls qs t) p = sock_at t p"
  by (simp add: sock_at_def queue_calls_def)

lemma tcp_ok_queue [simp]: "tcp_ok (queue_calls qs t) = tcp_ok t"
  by (simp add: tcp_ok_def table_alloc_def queue_calls_def)

lemma tcp_ok_sock: "tcp_ok t \<Longrightarrow> sock_at t p = Some k \<Longrightarrow> sock_ok k"
  by (auto simp: tcp_ok_def sock_at_Some)

lemma length_filter_update:
  "i < length xs \<Longrightarrow> P y = P (xs ! i) \<Longrightarrow> length (filter P (xs[i := y])) = length (filter P xs)"
  by (induction xs arbitrary: i) (auto split: nat.splits)

lemma tcp_ok_update:
  assumes "tcp_ok t" and "sock_at t p = Some k" and "sock_ok k'" and "in_use k' = in_use k"
  shows "tcp_ok (t\<lparr>tcp_sockets := (tcp_sockets t)[snd p := k']\<rparr>)"
proof -
  have "snd p < length (tcp_sockets t)" "tcp_sockets t ! snd p = k" using assms(2) by (auto simp: sock_at_Some)
  then show ?thesis
    using assms set_update_subset_insert [of "tcp_sockets t" "snd p" k']
    by (auto simp: tcp_ok_def table_alloc_def length_filter_update)
qed

section \<open>Sending\<close>

text \<open>The segment that a socket sends.\<close>

definition tcp_segment :: "bytes \<Rightarrow> tcp_socket \<Rightarrow> u8 \<Rightarrow> bytes \<Rightarrow> bytes" where
  "tcp_segment src_ip k flags data =
     (let h = tcp_header (local_port k) (remote_port k) (t_seq k) (t_ack k) flags (htons (t_window k))
      in h (the (tcp_checksum src_ip (remote_ip k) (h 0) data (int (length data)))) @ data)"

text \<open>The outcomes: too large, no route, address unknown, or a frame; the last 16 lengths overflow.\<close>

lemma tcp_send_packet_eq:
  assumes "ip_stack_ok s" and "sock_at t p = Some k" and "length (remote_ip k) = 4"
    and "0 \<le> len" and "nat len \<le> length payload"
  defines "netif \<equiv> netif_get_default (st_core s)"
  shows "tcp_send_packet (Some p) flags payload len (t, s) =
    (if len > 1480 then Some (t, s)
     else case route_get_next_hop (remote_ip k) (st_route s) of
       None \<Rightarrow> Some (t, s)
     | Some hop \<Rightarrow> (case arp_cache_lookup hop (st_arp s) of
         None \<Rightarrow> Some (t, s\<lparr>st_core := arp_send_request netif hop (st_core s)\<rparr>)
       | Some mac \<Rightarrow>
           if len \<le> 1464 then
             Some (t\<lparr>tcp_sockets := (tcp_sockets t)[snd p := k\<lparr>t_seq := t_seq k + of_int (seq_advance flags len)\<rparr>]\<rparr>,
               s\<lparr>st_core := snd (transmit netif (ipv4_frame netif mac (remote_ip k) IP_PROTO_TCP
                    (tcp_segment (my_ip netif (st_core s)) k flags (take (nat len) payload)) s) (st_core s)),
                 ip_id_counter := ip_id_counter s + 1\<rparr>)
           else None))"
proof (cases "len > 1480")
  case True
  then show ?thesis by (simp add: tcp_send_packet_def c_defs)
next
  case False
  have ok: "core_ok (st_core s)" "arp_ok (st_arp s)" using assms(1) by (simp_all add: ip_stack_ok_def)
  let ?data = "take (nat len) payload" and ?ip = "my_ip netif (st_core s)"
  let ?h = "tcp_header (local_port k) (remote_port k) (t_seq k) (t_ack k) flags (htons (t_window k))"
  have len: "int (length ?data) = len" "length ?data = nat len" using assms(4,5) by simp_all
  obtain c where c: "tcp_checksum ?ip (remote_ip k) (?h 0) ?data len = Some c"
    using tcp_checksum_eq [of ?ip "remote_ip k" "?h 0" ?data] length_my_ip [OF ok(1)] assms(3) False len by simp
  have seg: "tcp_segment ?ip k flags ?data = ?h c @ ?data"
    by (simp only: tcp_segment_def Let_def len(1) c option.sel)
  note d = load_field_def c_defs Let_def
  show ?thesis
  proof (cases "route_get_next_hop (remote_ip k) (st_route s)")
    case None
    then show ?thesis using False assms(2,5) c by (simp add: tcp_send_packet_def d netif_def)
  next
    case (Some hop)
    show ?thesis
    proof (cases "arp_cache_lookup hop (st_arp s)")
      case None
      then show ?thesis using False Some assms(2,5) c by (simp add: tcp_send_packet_def d netif_def)
    next
      case (Some mac)
      have mac: "length mac = 6" using ok(2) Some by (rule arp_lookup_length)
      have n: "nat (20 + len) = length (?h c @ ?data)" using assms(4) len by (simp add: nat_add_distrib)
      have "ipv4_send_packet netif mac (remote_ip k) IP_PROTO_TCP (?h c @ ?data) (20 + len) s =
        (if len \<le> 1464 then Some (s\<lparr>st_core := snd (transmit netif (ipv4_frame netif mac (remote_ip k) IP_PROTO_TCP
           (?h c @ ?data) s) (st_core s)), ip_id_counter := ip_id_counter s + 1\<rparr>) else None)"
        using ipv4_send_packet_eq [OF ok(1) mac assms(3), of "20 + len" "?h c @ ?data"] assms(4) n by simp
      then show ?thesis
        using False Some \<open>route_get_next_hop _ _ = Some hop\<close> assms(2,5) c set_sock_eq [OF assms(2)]
        unfolding seg by (simp add: tcp_send_packet_def d netif_def)
    qed
  qed
qed

text \<open>A world in which \<open>p\<close> is a valid socket pointer.\<close>

definition world_ok :: "sock_ptr \<Rightarrow> tcp_world \<Rightarrow> bool" where
  "world_ok p w \<longleftrightarrow> tcp_ok (fst w) \<and> ip_stack_ok (snd w) \<and> (\<exists>k. sock_at (fst w) p = Some k)"

lemma recv_holds_more [simp]:
  "recv_holds (k\<lparr>t_state := a\<rparr>) q = recv_holds k q" "recv_holds (k\<lparr>in_use := b\<rparr>) q = recv_holds k q"
  "recv_holds (k\<lparr>t_seq := e\<rparr>) q = recv_holds k q" "recv_holds (k\<lparr>t_ack := f\<rparr>) q = recv_holds k q"
  by (simp_all add: recv_holds_def)

lemma sock_ok_more [simp]:
  "sock_ok (k\<lparr>t_state := a\<rparr>) = sock_ok k" "sock_ok (k\<lparr>in_use := b\<rparr>) = sock_ok k"
  "sock_ok (k\<lparr>local_port := c\<rparr>) = sock_ok k" "sock_ok (k\<lparr>remote_port := d\<rparr>) = sock_ok k"
  "sock_ok (k\<lparr>t_seq := e\<rparr>) = sock_ok k" "sock_ok (k\<lparr>t_ack := f\<rparr>) = sock_ok k"
  "sock_ok (k\<lparr>t_window := g\<rparr>) = sock_ok k" "sock_ok (k\<lparr>t_flags := h\<rparr>) = sock_ok k"
  by (simp_all add: sock_ok_def recv_holds_def)

lemma set_sock_yields:
  assumes "world_ok p (t, s)" and "\<And>k. sock_ok k \<Longrightarrow> sock_ok (f k) \<and> in_use (f k) = in_use k"
  shows "yields (set_sock p f t) (\<lambda>t'. world_ok p (t', s))"
proof -
  from assms(1) obtain k where k: "sock_at t p = Some k" "tcp_ok t" "ip_stack_ok s"
    by (auto simp: world_ok_def)
  then show ?thesis
    using assms(2) [OF tcp_ok_sock [OF k(2,1)]] tcp_ok_update [OF k(2,1)] set_sock_eq [OF k(1), of f]
    by (simp add: world_ok_def)
qed

lemma tcp_send_packet_effect:
  assumes "tcp_ok t" and "ip_stack_ok s" and "sock_at t p = Some k"
    and "0 \<le> len" and "nat len \<le> length payload" and "len \<le> 1464"
  obtains d s' where "tcp_send_packet (Some p) flags payload len (t, s) =
      Some (t\<lparr>tcp_sockets := (tcp_sockets t)[snd p := k\<lparr>t_seq := t_seq k + d\<rparr>]\<rparr>, s')" and "ip_stack_ok s'"
proof -
  have ip: "length (remote_ip k) = 4" using tcp_ok_sock [OF assms(1,3)] by (simp add: sock_ok_def)
  have id: "t\<lparr>tcp_sockets := (tcp_sockets t)[snd p := k\<lparr>t_seq := t_seq k + 0\<rparr>]\<rparr> = t"
    using assms(3) by (auto simp: sock_at_Some)
  have s: "ip_stack_ok (s\<lparr>st_core := snd (transmit netif f (st_core s)), ip_id_counter := i\<rparr>)"
    "ip_stack_ok (s\<lparr>st_core := arp_send_request netif hop (st_core s)\<rparr>)" for netif f i hop
    using assms(2) by (auto simp: ip_stack_ok_def transmit_core_ok arp_send_request_core_ok)
  note eq = tcp_send_packet_eq [OF assms(2,3) ip assms(4,5), of flags]
  show thesis
  proof (cases "route_get_next_hop (remote_ip k) (st_route s)")
    case None
    then have "tcp_send_packet (Some p) flags payload len (t, s) = Some (t, s)" using eq assms(6) by simp
    then show ?thesis using that [of 0 s] assms(2) id by simp
  next
    case (Some hop)
    note hop = this
    show ?thesis
    proof (cases "arp_cache_lookup hop (st_arp s)")
      case None
      then have "tcp_send_packet (Some p) flags payload len (t, s) =
        Some (t, s\<lparr>st_core := arp_send_request (netif_get_default (st_core s)) hop (st_core s)\<rparr>)"
        using eq assms(6) hop by simp
      then show ?thesis using that [of 0] s(2) id by simp
    next
      case (Some mac)
      show ?thesis using that [OF _ s(1)] eq assms(6) hop Some by simp
    qed
  qed
qed

lemma tcp_send_packet_yields:
  assumes "world_ok p w" and "0 \<le> len" and "nat len \<le> length payload" and "len \<le> 1464"
  shows "yields (tcp_send_packet (Some p) flags payload len w) (world_ok p)"
proof -
  obtain t s where w: "w = (t, s)" by (cases w)
  from assms(1) obtain k where k: "tcp_ok t" "ip_stack_ok s" "sock_at t p = Some k"
    by (auto simp: world_ok_def w)
  from tcp_send_packet_effect [OF k assms(2-4), of flags] obtain d s' where
    "tcp_send_packet (Some p) flags payload len (t, s) =
      Some (t\<lparr>tcp_sockets := (tcp_sockets t)[snd p := k\<lparr>t_seq := t_seq k + d\<rparr>]\<rparr>, s')" "ip_stack_ok s'" .
  then show ?thesis
    using tcp_ok_update [OF k(1,3), of "k\<lparr>t_seq := t_seq k + d\<rparr>"] tcp_ok_sock [OF k(1,3)] k(3)
    by (simp add: world_ok_def w)
qed

lemmas tcp_send_flags_yields = tcp_send_packet_yields [of _ _ 0 "[]", simplified]

section \<open>Allocation of sockets\<close>

lemma recv_holds_empty:
  "length (recv_buffer k) = 4096 \<Longrightarrow> recv_head k = 0 \<Longrightarrow> recv_tail k = 0 \<Longrightarrow> recv_count k = 0 \<Longrightarrow> recv_holds k []"
  by (simp add: recv_holds_def)

lemma fresh_sock: "sock_ok (tcp_init_socket raw_slot)" "\<not> in_use (tcp_init_socket raw_slot)"
  using recv_holds_empty [of "tcp_init_socket raw_slot"]
  by (auto simp: sock_ok_def tcp_init_socket_def raw_slot_def)

lemma heap_move:
  assumes "heap_allocs h L" and "size_fits sz" and "kmalloc sz h = Some (a, h')" and "a \<noteq> 0"
    and "b \<noteq> 0 \<longrightarrow> (unat b, n) \<in> L"
  shows "a \<noteq> b" and "\<exists>h'' L'. (if b \<noteq> 0 then kfree b h' else Some h') = Some h'' \<and>
    heap_allocs h'' L' \<and> (\<exists>m \<ge> unat sz. (unat a, m) \<in> L')"
proof -
  from kh.alloc_law [OF assms(1,2)] assms(3,4) obtain k where k: "unat sz \<le> k"
    "heap_allocs h' (insert (unat a, k) L)" "unat a \<notin> fst ` L" by auto
  then show ne: "a \<noteq> b" using assms(4,5) by force
  show "\<exists>h'' L'. (if b \<noteq> 0 then kfree b h' else Some h') = Some h'' \<and>
    heap_allocs h'' L' \<and> (\<exists>m \<ge> unat sz. (unat a, m) \<in> L')"
  proof (cases "b = 0")
    case True
    then show ?thesis using k by auto
  next
    case False
    then have "(unat b, n) \<in> insert (unat a, k) L" using assms(5) by simp
    from kh.free_law [OF k(2) this] obtain h'' where h'': "kfree b h' = Some h''"
      "heap_allocs h'' (insert (unat a, k) L - {(unat b, n)})" by auto
    have "(unat a, k) \<in> insert (unat a, k) L - {(unat b, n)}" using ne by (auto simp: word_unat_eq_iff)
    then show ?thesis using h'' False k(1) by auto
  qed
qed

lemma tcp_grow_sockets_cases:
  assumes "tcp_ok t"
  obtains (no) h where "tcp_grow_sockets t = Some (False, t\<lparr>tcp_heap := h\<rparr>)" "tcp_ok (t\<lparr>tcp_heap := h\<rparr>)"
  | (yes) t' n where "tcp_grow_sockets t = Some (True, t')" "tcp_ok t'" "tcp_base t' \<noteq> tcp_base t" "0 < n"
      "tcp_sockets t' = tcp_sockets t @ replicate n (tcp_init_socket raw_slot)" "tcp_socket_capacity t < 256"
proof -
  let ?c = "tcp_socket_capacity t"
  obtain L where L: "heap_allocs (tcp_heap t) L" and b: "if ?c = 0 then tcp_base t = 0 else tcp_base t \<noteq> 0 \<and>
      (\<exists>n. (unat (tcp_base t), n) \<in> L \<and> 4208 * nat ?c \<le> n)"
    using assms by (auto simp: tcp_ok_def table_alloc_def)
  have c: "0 \<le> ?c" "?c \<le> 256" using assms by (simp_all add: tcp_ok_def)
  show thesis
  proof (cases "?c = 256")
    case True
    show ?thesis by (rule no [of "tcp_heap t"]) (use True assms in \<open>simp_all add: tcp_grow_sockets_def c_defs\<close>)
  next
    case False
    define m where "m = max 8 (min 256 (?c * 2))"
    have m: "?c < m" "m \<le> 256" "8 \<le> m" using c False by (auto simp: m_def)
    let ?sz = "of_int m * 4208 :: u64"
    have sz: "unat ?sz = nat m * 4208"
    proof -
      have "(of_int m :: u64) = of_nat (nat m)" using m(3) by simp
      then have "?sz = of_nat (nat m * 4208)" by simp
      moreover have "unat (of_nat (nat m * 4208) :: u64) = nat m * 4208"
        using m by (intro unat_of_nat_u64) simp
      ultimately show ?thesis by simp
    qed
    have fits: "size_fits ?sz" using sz m by (simp add: size_fits_def addr_space_def)
    from kh.alloc_law [OF L fits] obtain a h' where a: "kmalloc ?sz (tcp_heap t) = Some (a, h')"
      and a0: "a = 0 \<longrightarrow> heap_allocs h' L" by blast
    have new: "(if (if ?c * 2 > 256 then 256 else ?c * 2) < 8 then 8 else (if ?c * 2 > 256 then 256 else ?c * 2)) = m"
      by (auto simp: m_def)
    have g: "tcp_grow_sockets t = do {
        (new_sockets, heap) \<leftarrow> kmalloc ?sz (tcp_heap t);
        if new_sockets = 0 then Some (False, t\<lparr>tcp_heap := heap\<rparr>)
        else do {
          heap \<leftarrow> (if tcp_base t \<noteq> 0 \<and> ?c > 0 then kfree (tcp_base t) heap else Some heap);
          Some (True, queue_calls (concat (map (\<lambda>i. init_queues (nat ?c + i)) [0..<nat (m - ?c)]))
            (t\<lparr>tcp_sockets := tcp_sockets t @ replicate (nat (m - ?c)) (tcp_init_socket raw_slot),
               tcp_base := new_sockets, tcp_socket_capacity := m, tcp_heap := heap\<rparr>))
        }
      }"
      unfolding tcp_grow_sockets_def c_defs Let_def new using False c by simp
    show ?thesis
    proof (cases "a = 0")
      case True
      show ?thesis
      proof (rule no [of h'])
        show "tcp_grow_sockets t = Some (False, t\<lparr>tcp_heap := h'\<rparr>)"
          using True a False c by (simp add: g)
        show "tcp_ok (t\<lparr>tcp_heap := h'\<rparr>)"
          using assms a0 True b by (auto simp: tcp_ok_def table_alloc_def intro!: exI [of _ L])
      qed
    next
      case a': False
      obtain n where n: "tcp_base t \<noteq> 0 \<longrightarrow> (unat (tcp_base t), n) \<in> L" using b by (auto split: if_splits)
      note mv = heap_move [OF L fits a a' n]
      from mv(2) obtain h'' L' k where h'': "(if tcp_base t \<noteq> 0 then kfree (tcp_base t) h' else Some h') = Some h''"
        "heap_allocs h'' L'" "unat ?sz \<le> k" "(unat a, k) \<in> L'" by blast
      have cond: "(tcp_base t \<noteq> 0 \<and> 0 < ?c) = (tcp_base t \<noteq> 0)" using b c by (auto split: if_splits)
      let ?n = "nat (m - ?c)"
      let ?t = "queue_calls (concat (map (\<lambda>i. init_queues (nat ?c + i)) [0..<?n]))
        (t\<lparr>tcp_sockets := tcp_sockets t @ replicate ?n (tcp_init_socket raw_slot), tcp_base := a,
           tcp_socket_capacity := m, tcp_heap := h''\<rparr>)"
      show ?thesis
      proof (rule yes [of ?t ?n])
        show "tcp_grow_sockets t = Some (True, ?t)" using a a' False c h''(1) cond by (simp add: g)
        have "table_alloc (t\<lparr>tcp_sockets := xs, tcp_base := a, tcp_socket_capacity := m, tcp_heap := h''\<rparr>)" for xs
          using h''(2-4) a' m(3) sz unfolding table_alloc_def by (intro exI [of _ L']) auto
        then show "tcp_ok ?t"
          unfolding tcp_ok_queue using assms m fresh_sock c by (auto simp: tcp_ok_def nat_diff_distrib)
      qed (use mv(1) m False c in \<open>auto simp: queue_calls_def\<close>)
    qed
  qed
qed

lemma take_slot_ok:
  assumes "tcp_ok t" and "first_index (\<lambda>k. \<not> in_use k) (tcp_sockets t) = Some i"
  shows "tcp_ok (take_slot i t)" and "sock_at (take_slot i t) (tcp_base t, i) = Some ((tcp_sockets t ! i)\<lparr>in_use := True\<rparr>)"
    and "i < length (tcp_sockets t)"
proof -
  show i: "i < length (tcp_sockets t)" using assms(2) by (auto dest: first_index_SomeD)
  have u: "\<not> in_use (tcp_sockets t ! i)" using assms(2) by (auto dest: first_index_SomeD)
  have "length (filter in_use (xs[i := y])) = Suc (length (filter in_use xs))"
    if "i < length xs" "\<not> in_use (xs ! i)" "in_use y" for xs :: "tcp_socket list" and y i
    using that by (induction xs arbitrary: i) (auto split: nat.splits)
  note cnt = this [OF i u, of "(tcp_sockets t ! i)\<lparr>in_use := True\<rparr>"]
  have "\<forall>k \<in> set ((tcp_sockets t)[i := (tcp_sockets t ! i)\<lparr>in_use := True\<rparr>]). sock_ok k"
    using assms(1) i set_update_subset_insert [of "tcp_sockets t" i "(tcp_sockets t ! i)\<lparr>in_use := True\<rparr>"]
    by (auto simp: tcp_ok_def subset_iff)
  moreover have "table_alloc (take_slot i t) = table_alloc t" by (simp add: table_alloc_def take_slot_def)
  ultimately show "tcp_ok (take_slot i t)"
    using assms(1) cnt by (simp add: tcp_ok_def take_slot_def)
  show "sock_at (take_slot i t) (tcp_base t, i) = Some ((tcp_sockets t ! i)\<lparr>in_use := True\<rparr>)"
    using i by (simp add: sock_at_Some take_slot_def)
qed

lemma first_free_replicate:
  assumes "\<forall>k \<in> set xs. in_use k" and "0 < n" and "\<not> in_use y"
  shows "first_index (\<lambda>k. \<not> in_use k) (xs @ replicate n y) = Some (length xs)"
  using assms by (induction xs) (auto simp: gr0_conv_Suc)

text \<open>A new socket can only be had by moving the table.\<close>

definition table_moves :: "tcp_table \<Rightarrow> bool" where
  "table_moves t \<longleftrightarrow> (\<forall>k \<in> set (tcp_sockets t). in_use k) \<and> (\<exists>t'. tcp_grow_sockets t = Some (True, t'))"

text \<open>Allocation takes the first free slot; a full table grows and moves, or there is no socket.\<close>

lemma tcp_alloc_socket_cases:
  assumes "tcp_ok t"
  obtains (slot) i where "first_index (\<lambda>k. \<not> in_use k) (tcp_sockets t) = Some i"
      "tcp_alloc_socket t = Some (Some (tcp_base t, i), take_slot i t)"
  | (none) h where "\<not> table_moves t"
      "tcp_alloc_socket t = Some (None, t\<lparr>tcp_heap := h\<rparr>)" "tcp_ok (t\<lparr>tcp_heap := h\<rparr>)"
  | (moved) t' where "table_moves t"
      "tcp_alloc_socket t = Some (Some (tcp_base t', length (tcp_sockets t)), t')" "tcp_ok t'"
      "tcp_base t' \<noteq> tcp_base t" "tcp_socket_capacity t < 256"
      "sock_at t' (tcp_base t', length (tcp_sockets t)) = Some ((tcp_init_socket raw_slot)\<lparr>in_use := True\<rparr>)"
proof (cases "first_index (\<lambda>k. \<not> in_use k) (tcp_sockets t)")
  case (Some i)
  then show ?thesis by (intro slot) (simp_all add: tcp_alloc_socket_def)
next
  case None
  then have full: "\<forall>k \<in> set (tcp_sockets t). in_use k" by (simp add: first_index_None_iff)
  from assms show ?thesis
  proof (cases rule: tcp_grow_sockets_cases)
    case (no h)
    then show ?thesis using None full by (intro none [of h]) (simp_all add: tcp_alloc_socket_def table_moves_def)
  next
    case (yes t' n)
    let ?i = "length (tcp_sockets t)"
    have i: "first_index (\<lambda>k. \<not> in_use k) (tcp_sockets t') = Some ?i"
      using first_free_replicate [OF full yes(4) fresh_sock(2)] by (simp add: yes(5))
    note ok = take_slot_ok [OF yes(2) i]
    have b: "tcp_base (take_slot ?i t') = tcp_base t'" by (simp add: take_slot_def)
    have "tcp_sockets t' ! ?i = tcp_init_socket raw_slot" using yes(4) by (simp add: yes(5) nth_append)
    then show ?thesis
      using None full yes i ok b by (intro moved [of "take_slot ?i t'"]) (simp_all add: tcp_alloc_socket_def table_moves_def)
  qed
qed

section \<open>Receiving\<close>

text \<open>What storing data leaves alone.\<close>

definition same_conn :: "tcp_socket \<Rightarrow> tcp_socket \<Rightarrow> bool" where
  "same_conn k k' \<longleftrightarrow> in_use k' = in_use k \<and> t_state k' = t_state k \<and> local_port k' = local_port k \<and>
     remote_port k' = remote_port k \<and> remote_ip k' = remote_ip k"

lemma store_loop_conn: "store_loop stop n data i k = Some k' \<Longrightarrow> same_conn k k'"
proof (induction n arbitrary: i k)
  case 0
  then show ?case by (simp add: same_conn_def)
next
  case (Suc n)
  have "same_conn k k1" if "store_byte b k = Some k1" for b k1
    using that by (auto simp: store_byte_def same_conn_def bind_eq_Some_conv)
  then show ?case using Suc by (fastforce simp: same_conn_def bind_eq_Some_conv split: if_splits)
qed

lemma store_loop_holds:
  assumes "recv_holds k q" and "i + n \<le> length data"
  obtains k' where "store_loop stop n data i k = Some k'" and "same_conn k k'"
    and "recv_holds k' (q @ take (4096 - length q) (take n (drop i data)))"
proof -
  from recv_ring.fill_rep [OF assms(1), of "take n (drop i data)"] obtain k' where
    "store_loop stop n data i k = Some k'" "recv_holds k' (q @ take (4096 - length q) (take n (drop i data)))"
    using store_loop_fill [OF assms(2), of stop k] by auto
  then show thesis using that store_loop_conn by blast
qed

lemma receive_data_effect:
  assumes "tcp_ok t" and "ip_stack_ok s" and "sock_at t p = Some k" and "recv_holds k q"
    and "0 \<le> header_len" and "header_len < len" and "nat len \<le> length data"
  obtains t' s' k' where "receive_data stop p data len header_len seq_num (t, s) = Some (t', s')"
    and "tcp_ok t'" and "ip_stack_ok s'" and "tcp_base t' = tcp_base t" and "tcp_sockets t' = (tcp_sockets t)[snd p := k']"
    and "same_conn k k'"
    and "recv_holds k' (q @ take (4096 - length q) (drop (nat header_len) (take (nat len) data)))"
proof -
  let ?n = "nat (len - header_len)" and ?i = "nat header_len"
  have n: "?i + ?n = nat len" using assms(5,6) by simp
  then have "?n = nat len - ?i" by simp
  then have d: "take ?n (drop ?i data) = drop ?i (take (nat len) data)" by (simp only: drop_take)
  have le: "?i + ?n \<le> length data" using n assms(7) by simp
  from store_loop_holds [OF assms(4) le, of stop] obtain k1 where k1: "store_loop stop ?n data ?i k = Some k1" "same_conn k k1"
    "recv_holds k1 (q @ take (4096 - length q) (drop ?i (take (nat len) data)))" unfolding d by blast
  let ?k = "k1\<lparr>t_ack := seq_num + of_int (len - header_len)\<rparr>"
  let ?t = "t\<lparr>tcp_sockets := (tcp_sockets t)[snd p := ?k]\<rparr>"
  have "sock_ok ?k" using k1(2,3) tcp_ok_sock [OF assms(1,3)] by (auto simp: sock_ok_def same_conn_def)
  then have t: "tcp_ok ?t" "sock_at ?t p = Some ?k"
    using tcp_ok_update [OF assms(1,3)] k1(2) assms(3) by (simp_all add: same_conn_def)
  from tcp_send_packet_effect [OF t(1) assms(2) t(2), of 0 "[]" TCP_FLAG_ACK] obtain e s' where
    snd: "tcp_send_packet (Some p) TCP_FLAG_ACK [] 0 (?t, s) =
      Some (?t\<lparr>tcp_sockets := (tcp_sockets ?t)[snd p := ?k\<lparr>t_seq := t_seq ?k + e\<rparr>]\<rparr>, s')" "ip_stack_ok s'" by auto
  let ?k' = "?k\<lparr>t_seq := t_seq ?k + e\<rparr>"
  let ?t' = "queue_calls [Queue_Wake_All (snd p) Recv_Queue] (?t\<lparr>tcp_sockets := (tcp_sockets ?t)[snd p := ?k']\<rparr>)"
  have "sock_ok ?k'" using \<open>sock_ok ?k\<close> by simp
  show thesis
  proof (rule that [of ?t' s' ?k'])
    show "receive_data stop p data len header_len seq_num (t, s) = Some (?t', s')"
      using assms(3) k1(1) snd(1) set_sock_eq [OF assms(3)] by (simp add: receive_data_def)
    show "tcp_ok ?t'" unfolding tcp_ok_queue using \<open>sock_ok ?k'\<close> by (intro tcp_ok_update [OF t]) simp_all
    show "same_conn k ?k'" using k1(2) by (simp add: same_conn_def)
    show "recv_holds ?k' (q @ take (4096 - length q) (drop ?i (take (nat len) data)))"
      using k1(3) by simp
  qed (use snd(2) in \<open>simp_all add: queue_calls_def\<close>)
qed

lemma receive_data_yields:
  assumes "world_ok p w" and "0 \<le> header_len" and "header_len < len" and "nat len \<le> length data"
  shows "yields (receive_data stop p data len header_len seq_num w) (world_ok p)"
proof -
  obtain t s where w: "w = (t, s)" by (cases w)
  from assms(1) obtain k where k: "tcp_ok t" "ip_stack_ok s" "sock_at t p = Some k"
    by (auto simp: world_ok_def w)
  obtain q where q: "recv_holds k q" using tcp_ok_sock [OF k(1,3)] by (auto simp: sock_ok_def)
  obtain t' s' k' where r: "receive_data stop p data len header_len seq_num (t, s) = Some (t', s')"
    "tcp_ok t'" "ip_stack_ok s'" "tcp_base t' = tcp_base t" "tcp_sockets t' = (tcp_sockets t)[snd p := k']"
    by (rule receive_data_effect [OF k q assms(2-4)])
  have "sock_at t' p = Some k'" using k(3) r(4,5) by (simp add: sock_at_Some)
  then show ?thesis using r(1-3) by (simp add: w world_ok_def)
qed

text \<open>Each step of the state machine keeps the world in order.\<close>

lemma tcp_send_rst_yields:
  assumes "ip_stack_ok s" and "length dest_ip = 4"
  shows "yields (tcp_send_rst dest_ip dest_port src_port seq_num ack_num s) ip_stack_ok"
proof -
  have ok: "core_ok (st_core s)" "arp_ok (st_arp s)" using assms(1) by (simp_all add: ip_stack_ok_def)
  let ?netif = "netif_get_default (st_core s)"
  let ?h = "tcp_header src_port dest_port seq_num ack_num (TCP_FLAG_RST OR TCP_FLAG_ACK) 0"
  obtain c where c: "tcp_checksum (my_ip ?netif (st_core s)) dest_ip (?h 0) [] 0 = Some c"
    using tcp_checksum_eq [of _ dest_ip "?h 0" "[]"] length_my_ip [OF ok(1), of ?netif] assms(2) by auto
  have "yields (ipv4_send_packet ?netif mac dest_ip IP_PROTO_TCP (?h c) 20 s) ip_stack_ok"
    if "arp_cache_lookup hop (st_arp s) = Some mac" for hop mac
    using ipv4_send_packet_eq [OF ok(1) arp_lookup_length [OF ok(2) that] assms(2), of 20 "?h c"] assms(1)
    by (simp add: ip_stack_ok_def transmit_core_ok)
  then show ?thesis
    using assms(1) c unfolding tcp_send_rst_def Let_def c_defs by (auto split: option.splits)
qed

lemma set_sock_world:
  assumes "world_ok p w" and "\<And>k. sock_ok k \<Longrightarrow> sock_ok (f k) \<and> in_use (f k) = in_use k"
  shows "yields (set_sock p f (fst w)) (\<lambda>t'. world_ok p (t', snd w))"
  using set_sock_yields [of p "fst w" "snd w" f] assms by simp

lemma sock_ok_listen: "sock_ok k \<Longrightarrow> sock_ok (back_to_listen k) \<and> in_use (back_to_listen k) = in_use k"
  by (auto simp: back_to_listen_def sock_ok_def recv_holds_def)

lemma world_ok_queue [simp]: "world_ok p (queue_calls qs t, s) = world_ok p (t, s)"
  by (simp add: world_ok_def)

lemma world_ok_wake [simp]: "world_ok p (wake_state p w) = world_ok p w"
  by (cases w) (simp add: wake_state_def)

lemma world_ok_listener [simp]: "world_ok p (wake_listener port t, s) = world_ok p (t, s)"
  by (simp add: wake_listener_def split: option.split)

lemma ack_fin_yields:
  assumes "world_ok p w"
  shows "yields (ack_fin p seq_num st w) (world_ok p)"
proof -
  obtain t1 where 1: "set_sock p (\<lambda>k. k\<lparr>t_ack := seq_num + 1\<rparr>) (fst w) = Some t1" "world_ok p (t1, snd w)"
    using set_sock_world [OF assms, of "\<lambda>k. k\<lparr>t_ack := seq_num + 1\<rparr>"] by (auto simp: yields_def)
  obtain t2 s2 where 2: "tcp_send_packet (Some p) TCP_FLAG_ACK [] 0 (t1, snd w) = Some (t2, s2)" "world_ok p (t2, s2)"
    using tcp_send_flags_yields [OF 1(2), of TCP_FLAG_ACK] by (auto simp: yields_def)
  obtain t3 where 3: "set_sock p (\<lambda>k. k\<lparr>t_state := st\<rparr>) t2 = Some t3" "world_ok p (t3, s2)"
    using set_sock_yields [OF 2(2), of "\<lambda>k. k\<lparr>t_state := st\<rparr>"] by (auto simp: yields_def)
  show ?thesis using 1 2 3 by (simp add: ack_fin_def)
qed

lemma establish_yields: "world_ok p (t, s) \<Longrightarrow> yields (establish p t) (\<lambda>t'. world_ok p (t', s))"
proof -
  assume "world_ok p (t, s)"
  then obtain t1 where 1: "set_sock p (\<lambda>k. k\<lparr>t_state := TCP_STATE_ESTABLISHED\<rparr>) t = Some t1" "world_ok p (t1, s)"
    using set_sock_yields [of p t s "\<lambda>k. k\<lparr>t_state := TCP_STATE_ESTABLISHED\<rparr>"] by (auto simp: yields_def)
  then obtain k where "sock_at t1 p = Some k" by (auto simp: world_ok_def)
  then show ?thesis using 1 by (simp add: establish_def)
qed

lemma reset_yields: "world_ok p (t, s) \<Longrightarrow> yields (set_sock p back_to_listen t) (\<lambda>t'. world_ok p (t', s))"
  by (rule set_sock_yields) (auto dest: sock_ok_listen)

lemma handle_syn_rcvd_yields:
  assumes "world_ok p w" and "0 \<le> header_len" and "nat len \<le> length data"
  shows "yields (handle_syn_rcvd p data len header_len seq_num ack_num flags w) (world_ok p)"
proof -
  obtain t s where w: "w = (t, s)" by (cases w)
  have ok: "world_ok p (t, s)" using assms(1) w by simp
  obtain k where k: "sock_at t p = Some k" using ok by (auto simp: world_ok_def)
  show ?thesis
  proof (cases "flags AND TCP_FLAG_SYN \<noteq> 0 \<and> flags AND TCP_FLAG_ACK = 0")
    case True
    obtain t1 where "set_sock p (\<lambda>k. k\<lparr>t_seq := t_seq k - 1\<rparr>) t = Some t1" "world_ok p (t1, s)"
      using set_sock_yields [OF ok, of "\<lambda>k. k\<lparr>t_seq := t_seq k - 1\<rparr>"] by (auto simp: yields_def)
    then show ?thesis using True tcp_send_flags_yields by (simp add: handle_syn_rcvd_def w)
  next
    case False
    obtain t1 where t1: "establish p t = Some t1" "world_ok p (t1, s)"
      using establish_yields [OF ok] by (auto simp: yields_def)
    have rst: "yields (case w' of (t, s) \<Rightarrow> if flags AND TCP_FLAG_RST \<noteq> 0
        then do { t \<leftarrow> set_sock p back_to_listen t; Some (t, s) } else Some (t, s)) (world_ok p)"
      if "world_ok p w'" for w'
      using that reset_yields [of p "fst w'" "snd w'"] by (cases w') (auto intro: yields_seq)
    have data: "yields (if len > header_len then receive_data False p data len header_len seq_num (t1, s)
        else Some (t1, s)) (world_ok p)"
      using t1(2) receive_data_yields [OF t1(2) assms(2) _ assms(3)] by simp
    have "yields (if flags AND TCP_FLAG_ACK \<noteq> 0 then
        if ack_num = t_seq k then do {
          t \<leftarrow> establish p t;
          if len > header_len then receive_data False p data len header_len seq_num (t, s) else Some (t, s)
        }
        else let diff = sint (ack_num - t_seq k) in
          if diff \<ge> - 1 \<and> diff \<le> 1 then do { t \<leftarrow> establish p t; Some (t, s) } else Some (t, s)
      else Some (t, s)) (world_ok p)"
      using data t1 ok by (simp add: Let_def)
    from yields_seq [OF this rst] show ?thesis
      unfolding handle_syn_rcvd_def w prod.case if_not_P [OF False] k Option.bind.bind_lunit .
  qed
qed

lemma handle_established_yields:
  assumes "world_ok p w" and "0 \<le> header_len" and "nat len \<le> length data"
  shows "yields (handle_established p data len header_len seq_num flags w) (world_ok p)"
proof -
  have rcv: "yields (if len > header_len then receive_data True p data len header_len seq_num w else Some w) (world_ok p)"
    using assms(1) receive_data_yields [OF assms(1,2) _ assms(3)] by simp
  have fin: "yields (if flags AND TCP_FLAG_FIN \<noteq> 0 then do {
        w \<leftarrow> ack_fin p seq_num TCP_STATE_CLOSE_WAIT w;
        (t, s) \<leftarrow> tcp_send_packet (Some p) (TCP_FLAG_FIN OR TCP_FLAG_ACK) [] 0 w;
        t \<leftarrow> set_sock p (\<lambda>k. k\<lparr>t_state := TCP_STATE_LAST_ACK\<rparr>) t;
        Some (t, s)
      } else Some w) (world_ok p)" if ok: "world_ok p w" for w
  proof (rule yields_if)
    obtain w1 where 1: "ack_fin p seq_num TCP_STATE_CLOSE_WAIT w = Some w1" "world_ok p w1"
      by (rule yieldsE [OF ack_fin_yields [OF ok, of seq_num TCP_STATE_CLOSE_WAIT]])
    obtain t2 s2 where 2: "tcp_send_packet (Some p) (TCP_FLAG_FIN OR TCP_FLAG_ACK) [] 0 w1 = Some (t2, s2)"
      "world_ok p (t2, s2)" using tcp_send_flags_yields [OF 1(2), of "TCP_FLAG_FIN OR TCP_FLAG_ACK"] by (auto simp: yields_def)
    obtain t3 where "set_sock p (\<lambda>k. k\<lparr>t_state := TCP_STATE_LAST_ACK\<rparr>) t2 = Some t3" "world_ok p (t3, s2)"
      using set_sock_yields [OF 2(2), of "\<lambda>k. k\<lparr>t_state := TCP_STATE_LAST_ACK\<rparr>"] by (auto simp: yields_def)
    with 1 2 show "yields (do {
        w \<leftarrow> ack_fin p seq_num TCP_STATE_CLOSE_WAIT w;
        (t, s) \<leftarrow> tcp_send_packet (Some p) (TCP_FLAG_FIN OR TCP_FLAG_ACK) [] 0 w;
        t \<leftarrow> set_sock p (\<lambda>k. k\<lparr>t_state := TCP_STATE_LAST_ACK\<rparr>) t;
        Some (t, s)
      }) (world_ok p)" by simp
  qed (use ok in simp)
  have rst: "yields (case w' of (t, s) \<Rightarrow> if flags AND TCP_FLAG_RST \<noteq> 0 then do {
        t \<leftarrow> set_sock p back_to_listen t;
        Some (queue_calls [Queue_Wake_All (snd p) State_Queue] t, s)
      } else Some (t, s)) (world_ok p)" if "world_ok p w'" for w'
    using that reset_yields [of p "fst w'" "snd w'"] by (cases w') (auto intro: yields_seq)
  show ?thesis
    unfolding handle_established_def by (rule yields_seq [OF rcv], erule yields_seq [OF fin], erule rst)
qed

lemma handle_closing_states_yields:
  assumes "world_ok p w"
  shows "yields (handle_closing_states p st seq_num flags w) (world_ok p)"
proof -
  have st: "yields (do { t \<leftarrow> set_sock p f (fst w); Some (g (t, snd w)) }) (world_ok p)"
    if "\<And>k. sock_ok k \<Longrightarrow> sock_ok (f k) \<and> in_use (f k) = in_use k" "\<And>w. world_ok p (g w) = world_ok p w" for f g
    using set_sock_world [OF assms that(1)] that(2) by (auto intro: yields_seq)
  have fin: "yields (map_option (wake_state p) (ack_fin p seq_num st' w)) (world_ok p)" for st'
    using ack_fin_yields [OF assms] by (auto intro: yields_map)
  show ?thesis
    using assms fin tcp_send_flags_yields [OF assms] st [of _ "wake_state p"] st [of back_to_listen "\<lambda>w. w"] sock_ok_listen
    by (cases st) (simp_all add: handle_closing_states_def Let_def)
qed

lemma handle_listen_yields:
  assumes "world_ok p (t, s)" and "length src_ip = 4" and "\<not> table_moves t"
  shows "yields (handle_listen p src_ip src_port dest_port seq_num flags ticks (t, s))
    (\<lambda>w. tcp_ok (fst w) \<and> ip_stack_ok (snd w))"
proof (cases "flags AND TCP_FLAG_SYN \<noteq> 0")
  case True
  have ok: "tcp_ok t" "ip_stack_ok s" using assms(1) by (simp_all add: world_ok_def)
  from ok(1) show ?thesis
  proof (cases rule: tcp_alloc_socket_cases)
    case (slot i)
    let ?c = "(tcp_base t, i)" and ?t = "take_slot i t"
    note new = take_slot_ok [OF ok(1) slot(1)]
    obtain l where l: "sock_at ?t p = Some l"
      using assms(1) by (auto simp: world_ok_def sock_at_Some take_slot_def)
    have w: "world_ok ?c (?t, s)" using new ok(2) by (simp add: world_ok_def)
    let ?f = "\<lambda>k. k\<lparr>local_port := local_port l, remote_ip := src_ip, remote_port := src_port,
      t_seq := ucast ticks * 12345, t_ack := seq_num + 1, t_state := TCP_STATE_SYN_RCVD, t_window := TCP_WINDOW_SIZE\<rparr>"
    have f: "sock_ok k \<Longrightarrow> sock_ok (?f k) \<and> in_use (?f k) = in_use k" for k
      using assms(2) by (auto simp: sock_ok_def recv_holds_def)
    obtain t1 where t1: "set_sock ?c ?f ?t = Some t1" "world_ok ?c (t1, s)"
      using set_sock_yields [OF w f] by (auto simp: yields_def)
    have "yields (tcp_send_packet (Some ?c) (TCP_FLAG_SYN OR TCP_FLAG_ACK) [] 0 (queue_calls (init_queues i) t1, s))
      (\<lambda>w. tcp_ok (fst w) \<and> ip_stack_ok (snd w))"
      by (rule yields_mono [OF tcp_send_flags_yields [of ?c]]) (use t1(2) in \<open>simp_all add: world_ok_def\<close>)
    then show ?thesis using True slot(2) l t1(1) by (simp add: handle_listen_def)
  next
    case (none h)
    show ?thesis
      using True none(2,3) tcp_send_rst_yields [OF ok(2) assms(2), of src_port dest_port 0 "seq_num + 1"]
      by (auto simp: handle_listen_def yields_def)
  next
    case (moved t')
    then show ?thesis using assms(3) by auto
  qed
next
  case False
  then show ?thesis using assms(1) by (simp add: handle_listen_def world_ok_def)
qed

lemma find_sock_SomeD:
  assumes "find_sock P t = Some p"
  obtains k where "sock_at t p = Some k" and "in_use k" and "P k"
  using assms by (auto simp: find_sock_def sock_at_Some dest!: first_index_SomeD)

text \<open>The socket that a received segment is for.\<close>

definition segment_socket :: "u8 \<Rightarrow> u16 \<Rightarrow> bytes \<Rightarrow> u16 \<Rightarrow> tcp_table \<Rightarrow> sock_ptr option" where
  "segment_socket flags dest_port src_ip src_port t =
     (case tcp_find_socket dest_port src_ip src_port t of
        Some p \<Rightarrow> Some p
      | None \<Rightarrow> if flags AND TCP_FLAG_SYN \<noteq> 0 \<and> flags AND TCP_FLAG_ACK = 0
                 then tcp_find_listening_socket dest_port t else None)"

lemma segment_socket_at:
  assumes "segment_socket flags dest_port src_ip src_port t = Some p"
  obtains k where "sock_at t p = Some k" and "in_use k"
proof -
  from assms obtain P where "find_sock P t = Some p"
    by (auto simp: segment_socket_def tcp_find_socket_def tcp_find_listening_socket_def
        split: option.splits if_splits)
  then show thesis by (rule find_sock_SomeD) (rule that)
qed

lemma tcp_handle_packet_fields:
  fixes ff :: u16
  assumes "20 \<le> len" and "load16 data 0 = Some sp" and "load16 data 2 = Some dp" and "load32 data 4 = Some sq"
    and "load32 data 8 = Some ak" and "load16 data 12 = Some ff" and "load_field ip_hdr 12 4 = Some src_ip"
  defines "flags \<equiv> tcp_get_flags (ntohs ff)" and "hl \<equiv> tcp_get_header_len (ntohs ff)"
  shows "tcp_handle_packet ip_hdr data len ticks (t, s) =
    (case segment_socket flags (ntohs dp) src_ip (ntohs sp) t of
       None \<Rightarrow> if flags AND TCP_FLAG_RST = 0 then do {
           s \<leftarrow> tcp_send_rst src_ip (ntohs sp) (ntohs dp) (ntohl ak) (ntohl sq + 1) s;
           Some (t, s)
         } else Some (t, s)
     | Some p \<Rightarrow> do {
         k \<leftarrow> sock_at t p;
         case t_state k of
           TCP_STATE_LISTEN \<Rightarrow> handle_listen p src_ip (ntohs sp) (ntohs dp) (ntohl sq) flags ticks (t, s)
         | TCP_STATE_SYN_RCVD \<Rightarrow> handle_syn_rcvd p data len hl (ntohl sq) (ntohl ak) flags (t, s)
         | TCP_STATE_ESTABLISHED \<Rightarrow> handle_established p data len hl (ntohl sq) flags (t, s)
         | st \<Rightarrow> handle_closing_states p st (ntohl sq) flags (t, s)
       })"
proof -
  have sock: "segment_socket flags (ntohs dp) src_ip (ntohs sp) t =
    (let sock = tcp_find_socket (ntohs dp) src_ip (ntohs sp) t in
     if sock = None \<and> flags AND TCP_FLAG_SYN \<noteq> 0 \<and> flags AND TCP_FLAG_ACK = 0
     then tcp_find_listening_socket (ntohs dp) t else sock)"
    by (auto simp: segment_socket_def split: option.split)
  have "\<not> len < TCP_HEADER_SIZE" using assms(1) by (simp add: c_defs)
  then show ?thesis
    unfolding sock Let_def
    by (simp only: tcp_handle_packet_def prod.case if_False assms(2-7) Option.bind.bind_lunit Let_def
        flags_def [symmetric] hl_def [symmetric])
qed

lemma tcp_get_header_len_nonneg: "0 \<le> tcp_get_header_len f"
  by (simp add: tcp_get_header_len_def)

text \<open>Everything but the answer to a connection request is safe; \<open>R\<close> is what is wanted of that.\<close>

lemma tcp_handle_packet_lift:
  assumes "tcp_ok t" and "ip_stack_ok s" and "nat len \<le> length data" and "16 \<le> length ip_hdr"
  assumes R: "\<And>m. yields m (\<lambda>w. tcp_ok (fst w) \<and> ip_stack_ok (snd w)) \<Longrightarrow> R m"
    and listen: "\<And>p src_ip sp dp sq fl. world_ok p (t, s) \<Longrightarrow> length src_ip = 4 \<Longrightarrow>
      R (handle_listen p src_ip sp dp sq fl ticks (t, s))"
  shows "R (tcp_handle_packet ip_hdr data len ticks (t, s))"
proof (cases "20 \<le> len")
  case False
  then show ?thesis using assms(1,2) by (intro R) (simp add: tcp_handle_packet_def c_defs)
next
  case True
  then have len: "20 \<le> length data" using assms(3) by linarith
  obtain sp dp ff where f16: "load16 data 0 = Some sp" "load16 data 2 = Some dp" "load16 data 12 = Some ff"
    using len by (simp add: load16_at)
  obtain sq ak where f32: "load32 data 4 = Some sq" "load32 data 8 = Some ak"
    using len by (simp add: load32_def)
  obtain src_ip where ip: "load_field ip_hdr 12 4 = Some src_ip" "length src_ip = 4"
    using assms(4) by (simp add: load_field_def)
  let ?flags = "tcp_get_flags (ntohs ff)"
  have imp: "R m" if "yields m (world_ok p)" for m p
    by (rule R, rule yields_mono [OF that]) (simp add: world_ok_def)
  show ?thesis
  proof (cases "segment_socket ?flags (ntohs dp) src_ip (ntohs sp) t")
    case None
    have "yields (tcp_send_rst src_ip (ntohs sp) (ntohs dp) (ntohl ak) (ntohl sq + 1) s) ip_stack_ok"
      using assms(2) ip(2) by (rule tcp_send_rst_yields)
    then show ?thesis
      unfolding tcp_handle_packet_fields [OF True f16(1,2) f32 f16(3) ip(1)] None
      using assms(1,2) by (intro R) (auto simp: yields_def)
  next
    case (Some p)
    then obtain k where k: "sock_at t p = Some k" by (rule segment_socket_at)
    have w: "world_ok p (t, s)" using assms(1,2) k by (simp add: world_ok_def)
    note st = imp [OF handle_syn_rcvd_yields [OF w tcp_get_header_len_nonneg assms(3)]]
      imp [OF handle_established_yields [OF w tcp_get_header_len_nonneg assms(3)]]
      imp [OF handle_closing_states_yields [OF w]] listen [OF w ip(2)]
    show ?thesis
      unfolding tcp_handle_packet_fields [OF True f16(1,2) f32 f16(3) ip(1)] Some option.case k Option.bind.bind_lunit
      by (cases "t_state k") (simp_all only: tcp_state.case st)
  qed
qed

section \<open>Received segments\<close>

text \<open>What a receiver reads in a header.\<close>

lemma tcp_header_fields:
  "load16 (tcp_header sp dp sq ak fl w c @ r) 0 = Some (htons sp)"
  "load16 (tcp_header sp dp sq ak fl w c @ r) 2 = Some (htons dp)"
  "load32 (tcp_header sp dp sq ak fl w c @ r) 4 = Some (htonl sq)"
  "load32 (tcp_header sp dp sq ak fl w c @ r) 8 = Some (htonl ak)"
  "load16 (tcp_header sp dp sq ak fl w c @ r) 12 = Some (htons (tcp_make_data_offset_flags 20 fl))"
  using load16_mem16 [of 0 "[]" "htons sp"] load16_mem16 [of 2 "mem16 (htons sp)" "htons dp"]
    load32_mem32 [of 4 "mem16 (htons sp) @ mem16 (htons dp)" "htonl sq"]
    load32_mem32 [of 8 "mem16 (htons sp) @ mem16 (htons dp) @ mem32 (htonl sq)" "htonl ak"]
    load16_mem16 [of 12 "mem16 (htons sp) @ mem16 (htons dp) @ mem32 (htonl sq) @ mem32 (htonl ak)"]
  by (simp_all add: tcp_header_def c_defs)

lemma offset_flags:
  "tcp_get_flags (tcp_make_data_offset_flags 20 fl) = fl AND 0x3F"
  "tcp_get_header_len (tcp_make_data_offset_flags 20 fl) = 20"
proof -
  let ?v = "tcp_make_data_offset_flags 20 fl"
  have v: "?v = 0x5000 OR ucast (fl AND 0x3F)" by (simp add: tcp_make_data_offset_flags_def)
  have m: "(0x3F :: u16) = mask 6" "(0x3F :: u8) = mask 6" "(0x0F :: u16) = mask 4" by (simp_all add: mask_eq_exp_minus_1)
  show "tcp_get_flags ?v = fl AND 0x3F"
  proof (rule bit_word_eqI)
    fix n assume "n < LENGTH(8)"
    moreover have "\<not> bit (0x5000 :: u16) n" if "n < 6" for n
      using that by (simp add: numeral_eq_Suc less_Suc_eq) (elim disjE; simp)
    ultimately show "bit (tcp_get_flags ?v) n = bit (fl AND 0x3F) n"
      by (auto simp: tcp_get_flags_def v m bit_simps)
  qed
  have "drop_bit 12 ?v = 5"
  proof -
    have "drop_bit 12 (ucast (fl AND mask 6) :: u16) = 0" by (rule bit_word_eqI) (auto simp: bit_simps)
    then show ?thesis by (simp add: v m drop_bit_or)
  qed
  then show "tcp_get_header_len ?v = 20" by (simp add: tcp_get_header_len_def)
qed

lemma flag_low: "(fl AND 0x3F) AND f = fl AND f" if "f AND 0x3F = f" for fl f :: u8
  using that by (metis and.assoc and.commute)

text \<open>A segment with its six flags, on the way to the socket that it is for; the frame may be padded.\<close>

lemma tcp_handle_segment:
  fixes fl :: u8
  assumes "load_field ip_hdr 12 4 = Some src_ip"
  defines "flags \<equiv> fl AND 0x3F"
  shows "tcp_handle_packet ip_hdr (tcp_header sp dp sq ak fl w c @ d @ pad) (int (20 + length d)) ticks (t, s) =
    (case segment_socket flags dp src_ip sp t of
       None \<Rightarrow> if flags AND TCP_FLAG_RST = 0 then do {
           s \<leftarrow> tcp_send_rst src_ip sp dp ak (sq + 1) s;
           Some (t, s)
         } else Some (t, s)
     | Some p \<Rightarrow> do {
         k \<leftarrow> sock_at t p;
         case t_state k of
           TCP_STATE_LISTEN \<Rightarrow> handle_listen p src_ip sp dp sq flags ticks (t, s)
         | TCP_STATE_SYN_RCVD \<Rightarrow>
             handle_syn_rcvd p (tcp_header sp dp sq ak fl w c @ d @ pad) (int (20 + length d)) 20 sq ak flags (t, s)
         | TCP_STATE_ESTABLISHED \<Rightarrow>
             handle_established p (tcp_header sp dp sq ak fl w c @ d @ pad) (int (20 + length d)) 20 sq flags (t, s)
         | st \<Rightarrow> handle_closing_states p st sq flags (t, s)
       })"
  using tcp_handle_packet_fields [of "int (20 + length d)", OF _ tcp_header_fields assms(1)]
  unfolding ntohs_htons ntohl_htonl offset_flags flags_def by simp

lemma tcp_flag_low:
  "(fl AND 0x3F) AND TCP_FLAG_FIN = fl AND TCP_FLAG_FIN" "(fl AND 0x3F) AND TCP_FLAG_SYN = fl AND TCP_FLAG_SYN"
  "(fl AND 0x3F) AND TCP_FLAG_RST = fl AND TCP_FLAG_RST" "(fl AND 0x3F) AND TCP_FLAG_ACK = fl AND TCP_FLAG_ACK"
  by (rule flag_low, simp add: c_defs)+

lemma first_index_update:
  "i < length xs \<Longrightarrow> P y = P (xs ! i) \<Longrightarrow> first_index P (xs[i := y]) = first_index P xs"
  by (induction xs arbitrary: i) (auto split: nat.splits)

text \<open>An established connection: its segments find the socket \<open>p\<close>, whose buffer holds \<open>q\<close>.\<close>

definition connected :: "sock_ptr \<Rightarrow> u16 \<Rightarrow> bytes \<Rightarrow> u16 \<Rightarrow> bytes \<Rightarrow> tcp_world \<Rightarrow> bool" where
  "connected p lport rip rport q w \<longleftrightarrow> tcp_ok (fst w) \<and> ip_stack_ok (snd w) \<and>
     tcp_find_socket lport rip rport (fst w) = Some p \<and>
     (\<exists>k. sock_at (fst w) p = Some k \<and> t_state k = TCP_STATE_ESTABLISHED \<and> recv_holds k q)"

text \<open>Sending leaves the configuration of the host alone.\<close>

definition same_host :: "ip_stack \<Rightarrow> ip_stack \<Rightarrow> bool" where
  "same_host s s' \<longleftrightarrow> netif_list (st_core s') = netif_list (st_core s) \<and> MY_IP (st_core s') = MY_IP (st_core s) \<and>
     st_arp s' = st_arp s \<and> st_route s' = st_route s"

lemma ipv4_send_same_host:
  "ipv4_send_packet netif dest_mac dest_ip protocol payload len s = Some s' \<Longrightarrow> same_host s s'"
  using ipv4_send_packet_keeps [of netif dest_mac dest_ip protocol payload len s s'] by (simp add: same_host_def)

lemma same_host_refl: "same_host s s"
  by (simp add: same_host_def)

lemma arp_same_host: "same_host s (s\<lparr>st_core := arp_send_request netif ip (st_core s)\<rparr>)"
  by (simp add: same_host_def arp_send_request_def transmit_config)

lemma tcp_send_packet_same_host:
  "tcp_send_packet sock flags payload len (t, s) = Some (t', s') \<Longrightarrow> same_host s s'"
  by (auto simp: tcp_send_packet_def Let_def same_host_refl arp_same_host dest: ipv4_send_same_host
      split: option.split_asm if_split_asm Option.bind_split_asm)

lemma receive_data_same_host:
  "receive_data stop p data len h sq (t, s) = Some (t', s') \<Longrightarrow> same_host s s'"
  by (auto simp: receive_data_def Let_def bind_eq_Some_conv dest: tcp_send_packet_same_host)

lemma connected_segment:
  assumes "connected p lport rip rport q (t, s)" and "load_field ip_hdr 12 4 = Some rip"
    and "fl AND TCP_FLAG_FIN = 0" and "fl AND TCP_FLAG_RST = 0"
  obtains w' where "tcp_handle_packet ip_hdr (tcp_header rport lport sq ak fl win c @ d @ pad) (int (20 + length d)) ticks (t, s) = Some w'"
    and "connected p lport rip rport (q @ take (4096 - length q) d) w'" and "same_host s (snd w')"
proof -
  from assms(1) obtain k where ok: "tcp_ok t" "ip_stack_ok s" "tcp_find_socket lport rip rport t = Some p"
    and k: "sock_at t p = Some k" "t_state k = TCP_STATE_ESTABLISHED" "recv_holds k q"
    by (auto simp: connected_def)
  let ?d = "tcp_header rport lport sq ak fl win c @ d @ pad"
  have "segment_socket (fl AND 0x3F) lport rip rport t = Some p" using ok(3) by (simp add: segment_socket_def)
  then have h: "tcp_handle_packet ip_hdr ?d (int (20 + length d)) ticks (t, s) =
      (if d \<noteq> [] then receive_data True p ?d (int (20 + length d)) 20 sq (t, s) else Some (t, s))"
    unfolding tcp_handle_segment [OF assms(2)]
    using k(1,2) assms(3,4) tcp_flag_low [of fl]
    by (simp add: handle_established_def)
  show thesis
  proof (cases "d = []")
    case True
    then show ?thesis using that [of "(t, s)"] h assms(1) by (simp add: same_host_def)
  next
    case False
    then have gt: "20 < int (20 + length d)" by simp
    obtain t' s' k' where r: "receive_data True p ?d (int (20 + length d)) 20 sq (t, s) = Some (t', s')"
      "tcp_ok t'" "ip_stack_ok s'" "tcp_base t' = tcp_base t" "tcp_sockets t' = (tcp_sockets t)[snd p := k']"
      "same_conn k k'" "recv_holds k' (q @ take (4096 - length q) (drop (nat 20) (take (nat (int (20 + length d))) ?d)))"
      by (rule receive_data_effect [OF ok(1,2) k(1,3), of 20 "int (20 + length d)" ?d]) (use gt in simp_all)
    have p: "snd p < length (tcp_sockets t)" "tcp_sockets t ! snd p = k" "fst p = tcp_base t"
      using k(1) by (auto simp: sock_at_Some)
    have "tcp_find_socket lport rip rport t' = Some p"
      using ok(3) p r(4-6) by (simp add: tcp_find_socket_def find_sock_def first_index_update same_conn_def)
    moreover have "nat (int (20 + length d)) = 20 + length d" by simp
    ultimately have "connected p lport rip rport (q @ take (4096 - length q) d) (t', s')"
      using r p k(2) by (auto simp: connected_def sock_at_Some same_conn_def)
    then show ?thesis using that [of "(t', s')"] h r(1) False receive_data_same_host [OF r(1)] by simp
  qed
qed

text \<open>The segments of a peer handled one after the other: sequence and acknowledgement numbers, flags,
  window, checksum and payload of each are arbitrary.\<close>

type_synonym peer_segment = "u32 \<times> u32 \<times> u8 \<times> u16 \<times> u16 \<times> bytes"

fun tcp_deliver :: "bytes \<Rightarrow> u16 \<Rightarrow> u16 \<Rightarrow> u64 \<Rightarrow> peer_segment list \<Rightarrow> tcp_world \<Rightarrow> tcp_world option" where
  "tcp_deliver ip_hdr rport lport ticks [] w = Some w"
| "tcp_deliver ip_hdr rport lport ticks ((sq, ak, fl, win, c, d) # segs) w = do {
     w \<leftarrow> tcp_handle_packet ip_hdr (tcp_header rport lport sq ak fl win c @ d) (int (20 + length d)) ticks w;
     tcp_deliver ip_hdr rport lport ticks segs w
   }"

definition seg_data :: "peer_segment list \<Rightarrow> bytes" where
  "seg_data segs = concat (map (\<lambda>(sq, ak, fl, win, c, d). d) segs)"

lemma connected_deliver:
  assumes "connected p lport rip rport q w" and "load_field ip_hdr 12 4 = Some rip"
    and "\<forall>(sq, ak, fl, win, c, d) \<in> set segs. fl AND TCP_FLAG_FIN = 0 \<and> fl AND TCP_FLAG_RST = 0"
    and "length q + length (seg_data segs) \<le> 4096"
  obtains w' where "tcp_deliver ip_hdr rport lport ticks segs w = Some w'"
    and "connected p lport rip rport (q @ seg_data segs) w'"
  using assms
proof (induction segs arbitrary: w q thesis)
  case Nil
  then show ?case by (simp add: seg_data_def)
next
  case (Cons g segs)
  obtain sq ak fl win c d where g: "g = (sq, ak, fl, win, c, d)" by (cases g)
  obtain t s where w: "w = (t, s)" by (cases w)
  have sz: "length q + length d + length (seg_data segs) \<le> 4096" using Cons.prems(5) by (simp add: seg_data_def g)
  obtain w1 where 1: "tcp_handle_packet ip_hdr (tcp_header rport lport sq ak fl win c @ d) (int (20 + length d)) ticks w = Some w1"
    "connected p lport rip rport (q @ take (4096 - length q) d) w1"
    using Cons.prems(2-4) connected_segment [of p lport rip rport q t s ip_hdr fl, where pad = "[]"] unfolding g w append_Nil2
    by (metis (mono_tags, lifting) case_prod_conv list.set_intros(1))
  have "take (4096 - length q) d = d" using sz by simp
  then have c: "connected p lport rip rport (q @ d) w1" using 1(2) by simp
  obtain w2 where 2: "tcp_deliver ip_hdr rport lport ticks segs w1 = Some w2"
    "connected p lport rip rport ((q @ d) @ seg_data segs) w2"
    by (rule Cons.IH [OF _ c Cons.prems(3)]) (use Cons.prems(4) sz in auto)
  show ?case
    by (rule Cons.prems(1) [of w2]) (use 1(1) 2 in \<open>simp_all add: g seg_data_def\<close>)
qed

lemma drain_conn:
  "fifo_drain (\<lambda>k. unat (recv_count k)) take_byte n k = Some (xs, k') \<Longrightarrow> same_conn k k'"
proof (induction n arbitrary: k xs)
  case 0
  then show ?case by (simp add: same_conn_def)
next
  case (Suc n)
  have "same_conn k k1" if "take_byte k = Some (b, k1)" for b k1
    using that by (auto simp: take_byte_def same_conn_def bind_eq_Some_conv)
  with Suc show ?case by (fastforce simp: bind_eq_Some_conv same_conn_def split: if_splits)
qed

lemma connected_recv:
  assumes "connected p lport rip rport q (t, s)" and "0 < n" and "n \<le> length buf"
  obtains t' where "tcp_recv (Some p) (Some buf) (int n) t =
      Some (int (min n (length q)), Some (take n q @ drop (min n (length q)) buf), t')"
    and "connected p lport rip rport (drop n q) (t', s)"
proof -
  from assms(1) obtain k where ok: "tcp_ok t" "ip_stack_ok s" "tcp_find_socket lport rip rport t = Some p"
    and k: "sock_at t p = Some k" "t_state k = TCP_STATE_ESTABLISHED" "recv_holds k q"
    by (auto simp: connected_def)
  from recv_ring.drain_rep [OF k(3), of n] obtain k' where
    k': "fifo_drain (\<lambda>k. unat (recv_count k)) take_byte n k = Some (take n q, k')" "recv_holds k' (drop n q)" by blast
  have loop: "recv_loop n buf 0 k = Some (min n (length q), take n q @ drop (min n (length q)) buf, k')"
    using recv_loop_drain [OF k'(1), of 0 buf] assms(3) by (simp add: min.commute)
  have conn: "same_conn k k'" using k'(1) by (rule drain_conn)
  let ?t = "t\<lparr>tcp_sockets := (tcp_sockets t)[snd p := k']\<rparr>"
  have p: "snd p < length (tcp_sockets t)" "tcp_sockets t ! snd p = k" "fst p = tcp_base t"
    using k(1) by (auto simp: sock_at_Some)
  have "sock_ok k'" using conn k'(2) tcp_ok_sock [OF ok(1) k(1)] by (auto simp: sock_ok_def same_conn_def)
  then have "tcp_ok ?t" using tcp_ok_update [OF ok(1) k(1)] conn by (simp add: same_conn_def)
  moreover have "tcp_find_socket lport rip rport ?t = Some p"
    using ok(3) p conn by (simp add: tcp_find_socket_def find_sock_def first_index_update same_conn_def)
  ultimately have "connected p lport rip rport (drop n q) (?t, s)"
    using ok(2) k(1,2) k'(2) conn by (simp add: connected_def same_conn_def)
  moreover have "tcp_recv (Some p) (Some buf) (int n) t =
      Some (int (min n (length q)), Some (take n q @ drop (min n (length q)) buf), ?t)"
    using assms(2) k(1,2) loop set_sock_eq [OF k(1)] by (simp add: tcp_recv_def)
  ultimately show thesis using that by blast
qed

section \<open>Examples\<close>

text \<open>A heap of 1 MiB on which \<open>tcp_init\<close> has allocated a table of eight sockets.\<close>

definition tcp_heap_example :: kheap_state where
  "tcp_heap_example = kheap_init 65536 1048576
     \<lparr>heap_start = 0, heap_total_size = 0, heap_lock = 0, heap_mem = (\<lambda>_. 0)\<rparr>"

definition tcp_example :: "tcp_socket list \<Rightarrow> tcp_table" where
  "tcp_example ks = \<lparr>tcp_sockets = ks, tcp_base = 65560, tcp_socket_capacity = 8,
     tcp_socket_count = int (length (filter in_use ks)),
     tcp_heap = snd (the (kmalloc 33664 tcp_heap_example)), tcp_queues = []\<rparr>"

definition listener_example :: tcp_socket where
  "listener_example = (tcp_init_socket raw_slot)\<lparr>in_use := True, t_state := TCP_STATE_LISTEN, local_port := 80\<rparr>"

definition client_example :: tcp_socket where
  "client_example = (tcp_init_socket raw_slot)\<lparr>in_use := True, t_state := TCP_STATE_ESTABLISHED, local_port := 80,
     remote_port := 4000, remote_ip := [10, 0, 0, 1]\<rparr>"

lemma tcp_heap_example_alloc:
  "\<exists>h. kmalloc 33664 tcp_heap_example = Some (65560, h) \<and>
     heap_rep h [(33664, False), (1014864, True)] \<and> heap_start h = 65536"
proof -
  have rep: "heap_rep tcp_heap_example [(1048552, True)]"
    using kheap_init_rep [of 65536 1048576] by (simp add: tcp_heap_example_def addr_space_def)
  have start: "heap_start tcp_heap_example = 65536"
    by (simp add: tcp_heap_example_def kheap_init_def c_defs Let_def)
  have "spec_alloc (rounded 33664) (base tcp_heap_example) [(1048552, True)] =
      Some (65560, [(33664, False), (1014864, True)])"
    by (simp add: rounded_def addr_space_def carve_def start)
  from kmalloc_some [OF rep _ this] start show ?thesis by auto
qed

lemma sock_ok_examples: "sock_ok listener_example" "sock_ok client_example" "recv_holds client_example []"
  using fresh_sock(1) recv_holds_empty [of client_example]
  by (auto simp: listener_example_def client_example_def sock_ok_def recv_holds_def tcp_init_socket_def raw_slot_def)

lemma tcp_example_ok:
  assumes "length ks = 8" and "\<forall>k \<in> set ks. sock_ok k"
  shows "tcp_ok (tcp_example ks)"
proof -
  obtain h where h: "kmalloc 33664 tcp_heap_example = Some (65560, h)"
    "heap_rep h [(33664, False), (1014864, True)]" "heap_start h = 65536"
    using tcp_heap_example_alloc by blast
  have "heap_allocs h {(65560, 33664)}"
    using h(2,3) by (auto simp: heap_allocs_def intro!: exI)
  then have "table_alloc (tcp_example ks)"
    unfolding table_alloc_def by (intro exI [of _ "{(65560, 33664)}"]) (simp add: tcp_example_def h(1))
  then show ?thesis using assms by (simp add: tcp_ok_def tcp_example_def)
qed

lemma tcp_example_grows:
  assumes "length ks = 8" and "\<forall>k \<in> set ks. sock_ok k"
  shows "\<exists>t'. tcp_grow_sockets (tcp_example ks) = Some (True, t')"
proof -
  obtain h where h: "kmalloc 33664 tcp_heap_example = Some (65560, h)"
    "heap_rep h [(33664, False), (1014864, True)]" "heap_start h = 65536"
    using tcp_heap_example_alloc by blast
  have "spec_alloc (rounded 67328) (base h) [(33664, False), (1014864, True)] =
      Some (99248, [(33664, False), (67328, False), (947512, True)])"
    using h(3) by (simp add: rounded_def addr_space_def carve_def)
  from kmalloc_some [OF h(2) _ this] obtain h' where k: "kmalloc 67328 h = Some (99248, h')" by auto
  from tcp_example_ok [OF assms] show ?thesis
  proof (cases rule: tcp_grow_sockets_cases)
    case (no h'')
    then show ?thesis using h(1) k
      by (simp add: tcp_grow_sockets_def tcp_example_def c_defs split: Option.bind_splits)
  qed blast
qed

lemma ip_stack_example_ok: "ip_stack_ok ip_stack_example"
proof -
  have "core_ok (st_core ip_stack_example)"
    by (simp add: ip_stack_example_def host_example_def core_ok_def)
  then show ?thesis
    using arp_empty_ok by (simp add: ip_stack_ok_def ip_stack_example_def routes_sized_def c_defs)
qed

section \<open>Sent segments on the wire\<close>

text \<open>The hardware is reachable: the default interface has a transmit hook and an address.\<close>

definition online :: "nat \<Rightarrow> ip_stack \<Rightarrow> bool" where
  "online i s \<longleftrightarrow> netif_get_default (st_core s) = Some i \<and>
     (\<exists>ni. netif_at (st_core s) (Some i) = Some ni \<and> ni_send ni \<and> ip_addr ni \<noteq> 0)"

definition reachable :: "bytes \<Rightarrow> ip_stack \<Rightarrow> bool" where
  "reachable ip s \<longleftrightarrow> (\<exists>hop mac. route_get_next_hop ip (st_route s) = Some hop \<and> arp_cache_lookup hop (st_arp s) = Some mac)"

lemma online_ip: "online i s \<Longrightarrow> my_ip (Some i) (st_core s) = source_ip (Some i) (st_core s)"
  by (auto simp: online_def my_ip_def source_ip_def)

lemma tcp_segment_verifies:
  assumes "length src = 4" and "length (remote_ip k) = 4" and "length data \<le> 65000"
  shows "tcp_checksum src (remote_ip k) (take 20 (tcp_segment src k flags data)) (drop 20 (tcp_segment src k flags data))
    (int (length data)) = Some 0"
proof -
  let ?h = "tcp_header (local_port k) (remote_port k) (t_seq k) (t_ack k) flags (htons (t_window k))"
  obtain c where c: "tcp_checksum src (remote_ip k) (?h 0) data (int (length data)) = Some c"
    using tcp_checksum_eq [OF assms(1,2) _ assms(3), of "?h 0"] by simp
  then show ?thesis
    using tcp_checksum_fills [OF assms c] by (simp add: tcp_segment_def Let_def)
qed

lemma tcp_segment_fields:
  "length (tcp_segment src k flags data) = 20 + length data" "drop 20 (tcp_segment src k flags data) = data"
  "\<exists>c. take 20 (tcp_segment src k flags data) =
     tcp_header (local_port k) (remote_port k) (t_seq k) (t_ack k) flags (htons (t_window k)) c"
  by (simp_all add: tcp_segment_def Let_def) blast

lemma tcp_send_packet_wire:
  assumes "ip_stack_ok s" and "sock_at t p = Some k" and "length (remote_ip k) = 4" and "online i s"
    and "reachable (remote_ip k) s" and "0 \<le> len" and "nat len \<le> length payload" and "len \<le> 1464"
  obtains s' f where "tcp_send_packet (Some p) flags payload len (t, s) =
      Some (t\<lparr>tcp_sockets := (tcp_sockets t)[snd p := k\<lparr>t_seq := t_seq k + of_int (seq_advance flags len)\<rparr>]\<rparr>, s')"
    and "tx (st_core s') = tx (st_core s) @ [(Via_Netif i, f)]"
    and "load_field f 26 4 = Some (source_ip (Some i) (st_core s))"
    and "load_field f 30 4 = Some (remote_ip k)"
    and "load_field f 34 (20 + nat len) = Some (tcp_segment (source_ip (Some i) (st_core s)) k flags (take (nat len) payload))"
    and "ip_stack_ok s'"
proof -
  from assms(5) obtain hop mac where hop: "route_get_next_hop (remote_ip k) (st_route s) = Some hop"
    "arp_cache_lookup hop (st_arp s) = Some mac" by (auto simp: reachable_def)
  have ok: "core_ok (st_core s)" "arp_ok (st_arp s)" using assms(1) by (simp_all add: ip_stack_ok_def)
  have mac: "length mac = 6" using ok(2) hop(2) by (rule arp_lookup_length)
  from assms(4) obtain ni where ni: "netif_get_default (st_core s) = Some i" "netif_at (st_core s) (Some i) = Some ni" "ni_send ni"
    by (auto simp: online_def)
  let ?seg = "tcp_segment (source_ip (Some i) (st_core s)) k flags (take (nat len) payload)"
  let ?f = "ipv4_frame (Some i) mac (remote_ip k) IP_PROTO_TCP ?seg s"
  have len: "length ?seg = 20 + nat len" using assms(7) by (simp add: tcp_segment_fields)
  let ?s = "s\<lparr>st_core := snd (transmit (Some i) ?f (st_core s)), ip_id_counter := ip_id_counter s + 1\<rparr>"
  show thesis
  proof (rule that [of ?s ?f])
    show "tcp_send_packet (Some p) flags payload len (t, s) =
      Some (t\<lparr>tcp_sockets := (tcp_sockets t)[snd p := k\<lparr>t_seq := t_seq k + of_int (seq_advance flags len)\<rparr>]\<rparr>, ?s)"
      using tcp_send_packet_eq [OF assms(1-3,6,7), of flags] assms(8) hop ni(1) online_ip [OF assms(4)] by simp
    show "tx (st_core ?s) = tx (st_core s) @ [(Via_Netif i, ?f)]" using transmit_hooked [OF ni(2,3)] by simp
    show "load_field ?f 34 (20 + nat len) = Some ?seg"
      using ipv4_frame_fields(5) [OF ok(1) mac assms(3), of "Some i" IP_PROTO_TCP ?seg] len by simp
    show "ip_stack_ok ?s" using assms(1) by (simp add: ip_stack_ok_def transmit_core_ok)
  qed (rule ipv4_frame_fields(6,7) [OF ok(1) mac assms(3)])+
qed

text \<open>An interface with an address, a route to its network and one resolved neighbour.\<close>

definition lan_route_example :: route_state where
  "lan_route_example = \<lparr>routes = \<lparr>r_network = [10, 0, 0, 0], r_netmask = [255, 255, 255, 0], r_gateway = [0, 0, 0, 0],
       r_interface = Some 0, r_active = True\<rparr> # tl (routes (st_route ip_stack_example)), route_count = 1\<rparr>"

definition online_example :: ip_stack where
  "online_example = ip_stack_example\<lparr>st_arp := arp_cache_add [10, 0, 0, 1] [2, 0, 0, 0, 0, 1] arp_empty,
     st_route := lan_route_example\<rparr>"

lemma online_example:
  "ip_stack_ok online_example" "online 0 online_example" "reachable [10, 0, 0, 1] online_example"
  "tx (st_core online_example) = []"
proof -
  have c: "core_ok (st_core online_example)" "netif_get_default (st_core online_example) = Some 0"
    "tx (st_core online_example) = []"
    by (simp_all add: online_example_def ip_stack_example_def host_example_def core_ok_def netif_get_default_def)
  have a: "arp_ok (st_arp online_example)" "arp_cache_lookup [10, 0, 0, 1] (st_arp online_example) = Some [2, 0, 0, 0, 0, 1]"
    using arpc.add_ok [OF arp_empty_ok] arpc.lookup_add [OF arp_empty_ok] by (simp_all add: online_example_def)
  have "routes_sized (st_route online_example)"
    by (simp add: routes_sized_def online_example_def lan_route_example_def ip_stack_example_def c_defs numeral_eq_Suc)
  then show "ip_stack_ok online_example" using c a by (simp add: ip_stack_ok_def)
  show "online 0 online_example" using c(2)
    by (simp add: online_def online_example_def ip_stack_example_def host_example_def netif_at_def)
  have "lan_route_example = \<lparr>routes = \<lparr>r_network = [10, 0, 0, 0], r_netmask = [255, 255, 255, 0], r_gateway = [0, 0, 0, 0],
       r_interface = Some 0, r_active = True\<rparr> # replicate 7 \<lparr>r_network = [0, 0, 0, 0], r_netmask = [0, 0, 0, 0],
       r_gateway = [0, 0, 0, 0], r_interface = None, r_active = False\<rparr>, route_count = 1\<rparr>"
    by (simp add: lan_route_example_def ip_stack_example_def numeral_eq_Suc)
  moreover have "route_get_next_hop [10, 0, 0, 1] \<lparr>routes = \<lparr>r_network = [10, 0, 0, 0], r_netmask = [255, 255, 255, 0],
       r_gateway = [0, 0, 0, 0], r_interface = Some 0, r_active = True\<rparr> # replicate 7 \<lparr>r_network = [0, 0, 0, 0],
       r_netmask = [0, 0, 0, 0], r_gateway = [0, 0, 0, 0], r_interface = None, r_active = False\<rparr>, route_count = 1\<rparr> =
      Some [10, 0, 0, 1]"
    by code_simp
  ultimately have "route_get_next_hop [10, 0, 0, 1] (st_route online_example) = Some [10, 0, 0, 1]"
    by (simp add: online_example_def)
  then show "reachable [10, 0, 0, 1] online_example" using a(2) by (auto simp: reachable_def)
  show "tx (st_core online_example) = []" by (rule c(3))
qed

lemma tcp_send_cases:
  assumes "tcp_ok t" and "ip_stack_ok s" and "sock_at t p = Some k" and "t_state k = TCP_STATE_ESTABLISHED"
    and "online i s" and "reachable (remote_ip k) s" and "0 < len" and "nat len \<le> length buf"
  shows "len \<le> 1464 \<Longrightarrow> \<exists>t' s' f src seg. tcp_send (Some p) (Some buf) len (t, s) = Some (len, t', s') \<and>
      tx (st_core s') = tx (st_core s) @ [(Via_Netif i, f)] \<and> load_field f 26 4 = Some src \<and>
      load_field f 30 4 = Some (remote_ip k) \<and> load_field f 34 (20 + nat len) = Some seg \<and>
      load32 seg 4 = Some (htonl (t_seq k)) \<and> drop 20 seg = take (nat len) buf \<and>
      tcp_checksum src (remote_ip k) (take 20 seg) (drop 20 seg) len = Some 0 \<and>
      sock_at t' p = Some (k\<lparr>t_seq := t_seq k + of_int len\<rparr>)"
    and "1464 < len \<Longrightarrow> len \<le> 1480 \<Longrightarrow> tcp_send (Some p) (Some buf) len (t, s) = None"
    and "1480 < len \<Longrightarrow> tcp_send (Some p) (Some buf) len (t, s) = Some (len, t, s)"
proof -
  have ip: "length (remote_ip k) = 4" using tcp_ok_sock [OF assms(1,3)] by (simp add: sock_ok_def)
  have src: "length (source_ip (Some i) (st_core s)) = 4"
    using assms(2) by (intro length_source_ip) (simp add: ip_stack_ok_def)
  have send: "tcp_send (Some p) (Some buf) len (t, s) = do {
      w \<leftarrow> tcp_send_packet (Some p) (TCP_FLAG_ACK OR TCP_FLAG_PSH) buf len (t, s); Some (len, w) }"
    using assms(3,4,7) by (simp add: tcp_send_def)
  have pos: "0 \<le> len" using assms(7) by simp
  note eq = tcp_send_packet_eq [OF assms(2,3) ip pos assms(8), of "TCP_FLAG_ACK OR TCP_FLAG_PSH"]
  show "1480 < len \<Longrightarrow> tcp_send (Some p) (Some buf) len (t, s) = Some (len, t, s)" using eq by (simp add: send)
  show "1464 < len \<Longrightarrow> len \<le> 1480 \<Longrightarrow> tcp_send (Some p) (Some buf) len (t, s) = None"
    using eq assms(6) by (auto simp: send reachable_def)
  assume le: "len \<le> 1464"
  let ?seg = "tcp_segment (source_ip (Some i) (st_core s)) k (TCP_FLAG_ACK OR TCP_FLAG_PSH) (take (nat len) buf)"
  obtain s' f where w: "tcp_send_packet (Some p) (TCP_FLAG_ACK OR TCP_FLAG_PSH) buf len (t, s) =
      Some (t\<lparr>tcp_sockets := (tcp_sockets t)[snd p := k\<lparr>t_seq := t_seq k + of_int (seq_advance (TCP_FLAG_ACK OR TCP_FLAG_PSH) len)\<rparr>]\<rparr>, s')"
    "tx (st_core s') = tx (st_core s) @ [(Via_Netif i, f)]"
    "load_field f 26 4 = Some (source_ip (Some i) (st_core s))" "load_field f 30 4 = Some (remote_ip k)"
    "load_field f 34 (20 + nat len) = Some ?seg" "ip_stack_ok s'"
    by (rule tcp_send_packet_wire [OF assms(2,3) ip assms(5,6) pos assms(8) le])
  have adv: "seq_advance (TCP_FLAG_ACK OR TCP_FLAG_PSH) len = len" using assms(7) by (simp add: seq_advance_def c_defs)
  have l: "int (length (take (nat len) buf)) = len" using assms(7,8) by simp
  have ck: "tcp_checksum (source_ip (Some i) (st_core s)) (remote_ip k) (take 20 ?seg) (drop 20 ?seg) len = Some 0"
    using tcp_segment_verifies [OF src ip, of "take (nat len) buf" "TCP_FLAG_ACK OR TCP_FLAG_PSH"] le l by simp
  have sq: "load32 ?seg 4 = Some (htonl (t_seq k))" by (simp add: tcp_segment_def Let_def tcp_header_fields)
  let ?t = "t\<lparr>tcp_sockets := (tcp_sockets t)[snd p := k\<lparr>t_seq := t_seq k + of_int len\<rparr>]\<rparr>"
  have "tcp_send (Some p) (Some buf) len (t, s) = Some (len, ?t, s')" "sock_at ?t p = Some (k\<lparr>t_seq := t_seq k + of_int len\<rparr>)"
    using w(1) assms(3) by (simp_all add: send adv)
  with w(2-5) ck sq show "\<exists>t' s' f src seg. tcp_send (Some p) (Some buf) len (t, s) = Some (len, t', s') \<and>
      tx (st_core s') = tx (st_core s) @ [(Via_Netif i, f)] \<and> load_field f 26 4 = Some src \<and>
      load_field f 30 4 = Some (remote_ip k) \<and> load_field f 34 (20 + nat len) = Some seg \<and>
      load32 seg 4 = Some (htonl (t_seq k)) \<and> drop 20 seg = take (nat len) buf \<and>
      tcp_checksum src (remote_ip k) (take 20 seg) (drop 20 seg) len = Some 0 \<and>
      sock_at t' p = Some (k\<lparr>t_seq := t_seq k + of_int len\<rparr>)"
    by (intro exI [of _ ?t] exI [of _ s'] exI [of _ f] exI [of _ "source_ip (Some i) (st_core s)"] exI [of _ ?seg])
       (simp add: tcp_segment_fields)
qed

section \<open>Opening a connection\<close>

lemma first_index_none_update:
  assumes "first_index P xs = None" and "i < length xs" and "P y"
  shows "first_index P (xs[i := y]) = Some i"
  using assms by (intro first_index_SomeI) (auto simp: first_index_None_iff)

text \<open>The socket that a request from \<open>src_ip\<close> and \<open>src_port\<close> gets in slot \<open>i\<close>.\<close>

definition request_sock :: "tcp_table \<Rightarrow> nat \<Rightarrow> bytes \<Rightarrow> u16 \<Rightarrow> u16 \<Rightarrow> u32 \<Rightarrow> u32 \<Rightarrow> tcp_socket" where
  "request_sock t i src_ip src_port port isn ack_num = (tcp_sockets t ! i)\<lparr>in_use := True, local_port := port,
     remote_ip := src_ip, remote_port := src_port, t_seq := isn, t_ack := ack_num, t_state := TCP_STATE_SYN_RCVD,
     t_window := TCP_WINDOW_SIZE\<rparr>"

lemma tcp_syn_accepted:
  fixes ticks :: u64 and sq :: u32
  assumes "tcp_ok t" and "ip_stack_ok s" and "online j s" and "reachable src_ip s"
    and "load_field ip_hdr 12 4 = Some src_ip" and "tcp_find_listening_socket port t = Some l"
    and "tcp_find_socket port src_ip src_port t = None"
    and "first_index (\<lambda>k. \<not> in_use k) (tcp_sockets t) = Some i"
  defines "k1 \<equiv> request_sock t i src_ip src_port port (ucast ticks * 12345) (sq + 1)"
  obtains t1 s1 f c where
    "tcp_handle_packet ip_hdr (tcp_header src_port port sq ak TCP_FLAG_SYN w0 c0) 20 ticks (t, s) = Some (t1, s1)"
    and "tcp_ok t1" and "ip_stack_ok s1" and "tcp_base t1 = tcp_base t"
    and "tcp_sockets t1 = (tcp_sockets t)[i := k1\<lparr>t_seq := ucast ticks * 12345 + 1\<rparr>]"
    and "tx (st_core s1) = tx (st_core s) @ [(Via_Netif j, f)]" and "load_field f 30 4 = Some src_ip"
    and "load_field f 34 20 = Some (tcp_header port src_port (ucast ticks * 12345) (sq + 1)
           (TCP_FLAG_SYN OR TCP_FLAG_ACK) (htons TCP_WINDOW_SIZE) c)"
proof -
  let ?isn = "ucast ticks * 12345 :: u32" and ?c = "(tcp_base t, i)" and ?fl = "TCP_FLAG_SYN OR TCP_FLAG_ACK"
  have ip: "length src_ip = 4" using assms(5) by (auto simp: load_field_def split: if_splits)
  note slot = take_slot_ok [OF assms(1,8)]
  obtain kl where kl: "sock_at t l = Some kl" "in_use kl" "local_port kl = port" "t_state kl = TCP_STATE_LISTEN"
    using assms(6) unfolding tcp_find_listening_socket_def by (elim find_sock_SomeD) auto
  have ne: "snd l \<noteq> i" using kl(1,2) assms(8) by (auto simp: sock_at_Some dest!: first_index_SomeD)
  have l: "sock_at (take_slot i t) l = Some kl" using kl(1) ne by (auto simp: sock_at_Some take_slot_def)
  let ?t = "(take_slot i t)\<lparr>tcp_sockets := (tcp_sockets t)[i := k1]\<rparr>"
  let ?q = "queue_calls (init_queues i) ?t"
  have i: "i < length (tcp_sockets t)" by (rule slot(3))
  have k1: "in_use k1" "remote_ip k1 = src_ip" "t_seq k1 = ?isn" by (simp_all add: k1_def request_sock_def)
  have "sock_ok (tcp_sockets t ! i)" using assms(1) i by (simp add: tcp_ok_def)
  then have "sock_ok k1" using ip by (auto simp: k1_def request_sock_def sock_ok_def recv_holds_def)
  then have okt: "tcp_ok ?t"
    using tcp_ok_update [OF slot(1,2), of k1] k1(1) by (simp add: take_slot_def)
  have at: "sock_at ?q ?c = Some k1" using i by (simp add: sock_at_Some take_slot_def queue_calls_def)
  obtain s1 f where snd: "tcp_send_packet (Some ?c) ?fl [] 0 (?q, s) =
      Some (?q\<lparr>tcp_sockets := (tcp_sockets ?q)[snd ?c := k1\<lparr>t_seq := t_seq k1 + of_int (seq_advance ?fl 0)\<rparr>]\<rparr>, s1)"
    "tx (st_core s1) = tx (st_core s) @ [(Via_Netif j, f)]" "load_field f 30 4 = Some (remote_ip k1)"
    "load_field f 34 (20 + nat 0) = Some (tcp_segment (source_ip (Some j) (st_core s)) k1 ?fl (take (nat 0) []))" "ip_stack_ok s1"
    by (rule tcp_send_packet_wire [OF assms(2) at _ assms(3), of 0 "[]" ?fl]) (use ip assms(4) k1 in auto)
  let ?k = "k1\<lparr>t_seq := ?isn + 1\<rparr>"
  have adv: "t_seq k1 + of_int (seq_advance ?fl 0) = ?isn + 1" by (simp add: k1 seq_advance_def c_defs)
  let ?t1 = "?q\<lparr>tcp_sockets := (tcp_sockets ?q)[i := ?k]\<rparr>"
  obtain c where c: "take 20 (tcp_segment (source_ip (Some j) (st_core s)) k1 ?fl []) =
      tcp_header port src_port ?isn (sq + 1) ?fl (htons TCP_WINDOW_SIZE) c"
    using tcp_segment_fields(3) [of _ k1 ?fl "[]"] by (auto simp: k1_def request_sock_def)
  have syn: "(TCP_FLAG_SYN AND 0x3F) AND TCP_FLAG_SYN \<noteq> 0" "(TCP_FLAG_SYN AND 0x3F) AND TCP_FLAG_ACK = 0"
    by (simp_all add: c_defs)
  have seg: "segment_socket (TCP_FLAG_SYN AND 0x3F) port src_ip src_port t = Some l"
    using assms(6,7) syn by (simp add: segment_socket_def)
  have alloc: "tcp_alloc_socket t = Some (Some ?c, take_slot i t)" using assms(8) by (simp add: tcp_alloc_socket_def)
  have set: "set_sock ?c (\<lambda>k. k\<lparr>local_port := local_port kl, remote_ip := src_ip, remote_port := src_port,
      t_seq := ?isn, t_ack := sq + 1, t_state := TCP_STATE_SYN_RCVD, t_window := TCP_WINDOW_SIZE\<rparr>) (take_slot i t) = Some ?t"
    using set_sock_eq [OF slot(2)] kl(3) by (simp add: take_slot_def k1_def request_sock_def)
  show thesis
  proof (rule that [of ?t1 s1 f c])
    show "tcp_handle_packet ip_hdr (tcp_header src_port port sq ak TCP_FLAG_SYN w0 c0) 20 ticks (t, s) = Some (?t1, s1)"
      using tcp_handle_segment [OF assms(5), of src_port port sq ak TCP_FLAG_SYN w0 c0 "[]" "[]" ticks t s] seg kl(1,4) syn(1)
        alloc l set snd(1) adv by (simp add: handle_listen_def)
    show "tcp_ok ?t1"
      by (rule tcp_ok_update [of ?q ?c k1 ?k, simplified]) (use okt at \<open>sock_ok k1\<close> in simp_all)
    show "load_field f 34 20 = Some (tcp_header port src_port ?isn (sq + 1) ?fl (htons TCP_WINDOW_SIZE) c)"
      using snd(4) c tcp_segment_fields(1) [of _ k1 ?fl "[]"] by simp
  qed (use snd(2,3,5) k1 in \<open>simp_all add: queue_calls_def take_slot_def\<close>)
qed

lemma tcp_ack_establishes:
  assumes "tcp_ok t" and "ip_stack_ok s" and "load_field ip_hdr 12 4 = Some src_ip"
    and "tcp_find_socket port src_ip src_port t = Some p" and "sock_at t p = Some k"
    and "t_state k = TCP_STATE_SYN_RCVD" and "local_port k = port"
  obtains t2 where
    "tcp_handle_packet ip_hdr (tcp_header src_port port sq (t_seq k) TCP_FLAG_ACK w c) 20 ticks (t, s) = Some (t2, s)"
    and "tcp_ok t2" and "tcp_base t2 = tcp_base t"
    and "tcp_sockets t2 = (tcp_sockets t)[snd p := k\<lparr>t_state := TCP_STATE_ESTABLISHED\<rparr>]"
proof -
  let ?k = "k\<lparr>t_state := TCP_STATE_ESTABLISHED\<rparr>"
  let ?t = "t\<lparr>tcp_sockets := (tcp_sockets t)[snd p := ?k]\<rparr>"
  let ?q = "wake_listener port (queue_calls [Queue_Wake_All (snd p) State_Queue] ?t)"
  have e: "establish p t = Some ?q"
    using assms(5,7) set_sock_eq [OF assms(5)] by (simp add: establish_def)
  have fl: "(TCP_FLAG_ACK AND 0x3F) AND TCP_FLAG_SYN = 0" "(TCP_FLAG_ACK AND 0x3F) AND TCP_FLAG_ACK \<noteq> 0"
    "(TCP_FLAG_ACK AND 0x3F) AND TCP_FLAG_RST = 0" by (simp_all add: c_defs)
  have seg: "segment_socket (TCP_FLAG_ACK AND 0x3F) port src_ip src_port t = Some p"
    using assms(4) by (simp add: segment_socket_def)
  have w: "tcp_base ?q = tcp_base t" "tcp_sockets ?q = tcp_sockets ?t" "tcp_ok ?q = tcp_ok ?t"
    by (auto simp: wake_listener_def queue_calls_def split: option.split)
      (auto simp: tcp_ok_def table_alloc_def)
  show thesis
  proof (rule that [of ?q])
    show "tcp_handle_packet ip_hdr (tcp_header src_port port sq (t_seq k) TCP_FLAG_ACK w c) 20 ticks (t, s) = Some (?q, s)"
      using tcp_handle_segment [OF assms(3), of src_port port sq "t_seq k" TCP_FLAG_ACK w c "[]" "[]" ticks t s] seg assms(5,6) fl e
      by (simp add: handle_syn_rcvd_def)
    show "tcp_ok ?q"
      unfolding w using tcp_ok_update [OF assms(1,5), of ?k] tcp_ok_sock [OF assms(1,5)] by simp
  qed (use w in simp_all)
qed

section \<open>Properties\<close>

text \<open>
  C19: Whatever segment arrives and whatever state its socket is in, the handler reads and writes in
  bounds, returns, and leaves a well-formed table: as many live sockets as counted, circular
  buffers in order, the table an allocation of the heap. The one exception is excluded by the last
  premise: a full table that has to move for the socket of a new connection.
\<close>

theorem tcp_handle_packet_safe:
  assumes "tcp_ok t" and "ip_stack_ok s" and "nat len \<le> length data" and "16 \<le> length ip_hdr"
    and "\<not> table_moves t"
  shows "\<exists>t' s'. tcp_handle_packet ip_hdr data len ticks (t, s) = Some (t', s') \<and> tcp_ok t' \<and> ip_stack_ok s'"
proof -
  have "yields (tcp_handle_packet ip_hdr data len ticks (t, s)) (\<lambda>w. tcp_ok (fst w) \<and> ip_stack_ok (snd w))"
    by (rule tcp_handle_packet_lift [OF assms(1-4), where R = "\<lambda>m. yields m (\<lambda>w. tcp_ok (fst w) \<and> ip_stack_ok (snd w))"])
       (assumption | rule handle_listen_yields [OF _ _ assms(5)])+
  then show ?thesis by (auto simp: yields_def)
qed

theorem tcp_handle_packet_safe_witness:
  "\<exists>t' s'. tcp_handle_packet (replicate 20 7) (tcp_header 4000 80 5 6 0x11 0 0 @ [1, 2, 3]) 23 9
      (tcp_example (client_example # replicate 7 (tcp_init_socket raw_slot)), ip_stack_example) = Some (t', s') \<and>
     tcp_ok t' \<and> ip_stack_ok s'"
  using tcp_handle_packet_safe [OF tcp_example_ok ip_stack_example_ok, of "client_example # replicate 7 (tcp_init_socket raw_slot)"
      23 "tcp_header 4000 80 5 6 0x11 0 0 @ [1, 2, 3]" "replicate 20 7" 9] fresh_sock sock_ok_examples
  by (simp add: tcp_example_def table_moves_def)

text \<open>
  C38: A connection request that makes the table grow uses a dangling pointer. When every slot is
  taken and the heap has room, allocating the socket of the new connection moves the table and
  frees the old one, and the handler then reads the port of the listening socket in the old one.
\<close>

theorem tcp_syn_uses_freed_table:
  assumes "tcp_ok t" and "\<forall>k \<in> set (tcp_sockets t). in_use k" and "tcp_grow_sockets t = Some (True, t')"
    and "load_field ip_hdr 12 4 = Some src_ip"
    and "tcp_find_socket port src_ip src_port t = None" and "tcp_find_listening_socket port t = Some p"
  shows "tcp_handle_packet ip_hdr (tcp_header src_port port sq ak TCP_FLAG_SYN w c) 20 ticks (t, s) = None"
proof -
  have syn: "(TCP_FLAG_SYN AND 0x3F) AND TCP_FLAG_SYN \<noteq> 0" "(TCP_FLAG_SYN AND 0x3F) AND TCP_FLAG_ACK = 0"
    by (simp_all add: c_defs)
  have seg: "segment_socket (TCP_FLAG_SYN AND 0x3F) port src_ip src_port t = Some p"
    using assms(5,6) syn by (simp add: segment_socket_def)
  obtain k where k: "sock_at t p = Some k" "t_state k = TCP_STATE_LISTEN"
    using assms(6) unfolding tcp_find_listening_socket_def by (elim find_sock_SomeD) auto
  have "handle_listen p src_ip src_port port sq (TCP_FLAG_SYN AND 0x3F) ticks (t, s) = None"
    using assms(1)
  proof (cases rule: tcp_alloc_socket_cases)
    case (slot i)
    then show ?thesis using assms(2) by (auto dest!: first_index_SomeD)
  next
    case (none h)
    then show ?thesis using assms(2,3) by (auto simp: table_moves_def)
  next
    case (moved u)
    have "sock_at u p = None" using k(1) moved(4) by (simp add: sock_at_def split: if_splits)
    then show ?thesis using syn(1) moved(2) by (simp add: handle_listen_def)
  qed
  then show ?thesis
    using tcp_handle_segment [OF assms(4), of src_port port sq ak TCP_FLAG_SYN w c "[]" "[]" ticks t s] seg k by simp
qed

theorem tcp_syn_uses_freed_table_witness:
  "tcp_handle_packet (replicate 12 0 @ [10, 0, 0, 1]) (tcp_header 4000 80 5 0 TCP_FLAG_SYN 0 0) 20 9
     (tcp_example (replicate 8 listener_example), ip_stack_example) = None"
proof -
  let ?ks = "replicate 8 listener_example"
  have ok: "length ?ks = 8" "\<forall>k \<in> set ?ks. sock_ok k" using sock_ok_examples by auto
  obtain t' where g: "tcp_grow_sockets (tcp_example ?ks) = Some (True, t')" using tcp_example_grows [OF ok] by blast
  have "\<forall>k \<in> set (tcp_sockets (tcp_example ?ks)). in_use k" "tcp_find_socket 80 [10, 0, 0, 1] 4000 (tcp_example ?ks) = None"
    "tcp_find_listening_socket 80 (tcp_example ?ks) = Some (65560, 0)"
    by (simp_all add: tcp_example_def listener_example_def tcp_init_socket_def tcp_find_socket_def
        tcp_find_listening_socket_def find_sock_def numeral_eq_Suc)
  from tcp_syn_uses_freed_table [OF tcp_example_ok [OF ok] this(1) g _ this(2,3), of "replicate 12 0 @ [10, 0, 0, 1]"]
  show ?thesis by (simp add: load_field_def)
qed

text \<open>
  C20: What an application reads is what the peer sent, in the order of arrival: after any number of
  segments of an established connection, \<open>tcp_recv\<close> returns the bytes that were waiting followed
  by the payloads, if they fit the buffer of 4096 bytes. Sequence numbers and checksums play no
  role: a segment that arrives twice is read twice.
\<close>

theorem tcp_stream_in_order:
  assumes "connected p lport rip rport q w" and "load_field ip_hdr 12 4 = Some rip"
    and "\<forall>(sq, ak, fl, win, c, d) \<in> set segs. fl AND TCP_FLAG_FIN = 0 \<and> fl AND TCP_FLAG_RST = 0"
    and "n = length q + length (seg_data segs)" and "0 < n" and "n \<le> 4096" and "n \<le> length buf"
  shows "\<exists>t s t'. tcp_deliver ip_hdr rport lport ticks segs w = Some (t, s) \<and>
    tcp_recv (Some p) (Some buf) (int n) t = Some (int n, Some (q @ seg_data segs @ drop n buf), t') \<and>
    connected p lport rip rport [] (t', s)"
proof -
  obtain w' where w': "tcp_deliver ip_hdr rport lport ticks segs w = Some w'"
    "connected p lport rip rport (q @ seg_data segs) w'"
    by (rule connected_deliver [OF assms(1-3)]) (use assms(4,6) in auto)
  obtain t s where ts: "w' = (t, s)" by (cases w')
  obtain t' where "tcp_recv (Some p) (Some buf) (int n) t =
      Some (int (min n (length (q @ seg_data segs))),
        Some (take n (q @ seg_data segs) @ drop (min n (length (q @ seg_data segs))) buf), t')"
    "connected p lport rip rport (drop n (q @ seg_data segs)) (t', s)"
    by (rule connected_recv [OF w'(2) [unfolded ts] assms(5,7)])
  then show ?thesis using w'(1) ts assms(4) by auto
qed

theorem tcp_stream_in_order_witness:
  "\<exists>t s t'. tcp_deliver (replicate 12 0 @ [10, 0, 0, 1]) 4000 80 9
       [(100, 0, TCP_FLAG_ACK, 0, 0, [71, 69]), (100, 0, TCP_FLAG_ACK, 0, 0, [71, 69]), (7, 0, TCP_FLAG_PSH, 0, 0, [84])]
       (tcp_example (replicate 8 client_example), ip_stack_example) = Some (t, s) \<and>
     tcp_recv (Some (65560, 0)) (Some [0, 0, 0, 0, 0, 1]) 5 t = Some (5, Some [71, 69, 71, 69, 84, 1], t') \<and>
     connected (65560, 0) 80 [10, 0, 0, 1] 4000 [] (t', s)"
proof -
  let ?w = "(tcp_example (replicate 8 client_example), ip_stack_example)"
  have "tcp_ok (fst ?w)" using sock_ok_examples tcp_example_ok [of "replicate 8 client_example"] by simp
  moreover have "tcp_find_socket 80 [10, 0, 0, 1] 4000 (fst ?w) = Some (65560, 0)" "sock_at (fst ?w) (65560, 0) = Some client_example"
    by (simp_all add: tcp_example_def client_example_def tcp_init_socket_def tcp_find_socket_def find_sock_def
        sock_at_def numeral_eq_Suc)
  ultimately have "connected (65560, 0) 80 [10, 0, 0, 1] 4000 [] ?w"
    using ip_stack_example_ok sock_ok_examples(3) by (simp add: connected_def client_example_def)
  from tcp_stream_in_order [OF this, of "replicate 12 0 @ [10, 0, 0, 1]"
      "[(100, 0, TCP_FLAG_ACK, 0, 0, [71, 69]), (100, 0, TCP_FLAG_ACK, 0, 0, [71, 69]), (7, 0, TCP_FLAG_PSH, 0, 0, [84])]"
      5 "[0, 0, 0, 0, 0, 1]" 9]
  show ?thesis by (simp add: load_field_def seg_data_def c_defs)
qed

text \<open>
  C23: What \<open>tcp_send\<close> does with \<open>len\<close> bytes on an established connection to a reachable peer. Up to
  1464 bytes, one frame goes out whose segment carries the sequence number, the data, and a checksum
  that verifies against the addresses in the IP header; the sequence number advances by \<open>len\<close>. From
  1465 to 1480 bytes the frame does not fit the buffer of \<open>ipv4_send_packet\<close>. Above that nothing is
  sent, and the caller is told that everything was.
\<close>

theorem tcp_send_regimes:
  assumes "tcp_ok t" and "ip_stack_ok s" and "sock_at t p = Some k" and "t_state k = TCP_STATE_ESTABLISHED"
    and "online i s" and "reachable (remote_ip k) s" and "0 < len" and "nat len \<le> length buf"
  shows "(len \<le> 1464 \<longrightarrow> (\<exists>t' s' f src seg. tcp_send (Some p) (Some buf) len (t, s) = Some (len, t', s') \<and>
      tx (st_core s') = tx (st_core s) @ [(Via_Netif i, f)] \<and> load_field f 26 4 = Some src \<and>
      load_field f 30 4 = Some (remote_ip k) \<and> load_field f 34 (20 + nat len) = Some seg \<and>
      load32 seg 4 = Some (htonl (t_seq k)) \<and> drop 20 seg = take (nat len) buf \<and>
      tcp_checksum src (remote_ip k) (take 20 seg) (drop 20 seg) len = Some 0 \<and>
      sock_at t' p = Some (k\<lparr>t_seq := t_seq k + of_int len\<rparr>))) \<and>
    (1464 < len \<and> len \<le> 1480 \<longrightarrow> tcp_send (Some p) (Some buf) len (t, s) = None) \<and>
    (1480 < len \<longrightarrow> tcp_send (Some p) (Some buf) len (t, s) = Some (len, t, s))"
  using tcp_send_cases [OF assms] by blast

theorem tcp_send_regimes_witness:
  "(let t = tcp_example (replicate 8 client_example) in
    tcp_send (Some (65560, 0)) (Some (replicate 1500 7)) 1465 (t, online_example) = None \<and>
    tcp_send (Some (65560, 0)) (Some (replicate 1500 7)) 1481 (t, online_example) = Some (1481, t, online_example) \<and>
    (\<exists>t' s' f. tcp_send (Some (65560, 0)) (Some (replicate 1500 7)) 1464 (t, online_example) = Some (1464, t', s') \<and>
       tx (st_core s') = [(Via_Netif 0, f)]))"
proof -
  let ?t = "tcp_example (replicate 8 client_example)"
  have ok: "tcp_ok ?t" using sock_ok_examples tcp_example_ok [of "replicate 8 client_example"] by simp
  have k: "sock_at ?t (65560, 0) = Some client_example" by (simp add: tcp_example_def sock_at_def)
  have c: "t_state client_example = TCP_STATE_ESTABLISHED" "remote_ip client_example = [10, 0, 0, 1]"
    by (simp_all add: client_example_def)
  note r = tcp_send_regimes [OF ok online_example(1) k c(1) online_example(2) online_example(3) [folded c(2)],
      of _ "replicate 1500 7"]
  have "tcp_send (Some (65560, 0)) (Some (replicate 1500 7)) 1465 (?t, online_example) = None"
    using r [of 1465] by simp
  moreover have "tcp_send (Some (65560, 0)) (Some (replicate 1500 7)) 1481 (?t, online_example) = Some (1481, ?t, online_example)"
    using r [of 1481] by simp
  moreover have "\<exists>t' s' f. tcp_send (Some (65560, 0)) (Some (replicate 1500 7)) 1464 (?t, online_example) = Some (1464, t', s') \<and>
       tx (st_core s') = [(Via_Netif 0, f)]"
    using r [of 1464] online_example(4) by auto
  ultimately show ?thesis by (simp add: Let_def)
qed

text \<open>
  C21: The three-way handshake opens a connection. A request for a listening port is answered with one
  frame that carries the initial sequence number and acknowledges the request, and when the peer
  acknowledges it there is an established socket for the connection; the listening socket keeps
  listening and every other socket is unchanged.
\<close>

theorem tcp_handshake_connects:
  fixes ticks :: u64 and sq :: u32
  assumes "tcp_ok t" and "ip_stack_ok s" and "online j s" and "reachable src_ip s"
    and "load_field ip_hdr 12 4 = Some src_ip" and "tcp_find_listening_socket port t = Some l"
    and "tcp_find_socket port src_ip src_port t = None" and "\<exists>k \<in> set (tcp_sockets t). \<not> in_use k"
  shows "\<exists>t1 s1 f c p q t2 s2.
    tcp_handle_packet ip_hdr (tcp_header src_port port sq ak TCP_FLAG_SYN w0 c0) 20 ticks (t, s) = Some (t1, s1) \<and>
    tx (st_core s1) = tx (st_core s) @ [(Via_Netif j, f)] \<and> load_field f 30 4 = Some src_ip \<and>
    load_field f 34 20 = Some (tcp_header port src_port (ucast ticks * 12345) (sq + 1)
      (TCP_FLAG_SYN OR TCP_FLAG_ACK) (htons TCP_WINDOW_SIZE) c) \<and>
    tcp_handle_packet ip_hdr (tcp_header src_port port (sq + 1) (ucast ticks * 12345 + 1) TCP_FLAG_ACK w1 c1) 20 ticks' (t1, s1)
      = Some (t2, s2) \<and>
    connected p port src_ip src_port q (t2, s2) \<and> tcp_find_listening_socket port t2 = Some l \<and>
    (\<forall>i. i \<noteq> snd p \<longrightarrow> tcp_sockets t2 ! i = tcp_sockets t ! i)"
proof -
  obtain i where i: "first_index (\<lambda>k. \<not> in_use k) (tcp_sockets t) = Some i"
    using assms(8) by (cases "first_index (\<lambda>k. \<not> in_use k) (tcp_sockets t)") (auto simp: first_index_None_iff)
  have len: "i < length (tcp_sockets t)" using i by (auto dest: first_index_SomeD)
  let ?p = "(tcp_base t, i)" and ?isn = "ucast ticks * 12345 :: u32"
  let ?k1 = "request_sock t i src_ip src_port port ?isn (sq + 1)\<lparr>t_seq := ?isn + 1\<rparr>"
  obtain t1 s1 f c where 1: "tcp_handle_packet ip_hdr (tcp_header src_port port sq ak TCP_FLAG_SYN w0 c0) 20 ticks (t, s) = Some (t1, s1)"
    "tcp_ok t1" "ip_stack_ok s1" "tcp_base t1 = tcp_base t" "tcp_sockets t1 = (tcp_sockets t)[i := ?k1]"
    "tx (st_core s1) = tx (st_core s) @ [(Via_Netif j, f)]" "load_field f 30 4 = Some src_ip"
    "load_field f 34 20 = Some (tcp_header port src_port ?isn (sq + 1) (TCP_FLAG_SYN OR TCP_FLAG_ACK) (htons TCP_WINDOW_SIZE) c)"
    by (rule tcp_syn_accepted [OF assms(1-7) i])
  note k1 = request_sock_def [of t i src_ip src_port port ?isn "sq + 1"]
  have at1: "sock_at t1 ?p = Some ?k1" using 1(4,5) len by (simp add: sock_at_Some)
  have f: "tcp_find_socket port src_ip src_port (u\<lparr>tcp_base := tcp_base t, tcp_sockets := (tcp_sockets t)[i := y]\<rparr>) = Some ?p"
    if "in_use y" "local_port y = port" "remote_port y = src_port" "remote_ip y = src_ip" for u y
    using assms(7) first_index_none_update [OF _ len, of _ y] that by (simp add: tcp_find_socket_def find_sock_def)
  have f1: "tcp_find_socket port src_ip src_port t1 = Some ?p"
    using f [of ?k1 t1] 1(4,5) by (simp add: k1 tcp_find_socket_def find_sock_def)
  obtain t2 where 2: "tcp_handle_packet ip_hdr (tcp_header src_port port (sq + 1) (t_seq ?k1) TCP_FLAG_ACK w1 c1) 20 ticks' (t1, s1) = Some (t2, s1)"
    "tcp_ok t2" "tcp_base t2 = tcp_base t1" "tcp_sockets t2 = (tcp_sockets t1)[snd ?p := ?k1\<lparr>t_state := TCP_STATE_ESTABLISHED\<rparr>]"
    by (rule tcp_ack_establishes [OF 1(2,3) assms(5) f1 at1]) (simp_all add: k1)
  let ?k2 = "?k1\<lparr>t_state := TCP_STATE_ESTABLISHED\<rparr>"
  have t2: "tcp_sockets t2 = (tcp_sockets t)[i := ?k2]" "tcp_base t2 = tcp_base t" using 1(4,5) 2(3,4) by simp_all
  have at2: "sock_at t2 ?p = Some ?k2" using t2 len by (simp add: sock_at_Some)
  obtain q where q: "recv_holds ?k2 q" using tcp_ok_sock [OF 2(2) at2] by (auto simp: sock_ok_def)
  have "tcp_find_socket port src_ip src_port t2 = Some ?p"
    using f [of ?k2 t2] t2 by (simp add: k1 tcp_find_socket_def find_sock_def)
  then have conn: "connected ?p port src_ip src_port q (t2, s1)"
    using 2(2) 1(3) at2 q by (auto simp: connected_def)
  have "\<not> in_use (tcp_sockets t ! i)" using i by (auto dest: first_index_SomeD)
  then have lst: "tcp_find_listening_socket port t2 = Some l"
    using assms(6) t2 len by (simp add: tcp_find_listening_socket_def find_sock_def first_index_update)
  have "\<forall>j. j \<noteq> snd ?p \<longrightarrow> tcp_sockets t2 ! j = tcp_sockets t ! j" using t2 by simp
  with 1 2(1) conn lst show ?thesis
    by (intro exI [of _ t1] exI [of _ s1] exI [of _ f] exI [of _ c] exI [of _ ?p] exI [of _ q] exI [of _ t2] exI [of _ s1]) simp
qed

theorem tcp_handshake_connects_witness:
  "\<exists>t1 s1 p q t2 s2.
     tcp_handle_packet (replicate 12 0 @ [10, 0, 0, 1]) (tcp_header 4000 80 5 0 TCP_FLAG_SYN 0 0) 20 9
       (tcp_example (listener_example # replicate 7 (tcp_init_socket raw_slot)), online_example) = Some (t1, s1) \<and>
     tcp_handle_packet (replicate 12 0 @ [10, 0, 0, 1]) (tcp_header 4000 80 6 111106 TCP_FLAG_ACK 0 0) 20 9 (t1, s1) = Some (t2, s2) \<and>
     connected p 80 [10, 0, 0, 1] 4000 q (t2, s2)"
proof -
  let ?ks = "listener_example # replicate 7 (tcp_init_socket raw_slot)"
  have ok: "tcp_ok (tcp_example ?ks)" using tcp_example_ok [of ?ks] fresh_sock sock_ok_examples by simp
  have "\<exists>k \<in> set (tcp_sockets (tcp_example ?ks)). \<not> in_use k" "tcp_find_socket 80 [10, 0, 0, 1] 4000 (tcp_example ?ks) = None"
    "tcp_find_listening_socket 80 (tcp_example ?ks) = Some (65560, 0)"
    by (simp_all add: tcp_example_def listener_example_def tcp_init_socket_def raw_slot_def tcp_find_socket_def
        tcp_find_listening_socket_def find_sock_def first_index_None_iff)
  from tcp_handshake_connects [OF ok online_example(1-3) _ this(3,2,1), of "replicate 12 0 @ [10, 0, 0, 1]" 5 0 0 0 9 0 0 9]
  show ?thesis by (simp add: load_field_def) blast
qed

end
