(* ===== verification/Net_Input.thy ===== *)
theory Net_Input
  imports Icmp Dns Dhcp Tcp_Correct
begin

text \<open>
  The receiving side of the network stack, from a frame to the protocol that it is for:
  \<^verbatim>\<open>net/l2/ethernet.c\<close>, the handler of \<^verbatim>\<open>net/l3/ipv4.c\<close> and the one of \<^verbatim>\<open>net/l4/udp.c\<close>. The properties
  follow a message through both stacks: the bytes that one host sends over TCP are what the other
  one reads, and a ping is answered and its answer recognised.
\<close>

section \<open>Model of the source\<close>

text \<open>The state of a whole stack; TCP and the DNS, DHCP and ping clients share the layers below.\<close>

record net_stack =
  ns_ip :: ip_stack
  ns_icmp :: icmp_state
  ns_dns :: dns_state
  ns_dhcp :: dhcp_state
  ns_tcp :: tcp_table

text \<open>Calls of the protocol handlers on their parts of the state.\<close>

definition call_dhcp :: "bytes \<Rightarrow> int \<Rightarrow> net_stack \<Rightarrow> net_stack option" where
  "call_dhcp payload len n = do {
     (c, s) \<leftarrow> dhcp_handle_packet None payload len (ns_dhcp n, ns_ip n);
     Some (n\<lparr>ns_dhcp := c, ns_ip := s\<rparr>)
   }"

definition call_dns :: "bytes \<Rightarrow> int \<Rightarrow> net_stack \<Rightarrow> net_stack option" where
  "call_dns payload len n = do { d \<leftarrow> dns_handle_packet payload len (ns_dns n); Some (n\<lparr>ns_dns := d\<rparr>) }"

definition udp_handle_packet :: "bytes \<Rightarrow> int \<Rightarrow> net_stack \<Rightarrow> net_stack option" where
  "udp_handle_packet data len n =
     (if len < UDP_HEADER_SIZE then Some n
      else do {
        src \<leftarrow> load16 data 0;
        dest \<leftarrow> load16 data 2;
        l \<leftarrow> load16 data 4;
        let src_port = ntohs src;
        let dest_port = ntohs dest;
        let udp_len = uint (ntohs l);
        if udp_len < UDP_HEADER_SIZE \<or> udp_len > len then Some n
        else
          let payload = drop (nat UDP_HEADER_SIZE) data;
              payload_len = udp_len - UDP_HEADER_SIZE
          in
            if dest_port = UDP_PORT_DHCP_CLIENT then call_dhcp payload payload_len n
            else if dest_port = UDP_PORT_DNS then call_dns payload payload_len n
            else if src_port = UDP_PORT_DNS then call_dns payload payload_len n
            else Some n
      })"

text \<open>
  The switch over the protocol field. \<open>eth\<close> and \<open>ip\<close> are pointers to the headers in the frame;
  \<open>now\<close> and \<open>ticks\<close> are what the two clock functions return.
\<close>

definition ip_protocol_switch ::
  "netif_ptr \<Rightarrow> bytes \<Rightarrow> bytes \<Rightarrow> u8 \<Rightarrow> bytes \<Rightarrow> int \<Rightarrow> u64 \<Rightarrow> u64 \<Rightarrow> net_stack \<Rightarrow> net_stack option" where
  "ip_protocol_switch netif eth ip protocol payload payload_len now ticks n =
     (if protocol = IP_PROTO_ICMP then do {
        (p, s) \<leftarrow> icmp_handle_packet netif eth ip payload payload_len now (ns_icmp n, ns_ip n);
        Some (n\<lparr>ns_icmp := p, ns_ip := s\<rparr>)
      }
      else if protocol = IP_PROTO_TCP then do {
        (t, s) \<leftarrow> tcp_handle_packet ip payload payload_len ticks (ns_tcp n, ns_ip n);
        Some (n\<lparr>ns_tcp := t, ns_ip := s\<rparr>)
      }
      else if protocol = IP_PROTO_UDP then udp_handle_packet payload payload_len n
      else Some n)"

definition ipv4_handle_packet ::
  "netif_ptr \<Rightarrow> bytes \<Rightarrow> bytes \<Rightarrow> int \<Rightarrow> u64 \<Rightarrow> u64 \<Rightarrow> net_stack \<Rightarrow> net_stack option" where
  "ipv4_handle_packet netif eth data len now ticks n =
     (if len < IPV4_HEADER_SIZE then Some n
      else do {
        version_ihl \<leftarrow> aget data 0;
        let version = drop_bit 4 version_ihl AND 0x0F;
        let ihl = version_ihl AND 0x0F;
        let header_len = uint ihl * 4;
        if version \<noteq> 4 then Some n
        else if header_len < IPV4_HEADER_SIZE \<or> header_len > len then Some n
        else do {
          let ip = my_ip netif (st_core (ns_ip n));
          dest_ip \<leftarrow> load_field data 16 4;
          protocol \<leftarrow> aget data 9;
          let is_broadcast = (dest_ip ! 0 = 255 \<and> dest_ip ! 1 = 255 \<and> dest_ip ! 2 = 255 \<and> dest_ip ! 3 = 255);
          let we_have_no_ip = (ip ! 0 = 0 \<and> ip ! 1 = 0 \<and> ip ! 2 = 0 \<and> ip ! 3 = 0);
          let is_for_us = ip_addr_equals dest_ip ip;
          let is_dhcp_response = (protocol = IP_PROTO_UDP \<and> we_have_no_ip);
          if \<not> is_for_us \<and> \<not> is_broadcast \<and> \<not> we_have_no_ip \<and> \<not> is_dhcp_response then Some n
          else do {
            total_length \<leftarrow> load16 data 2;
            let payload_len = uint (ntohs total_length) - header_len;
            ip_protocol_switch netif eth data protocol (drop (nat header_len) data) payload_len now ticks n
          }
        }
      })"

definition ethernet_handle_packet_netif ::
  "netif_ptr \<Rightarrow> bytes \<Rightarrow> int \<Rightarrow> u64 \<Rightarrow> u64 \<Rightarrow> net_stack \<Rightarrow> net_stack option" where
  "ethernet_handle_packet_netif netif data len now ticks n =
     (if len < ETHERNET_HEADER_SIZE then Some n
      else do {
        type \<leftarrow> load16 data 12;
        let ethertype = ntohs type;
        let payload = drop (nat ETHERNET_HEADER_SIZE) data;
        let payload_len = len - ETHERNET_HEADER_SIZE;
        if ethertype = ETH_TYPE_ARP then do {
          (a, c) \<leftarrow> arp_handle_packet netif payload payload_len (st_arp (ns_ip n), st_core (ns_ip n));
          Some (n\<lparr>ns_ip := (ns_ip n)\<lparr>st_arp := a, st_core := c\<rparr>\<rparr>)
        }
        else if ethertype = ETH_TYPE_IPV4 then ipv4_handle_packet netif data payload payload_len now ticks n
        else Some n
      })"

definition ethernet_handle_packet :: "bytes \<Rightarrow> int \<Rightarrow> u64 \<Rightarrow> u64 \<Rightarrow> net_stack \<Rightarrow> net_stack option" where
  "ethernet_handle_packet data len now ticks n =
     ethernet_handle_packet_netif (netif_get_default (st_core (ns_ip n))) data len now ticks n"

section \<open>From one stack to the other\<close>

text \<open>A host that answers for \<open>ip\<close> on the interface that receives by default.\<close>

definition answers_for :: "bytes \<Rightarrow> net_stack \<Rightarrow> bool" where
  "answers_for ip n \<longleftrightarrow> my_ip (netif_get_default (st_core (ns_ip n))) (st_core (ns_ip n)) = ip"

text \<open>A frame of the sending side arrives at the handler of its protocol, with its payload and the padding.\<close>

lemma frame_received:
  fixes protocol :: u8 and netif :: netif_ptr
  assumes "core_ok (st_core s)" and "length dest_mac = 6" and "length dest_ip = 4" and "length data \<le> 1484"
    and "answers_for dest_ip n"
  defines "f \<equiv> ipv4_frame netif dest_mac dest_ip protocol data s"
  shows "ethernet_handle_packet f (int (length f)) now ticks n =
    ip_protocol_switch (netif_get_default (st_core (ns_ip n))) f (drop 14 f) protocol
      (data @ replicate (26 - length data) 0) (int (length data)) now ticks n"
proof -
  note ff = ipv4_frame_fields [OF assms(1-3), of netif protocol data, folded f_def]
  let ?src = "source_ip netif (st_core s)" and ?tot = "of_nat (20 + length data) :: u16"
  have src: "length ?src = 4" using assms(1) by (rule length_source_ip)
  let ?h = "ipv4_header ?tot (ip_id_counter s) protocol (header_checksum ?tot (ip_id_counter s) protocol ?src dest_ip) ?src dest_ip"
  let ?r = "data @ replicate (26 - length data) 0"
  have h: "length ?h = 20" by (rule length_ipv4_header [OF src assms(3)])
  note hf = ipv4_header_fields [OF src assms(3), of ?tot "ip_id_counter s" protocol _ ?r]
  have tot: "uint ?tot = 20 + int (length data)"
    using assms(4) by (simp add: uint_word_ariths unsigned_of_nat take_bit_nat_def)
  have ip: "ipv4_handle_packet (netif_get_default (st_core (ns_ip n))) f (?h @ ?r) (int (length f) - 14) now ticks n =
    ip_protocol_switch (netif_get_default (st_core (ns_ip n))) f (?h @ ?r) protocol ?r (int (length data)) now ticks n"
    using hf assms(5) ff(1) h tot
    by (simp add: ipv4_handle_packet_def aget_def c_defs answers_for_def ip_addr_equals_def)
  have "int (length f) \<ge> 60" using ff(1) by simp
  then have "ethernet_handle_packet f (int (length f)) now ticks n =
    ipv4_handle_packet (netif_get_default (st_core (ns_ip n))) f (?h @ ?r) (int (length f) - 14) now ticks n"
    using ff(3,4) by (simp add: ethernet_handle_packet_def ethernet_handle_packet_netif_def c_defs)
  then show ?thesis unfolding ip ff(4) by simp
qed

section \<open>A stream of bytes between two hosts\<close>

text \<open>The frames that one host has put on the wire are handed to the other, in order.\<close>

fun deliver_frames :: "u64 \<Rightarrow> u64 \<Rightarrow> (tx_via \<times> bytes) list \<Rightarrow> net_stack \<Rightarrow> net_stack option" where
  "deliver_frames now ticks [] n = Some n"
| "deliver_frames now ticks ((v, f) # fs) n = do {
     n \<leftarrow> ethernet_handle_packet f (int (length f)) now ticks n;
     deliver_frames now ticks fs n
   }"

definition new_frames :: "ip_stack \<Rightarrow> ip_stack \<Rightarrow> (tx_via \<times> bytes) list" where
  "new_frames s s' = drop (length (tx (st_core s))) (tx (st_core s'))"

text \<open>The application of the first host sends messages; the second one receives the frames.\<close>

fun tcp_transfer :: "sock_ptr \<Rightarrow> u64 \<Rightarrow> u64 \<Rightarrow> bytes list \<Rightarrow> tcp_world \<times> net_stack
    \<Rightarrow> (tcp_world \<times> net_stack) option" where
  "tcp_transfer p now ticks [] w = Some w"
| "tcp_transfer p now ticks (m # ms) (a, b) = do {
     (r, a') \<leftarrow> tcp_send (Some p) (Some m) (int (length m)) a;
     b \<leftarrow> deliver_frames now ticks (new_frames (snd a) (snd a')) b;
     tcp_transfer p now ticks ms (a', b)
   }"

text \<open>The two ends of a connection; \<open>q\<close> has arrived at the second one and was not read yet.\<close>

definition peers :: "sock_ptr \<Rightarrow> nat \<Rightarrow> sock_ptr \<Rightarrow> bytes \<Rightarrow> tcp_world \<times> net_stack \<Rightarrow> bool" where
  "peers p i p' q = (\<lambda>((t, s), n). tcp_ok t \<and> ip_stack_ok s \<and> online i s \<and>
     (\<exists>k. sock_at t p = Some k \<and> t_state k = TCP_STATE_ESTABLISHED \<and> reachable (remote_ip k) s \<and>
        answers_for (remote_ip k) n \<and>
        connected p' (remote_port k) (source_ip (Some i) (st_core s)) (local_port k) q (ns_tcp n, ns_ip n)))"

lemma same_host_config:
  assumes "same_host s s'"
  shows "source_ip (Some i) (st_core s') = source_ip (Some i) (st_core s)" "online i s' = online i s"
    "reachable ip s' = reachable ip s" "my_ip netif (st_core s') = my_ip netif (st_core s)"
    "netif_get_default (st_core s') = netif_get_default (st_core s)"
  using assms
  by (simp_all add: same_host_def source_ip_def online_def reachable_def my_ip_def netif_at_def
      netif_get_default_def split: option.splits)

text \<open>The frame of \<open>tcp_send\<close>, as a whole.\<close>

lemma tcp_send_frame:
  assumes "tcp_ok t" and "ip_stack_ok s" and "online i s" and "sock_at t p = Some k"
    and "t_state k = TCP_STATE_ESTABLISHED" and "reachable (remote_ip k) s"
    and "m \<noteq> []" and "length m \<le> 1464"
  obtains t' s' mac sq ak win c where "tcp_send (Some p) (Some m) (int (length m)) (t, s) = Some (int (length m), t', s')"
    and "new_frames s s' = [(Via_Netif i, ipv4_frame (Some i) mac (remote_ip k) IP_PROTO_TCP
           (tcp_header (local_port k) (remote_port k) sq ak (TCP_FLAG_ACK OR TCP_FLAG_PSH) win c @ m) s)]"
    and "length mac = 6" and "tcp_ok t'" and "ip_stack_ok s'" and "same_host s s'"
    and "sock_at t' p = Some (k\<lparr>t_seq := t_seq k + of_nat (length m)\<rparr>)"
proof -
  let ?fl = "TCP_FLAG_ACK OR TCP_FLAG_PSH" and ?src = "source_ip (Some i) (st_core s)"
  from assms(6) obtain hop mac where hop: "route_get_next_hop (remote_ip k) (st_route s) = Some hop"
    "arp_cache_lookup hop (st_arp s) = Some mac" by (auto simp: reachable_def)
  have mac: "length mac = 6" using hop(2) assms(2) by (intro arp_lookup_length) (simp_all add: ip_stack_ok_def)
  from assms(3) obtain ni where ni: "netif_get_default (st_core s) = Some i" "netif_at (st_core s) (Some i) = Some ni" "ni_send ni"
    by (auto simp: online_def)
  have k: "sock_ok k" using assms(1,4) by (rule tcp_ok_sock)
  then have rip: "length (remote_ip k) = 4" by (simp add: sock_ok_def)
  let ?f = "ipv4_frame (Some i) mac (remote_ip k) IP_PROTO_TCP (tcp_segment ?src k ?fl m) s"
  let ?k = "k\<lparr>t_seq := t_seq k + of_nat (length m)\<rparr>"
  let ?t = "t\<lparr>tcp_sockets := (tcp_sockets t)[snd p := ?k]\<rparr>"
  let ?s = "s\<lparr>st_core := snd (transmit (Some i) ?f (st_core s)), ip_id_counter := ip_id_counter s + 1\<rparr>"
  have adv: "seq_advance ?fl (int (length m)) = int (length m)" by (simp add: seq_advance_def c_defs)
  have packet: "tcp_send_packet (Some p) ?fl m (int (length m)) (t, s) = Some (?t, ?s)"
    using tcp_send_packet_eq [OF assms(2,4) rip, of "int (length m)" m ?fl] hop ni(1) assms(8) online_ip [OF assms(3)]
    unfolding adv by simp
  then have send: "tcp_send (Some p) (Some m) (int (length m)) (t, s) = Some (int (length m), ?t, ?s)"
    using assms(4,5,7) by (simp add: tcp_send_def)
  obtain c where c: "tcp_segment ?src k ?fl m =
      tcp_header (local_port k) (remote_port k) (t_seq k) (t_ack k) ?fl (htons (t_window k)) c @ m"
    using tcp_segment_fields(2,3) [of ?src k ?fl m] by (metis append_take_drop_id)
  have frames: "new_frames s ?s = [(Via_Netif i, ipv4_frame (Some i) mac (remote_ip k) IP_PROTO_TCP
      (tcp_header (local_port k) (remote_port k) (t_seq k) (t_ack k) ?fl (htons (t_window k)) c @ m) s)]"
    unfolding c [symmetric] using transmit_hooked [OF ni(2,3)] by (simp add: new_frames_def)
  have "sock_ok ?k" using k by simp
  then have ok: "tcp_ok ?t" using tcp_ok_update [OF assms(1,4), of ?k] by simp
  show thesis
  proof (rule that [OF send frames mac ok])
    show "ip_stack_ok ?s" using assms(2) by (simp add: ip_stack_ok_def transmit_core_ok)
    show "same_host s ?s" using packet by (rule tcp_send_packet_same_host)
    show "sock_at ?t p = Some ?k" using assms(4) by simp
  qed
qed

lemma peers_send:
  assumes "peers p i p' q ((t, s), n)" and "m \<noteq> []" and "length m \<le> 1464" and "length q + length m \<le> 4096"
  obtains a n' where "tcp_send (Some p) (Some m) (int (length m)) (t, s) = Some (int (length m), a)"
    and "deliver_frames now ticks (new_frames s (snd a)) n = Some n'" and "peers p i p' (q @ m) (a, n')"
proof -
  let ?src = "source_ip (Some i) (st_core s)" and ?fl = "TCP_FLAG_ACK OR TCP_FLAG_PSH"
  from assms(1) obtain k where ok: "tcp_ok t" "ip_stack_ok s" "online i s"
    and k: "sock_at t p = Some k" "t_state k = TCP_STATE_ESTABLISHED" "reachable (remote_ip k) s"
    and n: "answers_for (remote_ip k) n"
      "connected p' (remote_port k) ?src (local_port k) q (ns_tcp n, ns_ip n)"
    by (auto simp: peers_def)
  obtain t' s' mac sq ak win c where a: "tcp_send (Some p) (Some m) (int (length m)) (t, s) = Some (int (length m), t', s')"
    "new_frames s s' = [(Via_Netif i, ipv4_frame (Some i) mac (remote_ip k) IP_PROTO_TCP
           (tcp_header (local_port k) (remote_port k) sq ak ?fl win c @ m) s)]"
    "length mac = 6" "tcp_ok t'" "ip_stack_ok s'" "same_host s s'"
    "sock_at t' p = Some (k\<lparr>t_seq := t_seq k + of_nat (length m)\<rparr>)"
    by (rule tcp_send_frame [OF ok k assms(2,3)])
  let ?h = "tcp_header (local_port k) (remote_port k) sq ak ?fl win c"
  let ?f = "ipv4_frame (Some i) mac (remote_ip k) IP_PROTO_TCP (?h @ m) s"
  have core: "core_ok (st_core s)" using ok(2) by (simp add: ip_stack_ok_def)
  have rip: "length (remote_ip k) = 4" using tcp_ok_sock [OF ok(1) k(1)] by (simp add: sock_ok_def)
  have src: "length ?src = 4" using core by (rule length_source_ip)
  have field: "load_field (drop 14 ?f) 12 4 = Some ?src"
    unfolding ipv4_frame_fields(4) [OF core a(3) rip] by (rule ipv4_header_fields(5) [OF src rip])
  have fl: "?fl AND TCP_FLAG_FIN = 0" "?fl AND TCP_FLAG_RST = 0" by (simp_all add: c_defs)
  obtain w where w: "tcp_handle_packet (drop 14 ?f) (?h @ m @ replicate (26 - (20 + length m)) 0)
      (int (20 + length m)) ticks (ns_tcp n, ns_ip n) = Some w"
    "connected p' (remote_port k) ?src (local_port k) (q @ take (4096 - length q) m) w" "same_host (ns_ip n) (snd w)"
    by (rule connected_segment [OF n(2) field fl])
  have "length (?h @ m) \<le> 1484" using assms(3) by simp
  from frame_received [OF core a(3) rip this n(1), of "Some i" IP_PROTO_TCP now ticks]
  have "ethernet_handle_packet ?f (int (length ?f)) now ticks n = Some (n\<lparr>ns_tcp := fst w, ns_ip := snd w\<rparr>)"
    using w(1) by (cases w) (simp add: ip_protocol_switch_def c_defs)
  then have "deliver_frames now ticks (new_frames s s') n = Some (n\<lparr>ns_tcp := fst w, ns_ip := snd w\<rparr>)"
    by (simp add: a(2))
  moreover have "peers p i p' (q @ m) ((t', s'), n\<lparr>ns_tcp := fst w, ns_ip := snd w\<rparr>)"
    using a(4,5,7) ok(3) k(2,3) n(1) w(2) same_host_config [OF a(6)] same_host_config [OF w(3)] assms(4)
    by (simp add: peers_def answers_for_def)
  ultimately show thesis using a(1) by (intro that [of "(t', s')"]) simp_all
qed

lemma peers_transfer:
  assumes "peers p i p' q w" and "\<forall>m \<in> set ms. m \<noteq> [] \<and> length m \<le> 1464"
    and "length q + length (concat ms) \<le> 4096"
  shows "\<exists>w'. tcp_transfer p now ticks ms w = Some w' \<and> peers p i p' (q @ concat ms) w'"
  using assms
proof (induction ms arbitrary: q w)
  case Nil
  then show ?case by simp
next
  case (Cons m ms)
  obtain t s n where w: "w = ((t, s), n)" by (metis prod.exhaust)
  obtain a n' where a: "tcp_send (Some p) (Some m) (int (length m)) (t, s) = Some (int (length m), a)"
    "deliver_frames now ticks (new_frames s (snd a)) n = Some n'" "peers p i p' (q @ m) (a, n')"
    by (rule peers_send [of p i p' q t s n m now ticks]) (use Cons.prems in \<open>auto simp: w\<close>)
  show ?case using Cons.IH [OF a(3)] Cons.prems a(1,2) by (simp add: w)
qed

section \<open>A ping and its answer\<close>

lemma onlineE:
  assumes "online i s"
  obtains ni where "netif_get_default (st_core s) = Some i" "netif_at (st_core s) (Some i) = Some ni" "ni_send ni"
  using assms by (auto simp: online_def)

lemma echo_request_frame:
  assumes "ip_stack_ok s" and "online i s" and "reachable dest_ip s" and "length dest_ip = 4"
  obtains mac c d s' where "icmp_send_echo_request dest_ip now (p, s) =
      Some (p\<lparr>g_ping := (g_ping p)\<lparr>p_sent := p_sent (g_ping p) + 1, p_waiting := True, p_send_time := now\<rparr>\<rparr>, s')"
    and "new_frames s s' = [(Via_Netif i, ipv4_frame (Some i) mac dest_ip IP_PROTO_ICMP
           (icmp_header 8 c (p_identifier (g_ping p)) (p_sequence (g_ping p)) @ d) s)]"
    and "length mac = 6" and "length d = 56" and "same_host s s'"
proof -
  from assms(3) obtain hop mac where hop: "route_get_next_hop dest_ip (st_route s) = Some hop"
    "arp_cache_lookup hop (st_arp s) = Some mac" by (auto simp: reachable_def)
  have mac: "length mac = 6" using hop(2) assms(1) by (intro arp_lookup_length) (simp_all add: ip_stack_ok_def)
  obtain ni where ni: "netif_get_default (st_core s) = Some i" "netif_at (st_core s) (Some i) = Some ni" "ni_send ni"
    using assms(2) by (rule onlineE)
  have core: "core_ok (st_core s)" using assms(1) by (simp add: ip_stack_ok_def)
  let ?d = "map (\<lambda>k. of_nat k AND 0xFF) [0..<56] :: bytes" and ?g = "g_ping p"
  let ?h = "\<lambda>c. icmp_header 8 c (p_identifier ?g) (p_sequence ?g)"
  have len: "length (?h c @ ?d) = 64" for c by (simp add: icmp_header_def)
  obtain c where c: "ip_checksum (?h 0 @ ?d) 64 = Some c"
    using ip_checksum_eq [of 64 "?h 0 @ ?d"] len by simp
  let ?f = "ipv4_frame (Some i) mac dest_ip IP_PROTO_ICMP (?h c @ ?d) s"
  let ?s = "s\<lparr>st_core := snd (transmit (Some i) ?f (st_core s)), ip_id_counter := ip_id_counter s + 1\<rparr>"
  have send: "ipv4_send_packet (Some i) mac dest_ip IP_PROTO_ICMP (?h c @ ?d) 64 s = Some ?s"
    using ipv4_send_packet_eq [OF core mac assms(4), of 64 "?h c @ ?d"] len by simp
  then have 1: "icmp_send_echo_request dest_ip now (p, s) =
      Some (p\<lparr>g_ping := ?g\<lparr>p_sent := p_sent ?g + 1, p_waiting := True, p_send_time := now\<rparr>\<rparr>, ?s)"
    using ni(1) hop c by (simp add: icmp_send_echo_request_def c_defs Let_def)
  have 2: "new_frames s ?s = [(Via_Netif i, ?f)]" using transmit_hooked [OF ni(2,3)] by (simp add: new_frames_def)
  have 3: "same_host s ?s" using send by (rule ipv4_send_same_host)
  show thesis by (rule that [OF 1 2 mac _ 3]) simp
qed

lemma length_icmp_header [simp]: "length (icmp_header type c ident sq) = 8"
  by (simp add: icmp_header_def)

lemma icmp_header_fields:
  "icmp_header type c ident sq @ r = [type, 0] @ mem16 c @ drop 4 (icmp_header type c' ident sq @ r)"
  "aget (icmp_header type c ident sq @ r) 0 = Some type"
  "load16 (icmp_header type c ident sq @ r) 4 = Some (htons ident)"
  "load16 (icmp_header type c ident sq @ r) 6 = Some (htons sq)"
  using load16_mem16 [of 4 "[type, 0] @ mem16 c" "htons ident"]
    load16_mem16 [of 6 "[type, 0] @ mem16 c @ mem16 (htons ident)" "htons sq"]
  by (simp_all add: icmp_header_def aget_def)

lemma echo_answered:
  fixes i :: nat and c ident sq :: u16
  assumes "core_ok (st_core s)" and "length mac = 6" and "length dest_ip = 4" and "length d \<le> 1476"
    and "core_ok (st_core (ns_ip b))" and "online j (ns_ip b)" and "answers_for dest_ip b"
  defines "f \<equiv> ipv4_frame (Some i) mac dest_ip IP_PROTO_ICMP (icmp_header 8 c ident sq @ d) s"
  obtains mac' c' s' where "ethernet_handle_packet f (int (length f)) now ticks b = Some (b\<lparr>ns_ip := s'\<rparr>)"
    and "new_frames (ns_ip b) s' = [(Via_Netif j, ipv4_frame (Some j) mac' (source_ip (Some i) (st_core s)) IP_PROTO_ICMP
           (icmp_header 0 c' ident sq @ d) (ns_ip b))]"
    and "length mac' = 6"
proof -
  let ?src = "source_ip (Some i) (st_core s)" and ?data = "icmp_header 8 c ident sq @ d"
  let ?pad = "replicate (26 - length ?data) 0" and ?mac = "take 6 (drop 6 f)"
  note ff = ipv4_frame_fields [OF assms(1-3), of "Some i" IP_PROTO_ICMP ?data, folded f_def]
  have len: "length f \<ge> 60" using ff(1) by simp
  have src: "take 4 (drop 12 (drop 14 f)) = ?src" using ff(6) by (simp add: load_field_def split: if_splits)
  obtain ni where ni: "netif_get_default (st_core (ns_ip b)) = Some j" "netif_at (st_core (ns_ip b)) (Some j) = Some ni" "ni_send ni"
    using assms(6) by (rule onlineE)
  have n: "8 \<le> int (length ?data)" "nat (int (length ?data)) \<le> length (?data @ ?pad)" "int (length ?data) \<le> 1484"
    "(?data @ ?pad) ! 0 = 8" using assms(4) by (simp_all add: icmp_header_def)
  obtain c' where c': "icmp_handle_packet (Some j) f (drop 14 f) (?data @ ?pad) (int (length ?data)) now (ns_icmp b, ns_ip b) =
      Some (ns_icmp b, (ns_ip b)\<lparr>st_core := snd (transmit (Some j) (ipv4_frame (Some j) ?mac ?src IP_PROTO_ICMP
             ([0, 0] @ mem16 c' @ drop 4 ?data) (ns_ip b)) (st_core (ns_ip b))),
           ip_id_counter := ip_id_counter (ns_ip b) + 1\<rparr>)"
    by (rule icmp_echo_answer [OF assms(5) _ _ n(1,2,4,3), of f "drop 14 f" "Some j" now "ns_icmp b"])
       (use len src in simp_all)
  have echo: "[0, 0] @ mem16 c' @ drop 4 ?data = icmp_header 0 c' ident sq @ d"
    by (simp add: icmp_header_def)
  let ?f = "ipv4_frame (Some j) ?mac ?src IP_PROTO_ICMP (icmp_header 0 c' ident sq @ d) (ns_ip b)"
  let ?s = "(ns_ip b)\<lparr>st_core := snd (transmit (Some j) ?f (st_core (ns_ip b))), ip_id_counter := ip_id_counter (ns_ip b) + 1\<rparr>"
  have "length ?data \<le> 1484" using assms(4) by simp
  from frame_received [OF assms(1-3) this assms(7), of "Some i" IP_PROTO_ICMP now ticks, folded f_def]
  have "ethernet_handle_packet f (int (length f)) now ticks b = Some (b\<lparr>ns_ip := ?s\<rparr>)"
    using c' unfolding echo ni(1) by (simp add: ip_protocol_switch_def)
  moreover have "new_frames (ns_ip b) ?s = [(Via_Netif j, ?f)]"
    using transmit_hooked [OF ni(2,3)] by (simp add: new_frames_def)
  moreover have "length ?mac = 6" using len by simp
  ultimately show thesis by (rule that)
qed

lemma echo_recognised:
  fixes j :: nat and c sq :: u16
  assumes "core_ok (st_core s)" and "length mac = 6" and "length dest_ip = 4" and "length d \<le> 1476"
    and "answers_for dest_ip a" and "p_active (g_ping (ns_icmp a))" and "p_waiting (g_ping (ns_icmp a))"
  defines "f \<equiv> ipv4_frame (Some j) mac dest_ip IP_PROTO_ICMP (icmp_header 0 c (p_identifier (g_ping (ns_icmp a))) sq @ d) s"
  shows "ethernet_handle_packet f (int (length f)) now ticks a =
    Some (a\<lparr>ns_icmp := (ns_icmp a)\<lparr>g_ping := (g_ping (ns_icmp a))\<lparr>p_time := ucast (now - p_send_time (g_ping (ns_icmp a))),
      p_ttl := 64, p_received := p_received (g_ping (ns_icmp a)) + 1, p_waiting := False\<rparr>\<rparr>\<rparr>)"
proof -
  let ?data = "icmp_header 0 c (p_identifier (g_ping (ns_icmp a))) sq @ d"
  have src: "length (source_ip (Some j) (st_core s)) = 4" using assms(1) by (rule length_source_ip)
  note ff = ipv4_frame_fields [OF assms(1-3), of "Some j" IP_PROTO_ICMP ?data, folded f_def]
  have "length ?data \<le> 1484" using assms(4) by simp
  from frame_received [OF assms(1-3) this assms(5), of "Some j" IP_PROTO_ICMP now ticks, folded f_def]
  have "ethernet_handle_packet f (int (length f)) now ticks a =
    ip_protocol_switch (netif_get_default (st_core (ns_ip a))) f (drop 14 f) IP_PROTO_ICMP
      (?data @ replicate (26 - length ?data) 0) (int (length ?data)) now ticks a" .
  moreover have "aget (drop 14 f) 8 = Some 64"
    using ipv4_header_fields(3) [OF src assms(3)] ff(1) unfolding ff(4) by (simp add: aget_def length_ipv4_header [OF src assms(3)])
  ultimately show ?thesis using assms(6,7)
    by (simp add: ip_protocol_switch_def icmp_handle_packet_def icmp_header_fields c_defs)
qed

section \<open>Properties\<close>

text \<open>
  C2: Through both network stacks, TCP carries a stream of bytes. One host sends messages of up to
  1464 bytes on an established connection, each frame is handed to \<open>ethernet_handle_packet\<close> of
  the other, and its application then reads the messages in order behind what was waiting already,
  as long as the receive buffer of 4096 bytes can hold them.
\<close>

theorem tcp_transfer_delivers:
  assumes "peers p i p' q w" and "\<forall>m \<in> set ms. m \<noteq> [] \<and> length m \<le> 1464"
    and "len = length q + length (concat ms)" and "0 < len" and "len \<le> 4096" and "len \<le> length buf"
  shows "\<exists>a n t. tcp_transfer p now ticks ms w = Some (a, n) \<and>
    tcp_recv (Some p') (Some buf) (int len) (ns_tcp n) = Some (int len, Some (q @ concat ms @ drop len buf), t) \<and>
    peers p i p' [] (a, n\<lparr>ns_tcp := t\<rparr>)"
proof -
  obtain t s n where w: "tcp_transfer p now ticks ms w = Some ((t, s), n)" "peers p i p' (q @ concat ms) ((t, s), n)"
    using peers_transfer [OF assms(1,2), of now ticks] assms(3,5) by auto
  from w(2) obtain k where k: "sock_at t p = Some k"
    "connected p' (remote_port k) (source_ip (Some i) (st_core s)) (local_port k) (q @ concat ms) (ns_tcp n, ns_ip n)"
    by (auto simp: peers_def)
  obtain t' where "tcp_recv (Some p') (Some buf) (int len) (ns_tcp n) =
      Some (int (min len (length (q @ concat ms))),
        Some (take len (q @ concat ms) @ drop (min len (length (q @ concat ms))) buf), t')"
    "connected p' (remote_port k) (source_ip (Some i) (st_core s)) (local_port k) (drop len (q @ concat ms)) (t', ns_ip n)"
    by (rule connected_recv [OF k(2) assms(4,6)])
  moreover from this(2) have "peers p i p' [] ((t, s), n\<lparr>ns_tcp := t'\<rparr>)"
    using w(2) k(1) assms(3) by (auto simp: peers_def answers_for_def)
  ultimately show ?thesis using w(1) assms(3) by auto
qed

text \<open>
  C22: A ping between two hosts succeeds. The echo request of one host, handed to the other, is
  answered by one frame, and that frame, handed to the first, is recognised as the answer: one more
  reply is counted, the ping is no longer waiting, and it has the elapsed time and the TTL of 64.
\<close>

theorem ping_round_trip:
  assumes "ip_stack_ok (ns_ip a)" and "online i (ns_ip a)" and "reachable dest_ip (ns_ip a)" and "length dest_ip = 4"
    and "p_active (g_ping (ns_icmp a))"
    and "ip_stack_ok (ns_ip b)" and "online j (ns_ip b)" and "answers_for dest_ip b"
  shows "\<exists>p s b' a'. icmp_send_echo_request dest_ip t0 (ns_icmp a, ns_ip a) = Some (p, s) \<and>
    deliver_frames t1 k1 (new_frames (ns_ip a) s) b = Some b' \<and>
    deliver_frames t2 k2 (new_frames (ns_ip b) (ns_ip b')) (a\<lparr>ns_icmp := p, ns_ip := s\<rparr>) = Some a' \<and>
    p_received (g_ping (ns_icmp a')) = p_received (g_ping (ns_icmp a)) + 1 \<and>
    \<not> p_waiting (g_ping (ns_icmp a')) \<and> p_time (g_ping (ns_icmp a')) = ucast (t2 - t0) \<and>
    p_ttl (g_ping (ns_icmp a')) = 64"
proof -
  let ?g = "g_ping (ns_icmp a)" and ?src = "source_ip (Some i) (st_core (ns_ip a))"
  let ?p = "(ns_icmp a)\<lparr>g_ping := ?g\<lparr>p_sent := p_sent ?g + 1, p_waiting := True, p_send_time := t0\<rparr>\<rparr>"
  have core: "core_ok (st_core (ns_ip a))" "core_ok (st_core (ns_ip b))" using assms(1,6) by (simp_all add: ip_stack_ok_def)
  have src: "length ?src = 4" using core(1) by (rule length_source_ip)
  obtain mac c d s where s: "icmp_send_echo_request dest_ip t0 (ns_icmp a, ns_ip a) = Some (?p, s)"
    "new_frames (ns_ip a) s = [(Via_Netif i, ipv4_frame (Some i) mac dest_ip IP_PROTO_ICMP
       (icmp_header 8 c (p_identifier ?g) (p_sequence ?g) @ d) (ns_ip a))]" "length mac = 6" "length d = 56"
    "same_host (ns_ip a) s"
    by (rule echo_request_frame [OF assms(1-4)])
  have d: "length d \<le> 1476" using s(4) by simp
  obtain mac' c' s' where b: "ethernet_handle_packet (ipv4_frame (Some i) mac dest_ip IP_PROTO_ICMP
       (icmp_header 8 c (p_identifier ?g) (p_sequence ?g) @ d) (ns_ip a))
       (int (length (ipv4_frame (Some i) mac dest_ip IP_PROTO_ICMP
       (icmp_header 8 c (p_identifier ?g) (p_sequence ?g) @ d) (ns_ip a)))) t1 k1 b = Some (b\<lparr>ns_ip := s'\<rparr>)"
    "new_frames (ns_ip b) s' = [(Via_Netif j, ipv4_frame (Some j) mac' ?src IP_PROTO_ICMP
       (icmp_header 0 c' (p_identifier ?g) (p_sequence ?g) @ d) (ns_ip b))]" "length mac' = 6"
    by (rule echo_answered [OF core(1) s(3) assms(4) d core(2) assms(7,8)])
  let ?a = "a\<lparr>ns_icmp := ?p, ns_ip := s\<rparr>"
  have "netif_get_default (st_core (ns_ip a)) = Some i" using assms(2) by (simp add: online_def)
  then have "answers_for ?src ?a"
    using same_host_config [OF s(5)] online_ip [OF assms(2)] by (simp add: answers_for_def)
  from echo_recognised [OF core(2) b(3) src d this, of j c' "p_sequence ?g" t2 k2]
  show ?thesis using s(1,2) b(1,2) assms(5) by simp
qed

text \<open>Two hosts on a network, 10.0.0.2 and 10.0.0.1, with a connection between ports 80 and 4000.\<close>

definition stack_example :: "ip_stack \<Rightarrow> tcp_socket \<Rightarrow> net_stack" where
  "stack_example s k = \<lparr>ns_ip = s, ns_icmp = p0\<lparr>g_ping := (g_ping p0)\<lparr>p_active := True\<rparr>\<rparr>, ns_dns = dns_example,
     ns_dhcp = dhcp_example, ns_tcp = tcp_example (replicate 8 k)\<rparr>"

definition peer_example :: net_stack where
  "peer_example = stack_example (ip_stack_example\<lparr>st_core := host_example 0x0A000001 1\<rparr>)
     (client_example\<lparr>local_port := 4000, remote_port := 80, remote_ip := [10, 0, 0, 2]\<rparr>)"

lemma peer_example:
  "ip_stack_ok (ns_ip peer_example)" "online 0 (ns_ip peer_example)" "answers_for [10, 0, 0, 1] peer_example"
  "connected (65560, 0) 4000 [10, 0, 0, 2] 80 [] (ns_tcp peer_example, ns_ip peer_example)"
proof -
  let ?k = "client_example\<lparr>local_port := 4000, remote_port := 80, remote_ip := [10, 0, 0, 2]\<rparr>"
  have c: "core_ok (st_core (ns_ip peer_example))"
    by (simp add: peer_example_def stack_example_def host_example_def core_ok_def)
  then show s: "ip_stack_ok (ns_ip peer_example)"
    using ip_stack_example_ok by (simp add: ip_stack_ok_def peer_example_def stack_example_def)
  show "online 0 (ns_ip peer_example)" "answers_for [10, 0, 0, 1] peer_example"
    by (simp_all add: online_def answers_for_def my_ip_def peer_example_def stack_example_def host_example_def
        netif_at_def netif_get_default_def ip_u32_to_bytes_def)
  have "sock_ok ?k" "recv_holds ?k []" using sock_ok_examples(2,3) by (auto simp: sock_ok_def recv_holds_def)
  moreover from this have "tcp_ok (ns_tcp peer_example)"
    using tcp_example_ok [of "replicate 8 ?k"] by (simp add: peer_example_def stack_example_def)
  moreover have "tcp_find_socket 4000 [10, 0, 0, 2] 80 (ns_tcp peer_example) = Some (65560, 0)"
    "sock_at (ns_tcp peer_example) (65560, 0) = Some ?k"
    by (simp_all add: peer_example_def stack_example_def tcp_example_def client_example_def tcp_init_socket_def
        tcp_find_socket_def find_sock_def sock_at_def numeral_eq_Suc)
  ultimately show "connected (65560, 0) 4000 [10, 0, 0, 2] 80 [] (ns_tcp peer_example, ns_ip peer_example)"
    using s by (simp add: connected_def client_example_def)
qed

theorem ping_round_trip_witness:
  "\<exists>p s b' a'. icmp_send_echo_request [10, 0, 0, 1] 1000 (ns_icmp (stack_example online_example client_example), online_example) = Some (p, s) \<and>
    deliver_frames 1002 0 (new_frames online_example s) peer_example = Some b' \<and>
    deliver_frames 1005 0 (new_frames (ns_ip peer_example) (ns_ip b'))
      ((stack_example online_example client_example)\<lparr>ns_icmp := p, ns_ip := s\<rparr>) = Some a' \<and>
    p_received (g_ping (ns_icmp a')) = 1 \<and> p_time (g_ping (ns_icmp a')) = 5"
proof -
  let ?a = "stack_example online_example client_example"
  have a: "ns_ip ?a = online_example" "p_active (g_ping (ns_icmp ?a))" "p_received (g_ping (ns_icmp ?a)) = 0"
    by (simp_all add: stack_example_def p0_def)
  from ping_round_trip [where a = ?a and b = peer_example and i = 0 and j = 0 and dest_ip = "[10, 0, 0, 1]"
      and ?t0.0 = 1000 and ?t1.0 = 1002 and ?t2.0 = 1005 and ?k1.0 = 0 and ?k2.0 = 0, unfolded a(1,3)]
  show ?thesis using online_example(1-3) a(2) peer_example(1-3) by (simp only: length_Cons) auto
qed

theorem tcp_transfer_delivers_witness:
  "\<exists>a n t. tcp_transfer (65560, 0) 0 0 [[71, 69], replicate 1464 84, [10]]
      ((tcp_example (replicate 8 client_example), online_example), peer_example) = Some (a, n) \<and>
    tcp_recv (Some (65560, 0)) (Some (replicate 2000 0)) 1467 (ns_tcp n) =
      Some (1467, Some ([71, 69] @ replicate 1464 84 @ [10] @ replicate 533 0), t)"
proof -
  let ?w = "((tcp_example (replicate 8 client_example), online_example), peer_example)"
  let ?ms = "[[71, 69], replicate 1464 84, [10]] :: bytes list"
  have "tcp_ok (tcp_example (replicate 8 client_example))"
    using sock_ok_examples tcp_example_ok [of "replicate 8 client_example"] by simp
  moreover have "sock_at (tcp_example (replicate 8 client_example)) (65560, 0) = Some client_example"
    by (simp add: tcp_example_def sock_at_def)
  moreover have "source_ip (Some 0) (st_core online_example) = [10, 0, 0, 2]"
    by (simp add: online_example_def ip_stack_example_def host_example_def source_ip_def netif_at_def ip_u32_to_bytes_def)
  ultimately have "peers (65560, 0) 0 (65560, 0) [] ?w"
    using online_example peer_example(3,4) by (simp add: peers_def client_example_def)
  moreover have "\<forall>m \<in> set ?ms. m \<noteq> [] \<and> length m \<le> 1464" by simp
  ultimately show ?thesis
    using tcp_transfer_delivers [of "(65560, 0)" 0 "(65560, 0)" "[]" ?w ?ms 1467 "replicate 2000 0" 0 0]
    by (simp del: tcp_transfer.simps) blast
qed

text \<open>
  C39: The length in the IP header is trusted. A received echo request whose header announces more
  than arrived makes the stack read behind the end of the frame: nothing compares the announced
  length with the received one, so what follows in memory would be sent back.
\<close>

theorem ipv4_length_unchecked:
  fixes ident checksum :: u16
  assumes "core_ok (st_core (ns_ip n))" and "length eth = 14" and "load16 eth 12 = Some (htons ETH_TYPE_IPV4)"
    and "length src = 4" and "length dest_ip = 4" and "answers_for dest_ip n"
    and "8 \<le> length icmp" and "icmp ! 0 = ICMP_TYPE_ECHO_REQUEST"
    and "length icmp < 1500" and "20 + length icmp < unat tot"
  defines "f \<equiv> eth @ ipv4_header tot ident IP_PROTO_ICMP checksum src dest_ip @ icmp"
  shows "ethernet_handle_packet f (int (length f)) now ticks n = None"
proof -
  let ?if = "netif_get_default (st_core (ns_ip n))" and ?h = "ipv4_header tot ident IP_PROTO_ICMP checksum src dest_ip"
  have h: "length ?h = 20" by (rule length_ipv4_header [OF assms(4,5)])
  note hf = ipv4_header_fields [OF assms(4,5), of tot ident IP_PROTO_ICMP checksum icmp]
  have "load16 f 12 = Some (htons ETH_TYPE_IPV4)"
    using assms(2,3) by (simp add: f_def load16_def aget_def nth_append split: if_splits)
  then have "ethernet_handle_packet f (int (length f)) now ticks n =
      ipv4_handle_packet ?if f (?h @ icmp) (int (length f) - 14) now ticks n"
    using assms(2) by (simp add: ethernet_handle_packet_def ethernet_handle_packet_netif_def c_defs f_def Let_def)
  also have "\<dots> = ip_protocol_switch ?if f (?h @ icmp) IP_PROTO_ICMP icmp (int (unat tot) - 20) now ticks n"
    using hf assms(2,6) h
    by (simp add: ipv4_handle_packet_def aget_def c_defs answers_for_def ip_addr_equals_def f_def)
  also have "\<dots> = None"
  proof -
    have "length icmp < nat (min (int (unat tot) - 20) 1500)" using assms(9,10) by linarith
    then have "load_field icmp 0 (nat (min (int (unat tot) - 20) 1500)) = None" by (simp add: load_field_def)
    moreover have "8 \<le> int (unat tot) - 20" using assms(7,10) by linarith
    moreover have "aget icmp 0 = Some 8" using assms(7,8) by (auto simp: aget_def c_defs)
    ultimately show ?thesis by (simp add: ip_protocol_switch_def icmp_handle_packet_def c_defs)
  qed
  finally show ?thesis .
qed

theorem ipv4_length_unchecked_witness:
  "(let f = replicate 12 2 @ [8, 0] @ ipv4_header 500 7 IP_PROTO_ICMP 0 [10, 0, 0, 9] [10, 0, 0, 1] @ (8 # replicate 25 0)
    in length f = 60 \<and> ethernet_handle_packet f 60 0 0 peer_example = None)"
proof -
  let ?h = "ipv4_header 500 7 IP_PROTO_ICMP 0 [10, 0, 0, 9] [10, 0, 0, 1]"
  have "load16 (replicate 12 2 @ [8, 0]) 12 = Some (htons ETH_TYPE_IPV4)"
    by (simp add: load16_def aget_def nth_append c_defs htons_def)
  moreover have "core_ok (st_core (ns_ip peer_example))" using peer_example(1) by (simp add: ip_stack_ok_def)
  ultimately show ?thesis
    using ipv4_length_unchecked [of peer_example "replicate 12 2 @ [8, 0]" "[10, 0, 0, 9]" "[10, 0, 0, 1]"
        "8 # replicate 25 0" 500 7 0 0 0] peer_example(3) length_ipv4_header [of "[10, 0, 0, 9]" "[10, 0, 0, 1]" 500 7 IP_PROTO_ICMP 0]
    by (simp add: c_defs)
qed

end
