(* ===== verification/Tcp_Calls.thy ===== *)
theory Tcp_Calls
  imports Tcp_Correct
begin

text \<open>
  The socket interface of TCP as a whole: its calls and the arrival of segments in any order. No
  call with a valid socket is stuck, and the table stays well formed, from \<open>tcp_init\<close> on.
\<close>

section \<open>Calls\<close>

datatype tcp_call =
    Listen u16
  | Create
  | Bind "sock_ptr option" u16
  | Recv "sock_ptr option" "bytes option" int
  | Send "sock_ptr option" "bytes option" int
  | Accept "sock_ptr option"
  | Close "sock_ptr option"
  | Relisten "sock_ptr option" u16
  | Segment bytes bytes int u64

fun tcp_do :: "tcp_call \<Rightarrow> tcp_world \<Rightarrow> tcp_world option" where
  "tcp_do (Listen port) (t, s) = map_option (\<lambda>(r, t). (t, s)) (tcp_listen port t)"
| "tcp_do Create (t, s) = map_option (\<lambda>(r, t). (t, s)) (tcp_socket_create t)"
| "tcp_do (Bind sock port) (t, s) = map_option (\<lambda>(r, t). (t, s)) (tcp_bind sock port t)"
| "tcp_do (Recv sock buf len) (t, s) = map_option (\<lambda>(r, b, t). (t, s)) (tcp_recv sock buf len t)"
| "tcp_do (Send sock buf len) (t, s) = map_option snd (tcp_send sock buf len (t, s))"
| "tcp_do (Accept sock) (t, s) = map_option (\<lambda>(r, t). (t, s)) (tcp_accept sock t)"
| "tcp_do (Close sock) w = tcp_close sock w"
| "tcp_do (Relisten sock port) w = tcp_close_and_relisten sock port w"
| "tcp_do (Segment ip_hdr data len ticks) w = tcp_handle_packet ip_hdr data len ticks w"

text \<open>
  What the interface asks of its callers: a socket is NULL or points into the table, a closed one is
  in use, buffers have the announced length. The lengths that overflow a buffer of the IP layer are
  excluded, and so is the growth of the table while the pointer to a listening socket is held.
\<close>

definition valid_sock :: "sock_ptr option \<Rightarrow> tcp_table \<Rightarrow> bool" where
  "valid_sock sock t \<longleftrightarrow> (\<forall>p. sock = Some p \<longrightarrow> sock_at t p \<noteq> None)"

fun legal :: "tcp_call \<Rightarrow> tcp_table \<Rightarrow> bool" where
  "legal (Listen port) t = True"
| "legal Create t = True"
| "legal (Bind sock port) t = valid_sock sock t"
| "legal (Recv sock buf len) t = (valid_sock sock t \<and> (\<forall>b. buf = Some b \<longrightarrow> nat len \<le> length b))"
| "legal (Send sock buf len) t = (valid_sock sock t \<and> (\<forall>b. buf = Some b \<longrightarrow> nat len \<le> length b) \<and>
     \<not> (1464 < len \<and> len \<le> 1480))"
| "legal (Accept sock) t = (valid_sock sock t \<and> \<not> table_moves t)"
| "legal (Close sock) t = (\<forall>p. sock = Some p \<longrightarrow> (\<exists>k. sock_at t p = Some k \<and> in_use k))"
| "legal (Relisten sock port) t = valid_sock sock t"
| "legal (Segment ip_hdr data len ticks) t =
     (nat len \<le> length data \<and> 16 \<le> length ip_hdr \<and> \<not> table_moves t)"

inductive tcp_reach :: "tcp_world \<Rightarrow> tcp_world \<Rightarrow> bool" where
  start: "tcp_reach w w"
| call: "tcp_reach w w' \<Longrightarrow> legal c (fst w') \<Longrightarrow> tcp_do c w' = Some w'' \<Longrightarrow> tcp_reach w w''"

section \<open>Each call keeps the table well formed\<close>

definition wf_world :: "tcp_world \<Rightarrow> bool" where
  "wf_world w \<longleftrightarrow> tcp_ok (fst w) \<and> ip_stack_ok (snd w)"

lemma world_wf: "world_ok p w \<Longrightarrow> wf_world w"
  by (simp add: world_ok_def wf_world_def)

lemma valid_sock_world:
  "valid_sock (Some p) (fst w) \<Longrightarrow> wf_world w \<Longrightarrow> world_ok p w"
  by (auto simp: valid_sock_def world_ok_def wf_world_def)

text \<open>A new socket is valid, and its initialisation keeps the table well formed.\<close>

lemma tcp_alloc_yields:
  assumes "tcp_ok t" and "ip_stack_ok s"
  shows "yields (tcp_alloc_socket t)
    (\<lambda>(c, t'). tcp_ok t' \<and> (\<forall>p. c = Some p \<longrightarrow> world_ok p (t', s)))"
  using assms(1)
proof (cases rule: tcp_alloc_socket_cases)
  case (slot i)
  then show ?thesis using take_slot_ok [OF assms(1) slot(1)] assms(2) by (simp add: world_ok_def)
qed (use assms(2) in \<open>simp_all add: world_ok_def\<close>)

lemma sock_ok_empty: "sock_ok k \<Longrightarrow> sock_ok (k\<lparr>recv_head := 0, recv_tail := 0, recv_count := 0, remote_ip := [0, 0, 0, 0]\<rparr>)"
  by (auto simp: sock_ok_def recv_holds_def intro!: exI [of _ "[]"])

lemma sock_ok_ip: "sock_ok k \<Longrightarrow> length ip = 4 \<Longrightarrow> sock_ok (k\<lparr>remote_ip := ip\<rparr>)"
  by (simp add: sock_ok_def recv_holds_def)

lemma tcp_listen_wf:
  assumes "wf_world (t, s)"
  shows "yields (tcp_listen port t) (\<lambda>(r, t). wf_world (t, s))"
proof -
  have ok: "tcp_ok t" "ip_stack_ok s" using assms by (simp_all add: wf_world_def)
  obtain c t1 where a: "tcp_alloc_socket t = Some (c, t1)" "tcp_ok t1" "\<And>p. c = Some p \<Longrightarrow> world_ok p (t1, s)"
    using tcp_alloc_yields [OF ok] by (auto simp: yields_def)
  let ?f = "\<lambda>k. k\<lparr>t_state := TCP_STATE_LISTEN, local_port := port, remote_port := 0, t_seq := 0,
                   t_ack := 0, t_window := 8192, t_flags := 0, remote_ip := [0, 0, 0, 0]\<rparr>"
  have "yields (set_sock p ?f t1) (\<lambda>t'. world_ok p (t', s))" if "c = Some p" for p
    using a(3) [OF that] by (rule set_sock_yields) (simp add: sock_ok_ip)
  then show ?thesis
    using assms a(1,2) ok(2) unfolding tcp_listen_def
    by (cases c) (auto simp: yields_def wf_world_def world_ok_def)
qed

lemma tcp_socket_create_wf:
  assumes "wf_world (t, s)"
  shows "yields (tcp_socket_create t) (\<lambda>(r, t). wf_world (t, s))"
proof -
  have ok: "tcp_ok t" "ip_stack_ok s" using assms by (simp_all add: wf_world_def)
  obtain c t1 where a: "tcp_alloc_socket t = Some (c, t1)" "tcp_ok t1" "\<And>p. c = Some p \<Longrightarrow> world_ok p (t1, s)"
    using tcp_alloc_yields [OF ok] by (auto simp: yields_def)
  let ?f = "\<lambda>k. k\<lparr>t_state := TCP_STATE_CLOSED, local_port := 0, remote_port := 0, t_seq := 0,
                t_ack := 0, t_window := 8192, t_flags := 0, recv_head := 0, recv_tail := 0, recv_count := 0,
                remote_ip := [0, 0, 0, 0]\<rparr>"
  have "yields (set_sock p ?f t1) (\<lambda>t'. world_ok p (t', s))" if "c = Some p" for p
    using a(3) [OF that] by (rule set_sock_yields) (simp add: sock_ok_empty)
  then show ?thesis
    using a(1,2) ok(2) unfolding tcp_socket_create_def
    by (cases c) (auto simp: yields_def wf_world_def world_ok_def)
qed

lemma tcp_bind_wf:
  assumes "wf_world (t, s)" and "valid_sock sock t"
  shows "yields (tcp_bind sock port t) (\<lambda>(r, t). wf_world (t, s))"
proof (cases sock)
  case None
  then show ?thesis using assms(1) by (simp add: tcp_bind_def)
next
  case (Some p)
  then have "world_ok p (t, s)" using assms valid_sock_world [of p "(t, s)"] by simp
  then have "yields (set_sock p (\<lambda>k. k\<lparr>local_port := port\<rparr>) t) (\<lambda>t'. world_ok p (t', s))"
    by (rule set_sock_yields) simp
  then show ?thesis using Some assms(1) by (auto simp: tcp_bind_def yields_def dest: world_wf)
qed

lemma recv_loop_wf:
  assumes "sock_ok k" and "n \<le> length buf"
  shows "yields (recv_loop n buf 0 k) (\<lambda>(r, out, k'). sock_ok k' \<and> in_use k' = in_use k)"
proof -
  from assms(1) obtain q where q: "recv_holds k q" "length (remote_ip k) = 4" by (auto simp: sock_ok_def)
  from recv_ring.drain_rep [OF q(1), of n] obtain k' where
    k': "fifo_drain (\<lambda>k. unat (recv_count k)) take_byte n k = Some (take n q, k')" "recv_holds k' (drop n q)" by blast
  moreover have "same_conn k k'" using k'(1) by (rule drain_conn)
  ultimately show ?thesis
    using recv_loop_drain [OF k'(1), of 0 buf] assms(2) q(2) by (auto simp: sock_ok_def same_conn_def)
qed

lemma tcp_recv_wf:
  assumes "wf_world (t, s)" and "valid_sock sock t" and "\<forall>b. buf = Some b \<longrightarrow> nat len \<le> length b"
  shows "yields (tcp_recv sock buf len t) (\<lambda>(r, b, t). wf_world (t, s))"
proof (cases "sock = None \<or> buf = None \<or> len \<le> 0")
  case True
  then show ?thesis using assms(1) by (auto simp: tcp_recv_def split: option.split)
next
  case False
  then obtain p out where po: "sock = Some p" "buf = Some out" by auto
  then have w: "world_ok p (t, s)" using assms(1,2) valid_sock_world [of p "(t, s)"] by simp
  then obtain k where k: "sock_at t p = Some k" "tcp_ok t" by (auto simp: world_ok_def)
  from recv_loop_wf [OF tcp_ok_sock [OF k(2,1)], of "nat len" out] assms(3) po(2) obtain r o' k' where
    l: "recv_loop (nat len) out 0 k = Some (r, o', k')" "sock_ok k'" "in_use k' = in_use k" by (auto simp: yields_def)
  show ?thesis
    using False po k l assms(1) set_sock_eq [OF k(1)] tcp_ok_update [OF k(2,1) l(2,3)]
    by (auto simp: tcp_recv_def wf_world_def)
qed

lemma tcp_send_wf:
  assumes "wf_world w" and "valid_sock sock (fst w)" and "\<forall>b. buf = Some b \<longrightarrow> nat len \<le> length b"
    and "\<not> (1464 < len \<and> len \<le> 1480)"
  shows "yields (tcp_send sock buf len w) (\<lambda>(r, w). wf_world w)"
proof (cases "sock = None \<or> buf = None \<or> len \<le> 0")
  case True
  then show ?thesis using assms(1) by (auto simp: tcp_send_def split: option.split)
next
  case False
  then obtain p out where po: "sock = Some p" "buf = Some out" by auto
  obtain t s where ts: "w = (t, s)" by (cases w)
  have ok: "world_ok p w" using assms(1,2) po(1) by (intro valid_sock_world) simp_all
  then obtain k where k: "sock_at t p = Some k" by (auto simp: world_ok_def ts)
  have "yields (tcp_send_packet (Some p) (TCP_FLAG_ACK OR TCP_FLAG_PSH) out len w) wf_world"
  proof (cases "len \<le> 1464")
    case True
    then show ?thesis
      by (intro yields_mono [OF tcp_send_packet_yields [OF ok]]) (use False assms(3) po(2) in \<open>auto dest: world_wf\<close>)
  next
    case False
    then show ?thesis using assms(1,4) by (simp add: tcp_send_packet_def ts c_defs)
  qed
  then show ?thesis using False po k assms(1) by (auto simp: tcp_send_def yields_def ts)
qed

lemma tcp_accept_wf:
  assumes "wf_world (t, s)" and "valid_sock sock t" and "\<not> table_moves t"
  shows "yields (tcp_accept sock t) (\<lambda>(r, t). wf_world (t, s))"
proof (cases sock)
  case None
  then show ?thesis using assms(1) by (simp add: tcp_accept_def)
next
  case (Some p)
  have ok: "tcp_ok t" "ip_stack_ok s" using assms(1) by (simp_all add: wf_world_def)
  from Some assms(2) obtain k where k: "sock_at t p = Some k" by (auto simp: valid_sock_def)
  let ?f = "\<lambda>k. k\<lparr>t_state := TCP_STATE_LISTEN, remote_port := 0, t_seq := 0, t_ack := 0,
    recv_head := 0, recv_tail := 0, recv_count := 0, remote_ip := [0, 0, 0, 0]\<rparr>"
  show ?thesis
  proof (cases "t_state k = TCP_STATE_ESTABLISHED \<or> t_state k = TCP_STATE_SYN_RCVD")
    case False
    then show ?thesis using Some k assms(1) by (simp add: tcp_accept_def)
  next
    case acc: True
    from ok(1) show ?thesis
    proof (cases rule: tcp_alloc_socket_cases)
      case (slot i)
      let ?t = "take_slot i t" and ?c = "(tcp_base t, i)"
      note new = take_slot_ok [OF ok(1) slot(1)]
      obtain l where l: "sock_at ?t p = Some l" using k by (auto simp: sock_at_Some take_slot_def)
      have lok: "sock_ok l" using new(1) l by (rule tcp_ok_sock)
      have w: "world_ok ?c (?t, s)" using new ok(2) by (simp add: world_ok_def)
      obtain t1 where t1: "set_sock ?c (\<lambda>k. l\<lparr>in_use := in_use k\<rparr>) ?t = Some t1" "world_ok ?c (t1, s)"
        using set_sock_yields [OF w, of "\<lambda>k. l\<lparr>in_use := in_use k\<rparr>"] lok by (auto simp: yields_def)
      have "world_ok p (queue_calls (init_queues i) t1, s)"
        using t1 l new by (auto simp: world_ok_def set_sock_def sock_at_Some)
      then have "yields (set_sock p ?f (queue_calls (init_queues i) t1)) (\<lambda>t'. world_ok p (t', s))"
        by (rule set_sock_yields) (simp add: sock_ok_empty)
      then show ?thesis using Some k acc slot(2) l t1(1) by (auto simp: tcp_accept_def yields_def dest: world_wf)
    next
      case (none h)
      then show ?thesis using Some k acc ok(2) by (auto simp: tcp_accept_def wf_world_def)
    next
      case (moved t')
      then show ?thesis using assms(3) by simp
    qed
  qed
qed

lemma tcp_send_fin_effect:
  assumes "wf_world (t, s)" and "sock_at t p = Some k"
  obtains d s' where "tcp_send_fin p (t, s) =
      Some (t\<lparr>tcp_sockets := (tcp_sockets t)[snd p := k\<lparr>t_seq := t_seq k + d\<rparr>]\<rparr>, s')" and "ip_stack_ok s'"
proof (cases "t_state k = TCP_STATE_ESTABLISHED \<or> t_state k = TCP_STATE_CLOSE_WAIT")
  case True
  have ok: "tcp_ok t" "ip_stack_ok s" using assms(1) by (simp_all add: wf_world_def)
  from tcp_send_packet_effect [OF ok assms(2), of 0 "[]" "TCP_FLAG_FIN OR TCP_FLAG_ACK"] obtain d s' where
    "tcp_send_packet (Some p) (TCP_FLAG_FIN OR TCP_FLAG_ACK) [] 0 (t, s) =
      Some (t\<lparr>tcp_sockets := (tcp_sockets t)[snd p := k\<lparr>t_seq := t_seq k + d\<rparr>]\<rparr>, s')" "ip_stack_ok s'" by auto
  then show ?thesis using True assms(2) by (intro that [of d s']) (auto simp: tcp_send_fin_def)
next
  case False
  have "t\<lparr>tcp_sockets := (tcp_sockets t)[snd p := k\<lparr>t_seq := t_seq k + 0\<rparr>]\<rparr> = t"
    using assms(2) by (auto simp: sock_at_Some)
  then show ?thesis using False assms by (intro that [of 0 s]) (auto simp: tcp_send_fin_def wf_world_def)
qed

lemma length_filter_release:
  "i < length xs \<Longrightarrow> P (xs ! i) \<Longrightarrow> \<not> P y \<Longrightarrow>
   Suc (length (filter P (xs[i := y]))) = length (filter P xs)"
  by (induction xs arbitrary: i) (auto split: nat.splits)

text \<open>A socket in use is released: one socket less is counted.\<close>

lemma tcp_ok_release:
  assumes "tcp_ok t" and "sock_at t p = Some k" and "in_use k" and "sock_ok k'" and "\<not> in_use k'"
  shows "tcp_ok (t\<lparr>tcp_sockets := (tcp_sockets t)[snd p := k'], tcp_socket_count := tcp_socket_count t - 1\<rparr>)"
proof -
  have "snd p < length (tcp_sockets t)" "in_use (tcp_sockets t ! snd p)" using assms(2,3) by (auto simp: sock_at_Some)
  then show ?thesis
    using assms(1,4,5) length_filter_release [of "snd p" "tcp_sockets t" in_use k']
      set_update_subset_insert [of "tcp_sockets t" "snd p" k']
    by (auto simp: tcp_ok_def table_alloc_def)
qed

lemma tcp_reset_sock_ok: "sock_ok k \<Longrightarrow> sock_ok (tcp_reset_sock st port k)"
  by (simp add: tcp_reset_sock_def sock_ok_empty)

lemma tcp_close_wf:
  assumes "wf_world w" and "legal (Close sock) (fst w)"
  shows "yields (tcp_close sock w) wf_world"
proof (cases sock)
  case None
  then show ?thesis using assms(1) by (simp add: tcp_close_def)
next
  case (Some p)
  obtain t s where w: "w = (t, s)" by (cases w)
  from Some assms(2) obtain k where k: "sock_at t p = Some k" "in_use k" by (auto simp: w)
  obtain d s' where fin: "tcp_send_fin p (t, s) =
      Some (t\<lparr>tcp_sockets := (tcp_sockets t)[snd p := k\<lparr>t_seq := t_seq k + d\<rparr>]\<rparr>, s')" "ip_stack_ok s'"
    using assms(1) k(1) unfolding w by (rule tcp_send_fin_effect)
  let ?k = "k\<lparr>t_seq := t_seq k + d\<rparr>" and ?t = "t\<lparr>tcp_sockets := (tcp_sockets t)[snd p := k\<lparr>t_seq := t_seq k + d\<rparr>]\<rparr>"
  have "tcp_ok t" using assms(1) by (simp add: w wf_world_def)
  then have ok: "sock_ok ?k" "tcp_ok ?t"
    using tcp_ok_sock [of t p k] tcp_ok_update [of t p k ?k] k(1) by simp_all
  have k': "sock_at ?t p = Some ?k" using k(1) by simp
  show ?thesis
    using Some fin set_sock_eq [OF k'] k(2) tcp_reset_sock_ok [OF ok(1)] tcp_ok_release [OF ok(2) k', of "(tcp_reset_sock TCP_STATE_CLOSED 0 ?k)\<lparr>in_use := False\<rparr>"]
    by (simp add: tcp_close_def w wf_world_def)
qed

lemma tcp_relisten_wf:
  assumes "wf_world w" and "valid_sock sock (fst w)"
  shows "yields (tcp_close_and_relisten sock port w) wf_world"
proof (cases sock)
  case None
  then show ?thesis using assms(1) by (simp add: tcp_close_and_relisten_def)
next
  case (Some p)
  obtain t s where w: "w = (t, s)" by (cases w)
  from Some assms(2) obtain k where k: "sock_at t p = Some k" by (auto simp: w valid_sock_def)
  obtain d s' where fin: "tcp_send_fin p (t, s) =
      Some (t\<lparr>tcp_sockets := (tcp_sockets t)[snd p := k\<lparr>t_seq := t_seq k + d\<rparr>]\<rparr>, s')" "ip_stack_ok s'"
    using assms(1) k unfolding w by (rule tcp_send_fin_effect)
  let ?t = "t\<lparr>tcp_sockets := (tcp_sockets t)[snd p := k\<lparr>t_seq := t_seq k + d\<rparr>]\<rparr>"
  have "tcp_ok t" using assms(1) by (simp add: w wf_world_def)
  then have "world_ok p (?t, s')"
    using tcp_ok_sock [of t p k] tcp_ok_update [of t p k "k\<lparr>t_seq := t_seq k + d\<rparr>"] k fin(2) by (simp add: world_ok_def)
  then have "yields (set_sock p (tcp_reset_sock TCP_STATE_LISTEN port) ?t) (\<lambda>t'. world_ok p (t', s'))"
    by (rule set_sock_yields) (simp add: tcp_reset_sock_ok, simp add: tcp_reset_sock_def)
  then show ?thesis using Some fin by (auto simp: tcp_close_and_relisten_def w yields_def wf_world_def world_ok_def)
qed

lemma segment_wf:
  assumes "wf_world w" and "legal (Segment ip_hdr data len ticks) (fst w)"
  shows "yields (tcp_handle_packet ip_hdr data len ticks w) wf_world"
proof -
  obtain t s where w: "w = (t, s)" by (cases w)
  have ok: "tcp_ok t" "ip_stack_ok s" "nat len \<le> length data" "16 \<le> length ip_hdr" "\<not> table_moves t"
    using assms by (simp_all add: w wf_world_def)
  show ?thesis
    unfolding w wf_world_def
    by (rule tcp_handle_packet_lift [OF ok(1-4), where R = "\<lambda>m. yields m (\<lambda>w. tcp_ok (fst w) \<and> ip_stack_ok (snd w))"])
       (assumption | rule handle_listen_yields [OF _ _ ok(5)])+
qed

lemmas call_wf = tcp_listen_wf tcp_socket_create_wf tcp_bind_wf tcp_recv_wf tcp_send_wf tcp_accept_wf
  tcp_close_wf tcp_relisten_wf segment_wf

lemma tcp_do_wf:
  assumes "wf_world w" and "legal c (fst w)"
  shows "yields (tcp_do c w) wf_world"
proof -
  obtain t s where w: "w = (t, s)" by (cases w)
  show ?thesis
    using assms unfolding w
    by (cases c) (auto intro!: yields_map call_wf [THEN yields_mono])
qed

lemma tcp_reach_wf: "tcp_reach w w' \<Longrightarrow> wf_world w \<Longrightarrow> wf_world w'"
proof (induction rule: tcp_reach.induct)
  case (call w w' c w'')
  then show ?case using tcp_do_wf [of w' c] by simp
qed

lemma tcp_init_wf:
  assumes "heap_allocs (tcp_heap t) L" and "ip_stack_ok s"
  obtains t' where "tcp_init t = Some t'" and "wf_world (t', s)"
proof -
  let ?t = "t\<lparr>tcp_sockets := [], tcp_base := 0, tcp_socket_capacity := 0, tcp_socket_count := 0\<rparr>"
  have "tcp_ok ?t" using assms(1) by (auto simp: tcp_ok_def table_alloc_def)
  then show thesis
    by (cases rule: tcp_grow_sockets_cases) (use that assms(2) in \<open>auto simp: tcp_init_def wf_world_def\<close>)
qed

section \<open>Properties\<close>

text \<open>
  C4: The socket interface is type safe. Start with \<open>tcp_init\<close> on a well-formed heap, and let any
  number of legal calls and received segments follow in any order: the next legal call returns
  without undefined behaviour, and the socket table is well formed afterwards.
\<close>

theorem tcp_calls_type_safe:
  assumes "heap_allocs (tcp_heap t) L" and "ip_stack_ok s" and "tcp_init t = Some t'"
    and "tcp_reach (t', s) w" and "legal c (fst w)"
  shows "\<exists>w'. tcp_do c w = Some w' \<and> tcp_ok (fst w') \<and> ip_stack_ok (snd w')"
proof -
  have "wf_world (t', s)" by (rule tcp_init_wf [OF assms(1,2)]) (use assms(3) in simp)
  then have "wf_world w" using assms(4) tcp_reach_wf by blast
  then show ?thesis using tcp_do_wf [OF _ assms(5)] by (auto simp: yields_def wf_world_def)
qed

theorem tcp_calls_type_safe_witness:
  "\<exists>t' w w'. tcp_init ((tcp_example [])\<lparr>tcp_heap := tcp_heap_example\<rparr>) = Some t' \<and>
     tcp_do (Listen 80) (t', ip_stack_example) = Some w \<and>
     tcp_do Create w = Some w' \<and> tcp_ok (fst w')"
proof -
  let ?t = "(tcp_example [])\<lparr>tcp_heap := tcp_heap_example\<rparr>"
  have "heap_rep tcp_heap_example [(1048552, True)]"
    using kheap_init_rep [of 65536 1048576] by (simp add: tcp_heap_example_def addr_space_def)
  then have h: "heap_allocs (tcp_heap ?t) {}" unfolding heap_allocs_def by (intro exI [of _ "[(1048552, True)]"]) simp
  obtain t' where i: "tcp_init ?t = Some t'" by (rule tcp_init_wf [OF h ip_stack_example_ok])
  note safe = tcp_calls_type_safe [OF h ip_stack_example_ok i]
  obtain w where w: "tcp_do (Listen 80) (t', ip_stack_example) = Some w"
    using safe [OF tcp_reach.start, of "Listen 80"] by auto
  have "tcp_reach (t', ip_stack_example) w" by (rule tcp_reach.call [OF tcp_reach.start _ w]) simp
  from safe [OF this, of Create] show ?thesis using i w by auto
qed

end
