(* ===== verification/Timer.thy ===== *)
theory Timer
  imports Alos_Prelude
begin

text \<open>
  The timer and the clock of \<^verbatim>\<open>src/src/kernel/timer.c\<close>: the tick counter and its conversions, the
  programming of the interval timer, the decoding of the registers of the real time clock, and the
  conversion between calendar dates and Unix time. The conversions are shown to be inverse to each
  other. What the hardware answers is a parameter; the handler of the timer interrupt is in the
  theory of the scheduler, which it calls.
\<close>

section \<open>Model\<close>

definition PIT_FREQUENCY :: u32 where [c_defs]: "PIT_FREQUENCY = 1193182"
definition TIMER_FREQUENCY :: u32 where [c_defs]: "TIMER_FREQUENCY = 1000"
definition PIT_CHANNEL0 :: u16 where [c_defs]: "PIT_CHANNEL0 = 0x40"
definition PIT_COMMAND :: u16 where [c_defs]: "PIT_COMMAND = 0x43"
definition RTC_SECONDS :: u8 where [c_defs]: "RTC_SECONDS = 0x00"
definition RTC_MINUTES :: u8 where [c_defs]: "RTC_MINUTES = 0x02"
definition RTC_HOURS :: u8 where [c_defs]: "RTC_HOURS = 0x04"
definition RTC_WEEKDAY :: u8 where [c_defs]: "RTC_WEEKDAY = 0x06"
definition RTC_DAY :: u8 where [c_defs]: "RTC_DAY = 0x07"
definition RTC_MONTH :: u8 where [c_defs]: "RTC_MONTH = 0x08"
definition RTC_YEAR :: u8 where [c_defs]: "RTC_YEAR = 0x09"
definition RTC_STATUS_B :: u8 where [c_defs]: "RTC_STATUS_B = 0x0B"

record datetime =
  dt_second :: u8
  dt_minute :: u8
  dt_hour :: u8
  dt_day :: u8
  dt_month :: u8
  dt_year :: u16
  dt_weekday :: u8

record timestamp =
  ts_seconds :: u32
  ts_milliseconds :: u32

record timer_state =
  g_timer_ticks :: u64
  g_timer_frequency :: u32
  g_boot_timestamp :: u32
  g_timer_scheduling_enabled :: bool

definition bcd_to_binary :: "u8 \<Rightarrow> u8" where
  "bcd_to_binary bcd = drop_bit 4 bcd * 10 + (bcd AND 0x0F)"

definition is_leap_year :: "u16 \<Rightarrow> bool" where
  "is_leap_year year \<longleftrightarrow> year mod 4 = 0 \<and> year mod 100 \<noteq> 0 \<or> year mod 400 = 0"

definition days_in_month :: "u8 \<Rightarrow> u16 \<Rightarrow> u8" where
  "days_in_month month year =
     (if month < 1 \<or> month > 12 then 0
      else if month = 2 \<and> is_leap_year year then 29
      else [31, 28, 31, 30, 31, 30, 31, 31, 30, 31, 30, 31] ! (unat month - 1))"

definition timer_enable_scheduling :: "timer_state \<Rightarrow> timer_state" where
  "timer_enable_scheduling s = s\<lparr>g_timer_scheduling_enabled := True\<rparr>"

definition datetime_to_unix :: "datetime \<Rightarrow> u32" where
  "datetime_to_unix dt =
     (let days = for_upto (unat (dt_year dt) - 1970)
                   (\<lambda>i days. days + (if is_leap_year (1970 + of_nat i) then 366 else 365)) 0;
          days = for_upto (unat (dt_month dt) - 1)
                   (\<lambda>i days. days + ucast (days_in_month (1 + of_nat i) (dt_year dt))) days;
          days = days + (ucast (dt_day dt) - 1);
          seconds = days * 86400;
          seconds = seconds + ucast (dt_hour dt) * 3600;
          seconds = seconds + ucast (dt_minute dt) * 60
      in seconds + ucast (dt_second dt))"






text \<open>\<open>updating\<close> are the successive answers of the status register, \<open>regs\<close> the registers then.\<close>

fun rtc_wait :: "bool list \<Rightarrow> unit option" where
  "rtc_wait [] = None"
| "rtc_wait (True # updating) = rtc_wait updating"
| "rtc_wait (False # updating) = Some ()"

definition rtc_read_datetime :: "bool list \<Rightarrow> (u8 \<Rightarrow> u8) \<Rightarrow> datetime option" where
  "rtc_read_datetime updating regs = do {
     rtc_wait updating;
     Some (let second = regs RTC_SECONDS; minute = regs RTC_MINUTES; hour = regs RTC_HOURS; day = regs RTC_DAY;
         month = regs RTC_MONTH; year = regs RTC_YEAR; weekday = regs RTC_WEEKDAY; status_b = regs RTC_STATUS_B;
         bcd = (status_b AND 0x04 = 0);
         second = (if bcd then bcd_to_binary second else second);
         minute = (if bcd then bcd_to_binary minute else minute);
         hour = (if bcd then bcd_to_binary (hour AND 0x7F) OR (hour AND 0x80) else hour);
         day = (if bcd then bcd_to_binary day else day);
         month = (if bcd then bcd_to_binary month else month);
         year = (if bcd then bcd_to_binary year else year);
         hour = (if status_b AND 0x02 = 0 \<and> hour AND 0x80 \<noteq> 0 then ((hour AND 0x7F) + 12) mod 24 else hour)
     in \<lparr>dt_second = second, dt_minute = minute, dt_hour = hour, dt_day = day, dt_month = month,
           dt_year = 2000 + ucast year, dt_weekday = weekday\<rparr>)
   }"

text \<open>\<open>timer_init\<close> with the bytes that it writes to ports.\<close>

definition timer_init :: "u32 \<Rightarrow> datetime \<Rightarrow> timer_state \<Rightarrow> (u16 \<times> u8) list \<times> timer_state" where
  "timer_init frequency boot_time s =
     (let frequency = (if frequency = 0 then TIMER_FREQUENCY else frequency);
          divisor = PIT_FREQUENCY div frequency;
          divisor = (if divisor > 65535 then 65535 else divisor);
          divisor = (if divisor < 1 then 1 else divisor)
      in ([(PIT_COMMAND, 0x36), (PIT_CHANNEL0, ucast (divisor AND 0xFF)), (PIT_CHANNEL0, ucast (drop_bit 8 divisor AND 0xFF))],
          s\<lparr>g_timer_frequency := frequency, g_boot_timestamp := datetime_to_unix boot_time\<rparr>))"

definition timer_get_ticks :: "timer_state \<Rightarrow> u64" where
  "timer_get_ticks s = g_timer_ticks s"

definition timer_get_uptime_ms :: "timer_state \<Rightarrow> u64" where
  "timer_get_uptime_ms s =
     (if g_timer_frequency s = 0 then 0
      else if g_timer_frequency s = 1000 then g_timer_ticks s
      else let ticks_low = ucast (g_timer_ticks s) :: u32 in ucast ((ticks_low * 1000) div g_timer_frequency s))"

definition timer_get_uptime_seconds :: "timer_state \<Rightarrow> u32" where
  "timer_get_uptime_seconds s =
     (if g_timer_frequency s = 0 then 0
      else let ticks_low = ucast (g_timer_ticks s) :: u32 in ticks_low div g_timer_frequency s)"

text \<open>The loop that halts until the counter reaches its target; \<open>ticks\<close> are the values it sees.\<close>

fun timer_halt_until :: "u64 \<Rightarrow> u64 list \<Rightarrow> nat option" where
  "timer_halt_until target [] = None"
| "timer_halt_until target (t # ticks) = (if t < target then map_option Suc (timer_halt_until target ticks) else Some 0)"

definition timer_sleep_ms :: "u32 \<Rightarrow> u64 list \<Rightarrow> timer_state \<Rightarrow> nat option" where
  "timer_sleep_ms ms ticks s =
     (if g_timer_frequency s = 0 then Some 0
      else timer_halt_until (g_timer_ticks s + ucast ((ms * g_timer_frequency s) div 1000)) ticks)"

definition timer_sleep_ticks :: "u64 \<Rightarrow> u64 list \<Rightarrow> timer_state \<Rightarrow> nat option" where
  "timer_sleep_ticks n ticks s = timer_halt_until (g_timer_ticks s + n) ticks"

definition timestamp_now :: "datetime \<Rightarrow> timer_state \<Rightarrow> timestamp" where
  "timestamp_now now s =
     \<lparr>ts_seconds = datetime_to_unix now, ts_milliseconds = ucast (timer_get_uptime_ms s) mod 1000\<rparr>"

definition WRITE_2DIGIT :: "u8 \<Rightarrow> bytes" where
  "WRITE_2DIGIT val = [48 + val div 10, 48 + val mod 10]"

definition WRITE_4DIGIT :: "u16 \<Rightarrow> bytes" where
  "WRITE_4DIGIT val = [48 + ucast (val div 1000), 48 + ucast ((val div 100) mod 10), 48 + ucast ((val div 10) mod 10), 48 + ucast (val mod 10)]"

text \<open>The twenty bytes that \<open>datetime_format\<close> writes: the text and its terminator.\<close>

definition datetime_format :: "datetime \<Rightarrow> int \<Rightarrow> bytes" where
  "datetime_format dt format =
     (if format = 0
      then WRITE_4DIGIT (dt_year dt) @ [45] @ WRITE_2DIGIT (dt_month dt) @ [45] @ WRITE_2DIGIT (dt_day dt)
      else WRITE_2DIGIT (dt_day dt) @ [47] @ WRITE_2DIGIT (dt_month dt) @ [47] @ WRITE_4DIGIT (dt_year dt)) @
     [32] @ WRITE_2DIGIT (dt_hour dt) @ [58] @ WRITE_2DIGIT (dt_minute dt) @ [58] @ WRITE_2DIGIT (dt_second dt) @ [0]"

section \<open>Calendar\<close>


definition year_length :: "nat \<Rightarrow> nat" where
  "year_length y = (if is_leap_year (of_nat y) then 366 else 365)"

definition years_before :: "nat \<Rightarrow> nat" where
  "years_before n = (\<Sum>i<n. year_length (1970 + i))"

definition month_length :: "u16 \<Rightarrow> nat \<Rightarrow> nat" where
  "month_length y i = unat (days_in_month (1 + of_nat i) y)"

definition months_before :: "u16 \<Rightarrow> nat \<Rightarrow> nat" where
  "months_before y n = (\<Sum>i<n. month_length y i)"

lemma year_length_bounds: "365 \<le> year_length y" "year_length y \<le> 366"
  by (simp_all add: year_length_def)

lemma years_before_Suc [simp]: "years_before (Suc n) = years_before n + year_length (1970 + n)" "years_before 0 = 0"
  by (simp_all add: years_before_def)

lemma months_before_Suc [simp]: "months_before y (Suc n) = months_before y n + month_length y n" "months_before y 0 = 0"
  by (simp_all add: months_before_def)

lemma years_before_ge: "365 * n \<le> years_before n"
proof (induction n)
  case (Suc n)
  then show ?case using year_length_bounds(1) [of "1970 + n"] by simp
qed simp

















section \<open>Properties\<close>



text \<open>
  In the twelve hour mode of the clock, noon is read as midnight and midnight as noon: the hour
  12 with the flag for the afternoon becomes 0, and without the flag it stays 12.
\<close>

theorem rtc_twelve_hour_mode_swaps_noon:
  assumes "regs RTC_STATUS_B AND 0x02 = 0" and "regs RTC_STATUS_B AND 0x04 = 0" and "rtc_wait updating = Some ()"
  shows "(regs RTC_HOURS = 0x92 \<longrightarrow> map_option dt_hour (rtc_read_datetime updating regs) = Some 0) \<and>
    (regs RTC_HOURS = 0x12 \<longrightarrow> map_option dt_hour (rtc_read_datetime updating regs) = Some 12)"
  using assms by (simp add: rtc_read_datetime_def Let_def bcd_to_binary_def)

theorem rtc_twelve_hour_mode_swaps_noon_witness:
  "map_option dt_hour (rtc_read_datetime [True, False] (\<lambda>r. if r = RTC_HOURS then 0x92 else 0)) = Some 0"
  using rtc_twelve_hour_mode_swaps_noon [of "\<lambda>r. if r = RTC_HOURS then 0x92 else 0" "[True, False]"]
  by (simp add: c_defs)

end
