(* ===== verification/Thread.thy ===== *)
theory Thread
  imports Spinlock Timer
begin

text \<open>
  The scheduler and the wait queues of \<^verbatim>\<open>src/src/kernel/thread.c\<close>, with the handler of the timer
  interrupt in \<^verbatim>\<open>src/src/kernel/timer.c\<close> that drives it. A pointer to a thread is its address, 0 is
  NULL, and \<open>threads\<close> gives the structure at an address; the queues are linked through the fields of
  these structures as in the source.

  The kernel runs on one processor. An operation that gives up the processor is modelled up to the
  call of \<^verbatim>\<open>switch_task\<close>; what its thread does when it is scheduled again is a definition of its own.
  Interrupts are masked in between, so that each of these parts is atomic. A lock that is already
  held would be waited for forever; this and the walk along a cyclic list are \<open>None\<close>.
\<close>

section \<open>Data\<close>

definition THREAD_TIME_SLICE_DEFAULT :: u32 where [c_defs]: "THREAD_TIME_SLICE_DEFAULT = 10"
definition THREAD_NICE_MIN :: int where [c_defs]: "THREAD_NICE_MIN = - 20"
definition THREAD_NICE_MAX :: int where [c_defs]: "THREAD_NICE_MAX = 19"
definition THREAD_NICE_DEFAULT :: int where [c_defs]: "THREAD_NICE_DEFAULT = 0"
definition THREAD_AGING_THRESHOLD :: u64 where [c_defs]: "THREAD_AGING_THRESHOLD = 100"
definition ETIMEDOUT :: int where [c_defs]: "ETIMEDOUT = 110"

text \<open>\<^verbatim>\<open>thread_priority_t\<close>\<close>

definition THREAD_PRIORITY_IDLE :: nat where [c_defs]: "THREAD_PRIORITY_IDLE = 0"
definition THREAD_PRIORITY_BACKGROUND :: nat where [c_defs]: "THREAD_PRIORITY_BACKGROUND = 1"
definition THREAD_PRIORITY_NORMAL :: nat where [c_defs]: "THREAD_PRIORITY_NORMAL = 2"
definition THREAD_PRIORITY_HIGH :: nat where [c_defs]: "THREAD_PRIORITY_HIGH = 3"
definition THREAD_PRIORITY_UI :: nat where [c_defs]: "THREAD_PRIORITY_UI = 4"
definition THREAD_PRIORITY_COUNT :: nat where [c_defs]: "THREAD_PRIORITY_COUNT = 5"

datatype thread_state =
  THREAD_STATE_READY | THREAD_STATE_RUNNING | THREAD_STATE_BLOCKED | THREAD_STATE_SLEEPING | THREAD_STATE_ZOMBIE

text \<open>Where a wait queue is: in a thread, in a process, in a synchronisation object, or elsewhere.\<close>

datatype queue_ptr =
  Join_Waiters u64 | Process_Waiters u64 | Mutex_Waiters u64 | Sem_Waiters u64 | Cond_Waiters u64 |
  Rw_Readers u64 | Rw_Writers u64 | Queue_At u64

record wait_queue =
  wq_head :: u64
  wq_tail :: u64
  wq_lock :: spinlock

record thread =
  th_tid :: u32
  th_owner :: u64
  th_state :: thread_state
  should_terminate :: int
  exited :: bool
  exit_status :: int
  first_switch :: bool
  rsp :: u64
  rsp0 :: u64
  base_priority :: nat
  priority :: nat
  time_slice_remaining :: u32
  nice :: int
  is_boosted :: bool
  wait_start_tick :: u64
  cpu_ticks :: u64
  context_switches :: u64
  run_start_tick :: u64
  wake_tick :: u64
  waiting_queue :: "queue_ptr option"
  wait_queue_next :: u64
  timeout_tick :: u64
  wait_result :: int
  current_wait_queue :: "queue_ptr option"
  zombie_next :: u64
  needs_yield :: bool
  sched_next :: u64
  sched_prev :: u64
  preempt_count :: u32
  preempt_pending :: bool

text \<open>What the scheduler tells the processor.\<close>

datatype cpu_op = Tss_Set_Rsp0 u64 | Switch_Task u64 u64 u64 | Outb u16 u8

record sched_state =
  threads :: "u64 \<Rightarrow> thread"
  queues :: "queue_ptr \<Rightarrow> wait_queue"
  proc_cr3 :: "u64 \<Rightarrow> u64"
  g_current_thread :: u64
  g_run_queues :: "nat \<Rightarrow> u64"
  g_scheduler_lock :: spinlock
  g_sleep_queue :: u64
  g_sleep_lock :: spinlock
  g_scheduler_active :: bool
  g_idle_thread :: u64
  g_reaper_thread :: u64
  g_zombie_list :: u64
  kernel_cr3 :: u64
  sched_timer :: timer_state
  cpu_ops :: "cpu_op list"

definition thread_upd :: "u64 \<Rightarrow> (thread \<Rightarrow> thread) \<Rightarrow> sched_state \<Rightarrow> sched_state" where
  "thread_upd t f s = s\<lparr>threads := (threads s)(t := f (threads s t))\<rparr>"

definition queue_upd :: "queue_ptr \<Rightarrow> (wait_queue \<Rightarrow> wait_queue) \<Rightarrow> sched_state \<Rightarrow> sched_state" where
  "queue_upd q f s = s\<lparr>queues := (queues s)(q := f (queues s q))\<rparr>"

definition run_queue_upd :: "nat \<Rightarrow> u64 \<Rightarrow> sched_state \<Rightarrow> sched_state" where
  "run_queue_upd pri t s = s\<lparr>g_run_queues := (g_run_queues s)(pri := t)\<rparr>"

definition ticks :: "sched_state \<Rightarrow> u64" where
  "ticks s = timer_get_ticks (sched_timer s)"

text \<open>A part of an operation between taking and releasing one of the two locks of the scheduler.\<close>

definition scheduler_locked :: "(sched_state \<Rightarrow> 'a \<times> sched_state) \<Rightarrow> sched_state \<Rightarrow> ('a \<times> sched_state) option" where
  "scheduler_locked f s = do {
     l \<leftarrow> spinlock_lock (g_scheduler_lock s);
     let (r, s) = f (s\<lparr>g_scheduler_lock := l\<rparr>);
     Some (r, s\<lparr>g_scheduler_lock := spinlock_unlock (g_scheduler_lock s)\<rparr>)
   }"

definition sleep_lock :: "sched_state \<Rightarrow> sched_state option" where
  "sleep_lock s = do { l \<leftarrow> spinlock_lock (g_sleep_lock s); Some (s\<lparr>g_sleep_lock := l\<rparr>) }"

definition sleep_unlock :: "sched_state \<Rightarrow> sched_state" where
  "sleep_unlock s = s\<lparr>g_sleep_lock := spinlock_unlock (g_sleep_lock s)\<rparr>"

definition queue_lock :: "queue_ptr \<Rightarrow> sched_state \<Rightarrow> sched_state option" where
  "queue_lock q s = do { l \<leftarrow> spinlock_lock (wq_lock (queues s q)); Some (queue_upd q (wq_lock_update (\<lambda>_. l)) s) }"

definition queue_unlock :: "queue_ptr \<Rightarrow> sched_state \<Rightarrow> sched_state" where
  "queue_unlock q s = queue_upd q (wq_lock_update spinlock_unlock) s"

section \<open>Priorities\<close>

definition scheduler_nice_to_priority :: "int \<Rightarrow> nat" where
  "scheduler_nice_to_priority nc =
     (let nc = (if nc < THREAD_NICE_MIN then THREAD_NICE_MIN else nc);
          nc = (if nc > THREAD_NICE_MAX then THREAD_NICE_MAX else nc)
      in if nc \<le> - 10 then THREAD_PRIORITY_UI
         else if nc \<le> - 5 then THREAD_PRIORITY_HIGH
         else if nc \<le> 4 then THREAD_PRIORITY_NORMAL
         else if nc \<le> 14 then THREAD_PRIORITY_BACKGROUND
         else THREAD_PRIORITY_IDLE)"

definition g_priority_time_slice :: "u32 list" where
  "g_priority_time_slice = [20, 15, 10, 7, 5]"

text \<open>The index of a run queue: an invalid priority counts as normal.\<close>

definition queue_index :: "nat \<Rightarrow> nat" where
  "queue_index pri = (if pri \<ge> THREAD_PRIORITY_COUNT then THREAD_PRIORITY_NORMAL else pri)"

definition scheduler_get_time_slice :: "u64 \<Rightarrow> sched_state \<Rightarrow> u32" where
  "scheduler_get_time_slice t s =
     (if t = 0 then THREAD_TIME_SLICE_DEFAULT else g_priority_time_slice ! queue_index (priority (threads s t)))"

section \<open>Run queues\<close>

definition scheduler_enqueue_nolock :: "u64 \<Rightarrow> sched_state \<Rightarrow> sched_state" where
  "scheduler_enqueue_nolock t s =
     (if t = 0 \<or> th_state (threads s t) = THREAD_STATE_RUNNING then s
      else
        let pri = queue_index (priority (threads s t));
            s = thread_upd t (sched_prev_update (\<lambda>_. 0)) s;
            s = thread_upd t (sched_next_update (\<lambda>_. g_run_queues s pri)) s;
            s = (if g_run_queues s pri \<noteq> 0 then thread_upd (g_run_queues s pri) (sched_prev_update (\<lambda>_. t)) s else s);
            s = run_queue_upd pri t s
        in if th_state (threads s t) \<noteq> THREAD_STATE_RUNNING
           then thread_upd t (th_state_update (\<lambda>_. THREAD_STATE_READY)) s else s)"

definition scheduler_enqueue :: "u64 \<Rightarrow> sched_state \<Rightarrow> sched_state option" where
  "scheduler_enqueue t s =
     (if t = 0 \<or> th_state (threads s t) = THREAD_STATE_RUNNING then Some s
      else map_option snd (scheduler_locked (\<lambda>s.
        let pri = queue_index (priority (threads s t));
            s = thread_upd t (sched_prev_update (\<lambda>_. 0)) s;
            s = thread_upd t (sched_next_update (\<lambda>_. g_run_queues s pri)) s;
            s = (if g_run_queues s pri \<noteq> 0 then thread_upd (g_run_queues s pri) (sched_prev_update (\<lambda>_. t)) s else s);
            s = run_queue_upd pri t s
        in ((), if th_state (threads s t) \<noteq> THREAD_STATE_RUNNING
                then thread_upd t (th_state_update (\<lambda>_. THREAD_STATE_READY)) s else s)) s))"

definition scheduler_dequeue :: "u64 \<Rightarrow> sched_state \<Rightarrow> sched_state option" where
  "scheduler_dequeue t s =
     (if t = 0 then Some s
      else map_option snd (scheduler_locked (\<lambda>s.
        let pri = queue_index (priority (threads s t));
            s = (if sched_prev (threads s t) \<noteq> 0
                 then thread_upd (sched_prev (threads s t)) (sched_next_update (\<lambda>_. sched_next (threads s t))) s
                 else if g_run_queues s pri = t then run_queue_upd pri (sched_next (threads s t)) s else s);
            s = (if sched_next (threads s t) \<noteq> 0
                 then thread_upd (sched_next (threads s t)) (sched_prev_update (\<lambda>_. sched_prev (threads s t))) s else s);
            s = thread_upd t (sched_next_update (\<lambda>_. 0)) s
        in ((), thread_upd t (sched_prev_update (\<lambda>_. 0)) s)) s))"

text \<open>The loop over the priorities, from \<open>pri - 1\<close> down to the lowest one.\<close>

fun pick_loop :: "nat \<Rightarrow> sched_state \<Rightarrow> u64 \<times> sched_state" where
  "pick_loop 0 s = (g_idle_thread s, s)"
| "pick_loop (Suc pri) s =
     (if g_run_queues s pri \<noteq> 0 then
        let t = g_run_queues s pri;
            s = run_queue_upd pri (sched_next (threads s t)) s;
            s = (if sched_next (threads s t) \<noteq> 0
                 then thread_upd (sched_next (threads s t)) (sched_prev_update (\<lambda>_. 0)) s else s);
            s = thread_upd t (sched_next_update (\<lambda>_. 0)) s
        in (t, thread_upd t (sched_prev_update (\<lambda>_. 0)) s)
      else pick_loop pri s)"

definition scheduler_pick_next_nolock :: "sched_state \<Rightarrow> u64 \<times> sched_state" where
  "scheduler_pick_next_nolock s = pick_loop THREAD_PRIORITY_COUNT s"

definition scheduler_pick_next :: "sched_state \<Rightarrow> (u64 \<times> sched_state) option" where
  "scheduler_pick_next s = scheduler_locked (pick_loop THREAD_PRIORITY_COUNT) s"

section \<open>Switching\<close>

definition end_accounting :: "u64 \<Rightarrow> u64 \<Rightarrow> sched_state \<Rightarrow> sched_state" where
  "end_accounting current now s =
     (let s = (if run_start_tick (threads s current) > 0
               then thread_upd current (\<lambda>t. t\<lparr>cpu_ticks := cpu_ticks t + (now - run_start_tick t)\<rparr>) s else s)
      in if is_boosted (threads s current)
         then thread_upd current (\<lambda>t. t\<lparr>is_boosted := False, priority := scheduler_nice_to_priority (nice t),
                base_priority := scheduler_nice_to_priority (nice t)\<rparr>) s
         else s)"

text \<open>The test of the new page table root before the switch; a bad one stops the machine.\<close>

definition switch_cr3 :: "u64 \<Rightarrow> sched_state \<Rightarrow> u64 option" where
  "switch_cr3 nxt s =
     (let cr3 = (if th_owner (threads s nxt) \<noteq> 0 \<and> proc_cr3 s (th_owner (threads s nxt)) \<noteq> 0
                 then proc_cr3 s (th_owner (threads s nxt)) else kernel_cr3 s)
      in if cr3 < 0x1000 \<or> cr3 AND 0xFFF \<noteq> 0 then None else Some cr3)"

text \<open>The second half of \<open>scheduler_schedule\<close>: the chosen thread takes over.\<close>

definition switch_to :: "u64 \<Rightarrow> u64 \<Rightarrow> u64 \<Rightarrow> sched_state \<Rightarrow> sched_state option" where
  "switch_to current nxt now s = do {
     let s = thread_upd nxt (\<lambda>t. t\<lparr>run_start_tick := now, context_switches := context_switches t + 1,
               th_state := THREAD_STATE_RUNNING\<rparr>) s;
     let s = s\<lparr>g_current_thread := nxt\<rparr>;
     let s = (if (th_owner (threads s nxt) = 0 \<or> first_switch (threads s nxt)) \<and> rsp0 (threads s nxt) \<noteq> 0
              then s\<lparr>cpu_ops := cpu_ops s @ [Tss_Set_Rsp0 (rsp0 (threads s nxt))]\<rparr> else s);
     cr3 \<leftarrow> switch_cr3 nxt s;
     let s = thread_upd nxt (first_switch_update (\<lambda>_. False)) s;
     Some (s\<lparr>cpu_ops := cpu_ops s @ [Switch_Task current (rsp (threads s nxt)) cr3]\<rparr>)
   }"

definition scheduler_schedule :: "sched_state \<Rightarrow> sched_state option" where
  "scheduler_schedule s =
     (if \<not> g_scheduler_active s then Some s
      else do {
        let current = g_current_thread s;
        (nxt, s) \<leftarrow> scheduler_pick_next s;
        let nxt = (if nxt = 0 then g_idle_thread s else nxt);
        if nxt = 0 \<or> nxt = current then Some s
        else do {
          let now = ticks s;
          let s = (if current \<noteq> 0 then end_accounting current now s else s);
          s \<leftarrow> (if current \<noteq> 0 \<and> (th_state (threads s current) = THREAD_STATE_RUNNING \<or>
                                th_state (threads s current) = THREAD_STATE_READY)
               then scheduler_enqueue current
                      (thread_upd current (\<lambda>t. t\<lparr>th_state := THREAD_STATE_READY, wait_start_tick := now\<rparr>) s)
               else Some s);
          switch_to current nxt now s
        }
      })"

definition thread_yield :: "sched_state \<Rightarrow> sched_state option" where
  "thread_yield s = (if g_scheduler_active s then scheduler_schedule s else Some s)"

section \<open>Sleeping\<close>

text \<open>The place behind the last thread that wakes up no later.\<close>

partial_function (option) sleep_position :: "u64 \<Rightarrow> u64 \<Rightarrow> sched_state \<Rightarrow> u64 option" where
  "sleep_position wake prev s =
     (let nxt = sched_next (threads s prev)
      in if nxt \<noteq> 0 \<and> wake_tick (threads s nxt) \<le> wake then sleep_position wake nxt s else Some prev)"

definition sleep_insert :: "u64 \<Rightarrow> sched_state \<Rightarrow> sched_state option" where
  "sleep_insert t s =
     (if g_sleep_queue s = 0 \<or> wake_tick (threads s t) < wake_tick (threads s (g_sleep_queue s))
      then Some ((thread_upd t (sched_next_update (\<lambda>_. g_sleep_queue s)) s)\<lparr>g_sleep_queue := t\<rparr>)
      else do {
        prev \<leftarrow> sleep_position (wake_tick (threads s t)) (g_sleep_queue s) s;
        let s = thread_upd t (sched_next_update (\<lambda>_. sched_next (threads s prev))) s;
        Some (thread_upd prev (sched_next_update (\<lambda>_. t)) s)
      })"

definition thread_sleep_ticks :: "u64 \<Rightarrow> sched_state \<Rightarrow> sched_state option" where
  "thread_sleep_ticks n s =
     (if g_current_thread s = 0 \<or> n = 0 then Some s
      else do {
        let t = g_current_thread s;
        let s = thread_upd t (\<lambda>th. th\<lparr>wake_tick := ticks s + n, th_state := THREAD_STATE_SLEEPING\<rparr>) s;
        s \<leftarrow> sleep_lock s;
        s \<leftarrow> sleep_insert t s;
        scheduler_schedule (sleep_unlock s)
      })"

definition thread_sleep_ms :: "u32 \<Rightarrow> sched_state \<Rightarrow> sched_state option" where
  "thread_sleep_ms ms s = thread_sleep_ticks (ucast ms) s"

text \<open>The loop of \<open>scheduler_wake_sleeping\<close>; the lock of the sleep queue is open around the call.\<close>

partial_function (option) wake_loop :: "u64 \<Rightarrow> sched_state \<Rightarrow> sched_state option" where
  "wake_loop now s =
     (if g_sleep_queue s \<noteq> 0 \<and> wake_tick (threads s (g_sleep_queue s)) \<le> now
      then do {
        let t = g_sleep_queue s;
        let s = s\<lparr>g_sleep_queue := sched_next (threads s t)\<rparr>;
        let s = thread_upd t (\<lambda>th. th\<lparr>sched_next := 0, th_state := THREAD_STATE_READY\<rparr>) s;
        s \<leftarrow> scheduler_enqueue t (sleep_unlock s);
        s \<leftarrow> sleep_lock s;
        wake_loop now s
      }
      else Some s)"

definition scheduler_wake_sleeping :: "sched_state \<Rightarrow> sched_state option" where
  "scheduler_wake_sleeping s = do {
     let now = ticks s;
     s \<leftarrow> sleep_lock s;
     s \<leftarrow> wake_loop now s;
     Some (sleep_unlock s)
   }"

section \<open>The timer interrupt\<close>

text \<open>A thread that waited too long moves from its queue to the head of the highest one.\<close>

definition boost_thread :: "u64 \<Rightarrow> nat \<Rightarrow> u64 \<Rightarrow> sched_state \<Rightarrow> sched_state" where
  "boost_thread now pri t s =
     (let s = (if sched_prev (threads s t) \<noteq> 0
               then thread_upd (sched_prev (threads s t)) (sched_next_update (\<lambda>_. sched_next (threads s t))) s
               else run_queue_upd pri (sched_next (threads s t)) s);
          s = (if sched_next (threads s t) \<noteq> 0
               then thread_upd (sched_next (threads s t)) (sched_prev_update (\<lambda>_. sched_prev (threads s t))) s else s);
          s = thread_upd t (\<lambda>th. th\<lparr>priority := THREAD_PRIORITY_UI, is_boosted := True, wait_start_tick := now\<rparr>) s;
          s = thread_upd t (\<lambda>th. th\<lparr>sched_prev := 0, sched_next := g_run_queues s THREAD_PRIORITY_UI\<rparr>) s;
          s = (if g_run_queues s THREAD_PRIORITY_UI \<noteq> 0
               then thread_upd (g_run_queues s THREAD_PRIORITY_UI) (sched_prev_update (\<lambda>_. t)) s else s)
      in run_queue_upd THREAD_PRIORITY_UI t s)"

partial_function (option) aging_walk :: "u64 \<Rightarrow> nat \<Rightarrow> u64 \<Rightarrow> sched_state \<Rightarrow> sched_state option" where
  "aging_walk now pri t s =
     (if t = 0 then Some s
      else
        let nxt = sched_next (threads s t);
            s = (if \<not> is_boosted (threads s t) \<and> now - wait_start_tick (threads s t) \<ge> THREAD_AGING_THRESHOLD
                 then boost_thread now pri t s else s)
        in aging_walk now pri nxt s)"

fun aging_loop :: "u64 \<Rightarrow> nat list \<Rightarrow> sched_state \<Rightarrow> sched_state option" where
  "aging_loop now [] s = Some s"
| "aging_loop now (pri # pris) s = do { s \<leftarrow> aging_walk now pri (g_run_queues s pri) s; aging_loop now pris s }"

definition check_thread_timeouts :: "sched_state \<Rightarrow> sched_state option" where
  "check_thread_timeouts s = map_option snd (scheduler_locked (\<lambda>s. ((), s)) s)"

definition scheduler_tick :: "sched_state \<Rightarrow> sched_state option" where
  "scheduler_tick s =
     (if \<not> g_scheduler_active s \<or> g_current_thread s = 0 then Some s
      else do {
        let now = ticks s;
        let s = (if g_current_thread s \<noteq> g_idle_thread s
                 then thread_upd (g_current_thread s) (\<lambda>t. t\<lparr>cpu_ticks := cpu_ticks t + 1\<rparr>) s else s);
        s \<leftarrow> scheduler_wake_sleeping s;
        s \<leftarrow> check_thread_timeouts s;
        let s = (if g_current_thread s \<noteq> g_idle_thread s \<and> time_slice_remaining (threads s (g_current_thread s)) > 0
                 then thread_upd (g_current_thread s) (\<lambda>t. t\<lparr>time_slice_remaining := time_slice_remaining t - 1\<rparr>) s else s);
        let s = (if time_slice_remaining (threads s (g_current_thread s)) = 0 \<and> g_current_thread s \<noteq> g_idle_thread s
                 then thread_upd (g_current_thread s) (preempt_pending_update (\<lambda>_. True)) s else s);
        l \<leftarrow> spinlock_lock (g_scheduler_lock s);
        s \<leftarrow> aging_loop now [THREAD_PRIORITY_IDLE..<THREAD_PRIORITY_UI] (s\<lparr>g_scheduler_lock := l\<rparr>);
        Some (s\<lparr>g_scheduler_lock := spinlock_unlock (g_scheduler_lock s)\<rparr>)
      })"

text \<open>The search for a thread of the kernel in one queue, and in all of them from the top.\<close>

partial_function (option) kernel_walk :: "u64 \<Rightarrow> u64 \<Rightarrow> sched_state \<Rightarrow> u64 option" where
  "kernel_walk current t s =
     (if t = 0 then Some 0
      else if th_owner (threads s t) = 0 \<and> t \<noteq> current then Some t
      else kernel_walk current (sched_next (threads s t)) s)"

fun find_kernel_thread :: "u64 \<Rightarrow> nat \<Rightarrow> sched_state \<Rightarrow> u64 option" where
  "find_kernel_thread current 0 s = Some 0"
| "find_kernel_thread current (Suc pri) s = do {
     t \<leftarrow> kernel_walk current (g_run_queues s pri) s;
     if t \<noteq> 0 then Some t else find_kernel_thread current pri s
   }"

definition unlink_thread :: "u64 \<Rightarrow> sched_state \<Rightarrow> sched_state" where
  "unlink_thread t s =
     (let pri = priority (threads s t);
          s = (if sched_prev (threads s t) \<noteq> 0
               then thread_upd (sched_prev (threads s t)) (sched_next_update (\<lambda>_. sched_next (threads s t))) s
               else run_queue_upd pri (sched_next (threads s t)) s);
          s = (if sched_next (threads s t) \<noteq> 0
               then thread_upd (sched_next (threads s t)) (sched_prev_update (\<lambda>_. sched_prev (threads s t))) s else s)
      in thread_upd t (\<lambda>th. th\<lparr>sched_next := 0, sched_prev := 0\<rparr>) s)"

text \<open>
  The switch in the interrupt, with the lock of the scheduler held: the stack pointer to continue with.
  \<open>frame\<close>: the address of the frame of the interrupt.
\<close>

definition preempt_switch :: "u64 \<Rightarrow> u64 \<Rightarrow> u64 \<Rightarrow> sched_state \<Rightarrow> u64 \<times> sched_state" where
  "preempt_switch current nxt frame s =
     (let s = unlink_thread nxt s;
          now = ticks s;
          s = end_accounting current now s;
          s = (if th_state (threads s current) = THREAD_STATE_RUNNING
               then scheduler_enqueue_nolock current
                      (thread_upd current (\<lambda>t. t\<lparr>th_state := THREAD_STATE_READY, wait_start_tick := now\<rparr>) s)
               else s);
          s = thread_upd nxt (\<lambda>t. t\<lparr>run_start_tick := now, context_switches := context_switches t + 1\<rparr>) s;
          s = thread_upd nxt (\<lambda>t. t\<lparr>time_slice_remaining := scheduler_get_time_slice nxt s,
                th_state := THREAD_STATE_RUNNING, preempt_pending := False\<rparr>) s;
          s = s\<lparr>g_current_thread := nxt, g_scheduler_lock := spinlock_unlock (g_scheduler_lock s)\<rparr>;
          s = (if th_owner (threads s nxt) = 0 \<and> rsp0 (threads s nxt) \<noteq> 0
               then s\<lparr>cpu_ops := cpu_ops s @ [Tss_Set_Rsp0 (rsp0 (threads s nxt))]\<rparr> else s);
          s = thread_upd current (rsp_update (\<lambda>_. frame)) s
      in (rsp (threads s nxt), s))"

text \<open>\<open>cs\<close>: the code segment in the frame of the interrupt.\<close>

definition scheduler_preempt :: "u64 \<Rightarrow> u64 \<Rightarrow> sched_state \<Rightarrow> (u64 \<times> sched_state) option" where
  "scheduler_preempt cs frame s =
     (if \<not> g_scheduler_active s \<or> g_current_thread s = 0 then Some (0, s)
      else if cs AND 3 = 3 then Some (0, s)
      else do {
        s \<leftarrow> scheduler_wake_sleeping s;
        let current = g_current_thread s;
        let s = (if current \<noteq> g_idle_thread s \<and> time_slice_remaining (threads s current) > 0
                 then thread_upd current (\<lambda>t. t\<lparr>time_slice_remaining := time_slice_remaining t - 1\<rparr>) s else s);
        if preempt_count (threads s current) > 0
        then Some (0, if time_slice_remaining (threads s current) = 0
                      then thread_upd current (preempt_pending_update (\<lambda>_. True)) s else s)
        else if time_slice_remaining (threads s current) > 0 \<and> current \<noteq> g_idle_thread s then Some (0, s)
        else do {
          l \<leftarrow> spinlock_lock (g_scheduler_lock s);
          let s = s\<lparr>g_scheduler_lock := l\<rparr>;
          nxt \<leftarrow> find_kernel_thread current THREAD_PRIORITY_COUNT s;
          if nxt = 0
          then do {
            let s = s\<lparr>g_scheduler_lock := spinlock_unlock (g_scheduler_lock s)\<rparr>;
            Some (0, if time_slice_remaining (threads s current) = 0
                     then thread_upd current (time_slice_remaining_update (\<lambda>_. THREAD_TIME_SLICE_DEFAULT)) s else s)
          }
          else Some (preempt_switch current nxt frame s)
        }
      })"

definition timer_handler_preempt :: "u64 \<Rightarrow> u64 \<Rightarrow> sched_state \<Rightarrow> (u64 \<times> sched_state) option" where
  "timer_handler_preempt cs frame s = do {
     let tm = sched_timer s;
     let s = s\<lparr>sched_timer := tm\<lparr>g_timer_ticks := g_timer_ticks tm + 1\<rparr>, cpu_ops := cpu_ops s @ [Outb 0x20 0x20]\<rparr>;
     if \<not> g_timer_scheduling_enabled (sched_timer s) then Some (0, s)
     else do { s \<leftarrow> scheduler_tick s; scheduler_preempt cs frame s }
   }"

section \<open>Control of preemption\<close>

definition preempt_disable :: "sched_state \<Rightarrow> sched_state" where
  "preempt_disable s =
     (if g_current_thread s \<noteq> 0 then thread_upd (g_current_thread s) (\<lambda>t. t\<lparr>preempt_count := preempt_count t + 1\<rparr>) s else s)"

definition preempt_enable :: "sched_state \<Rightarrow> sched_state option" where
  "preempt_enable s =
     (if g_current_thread s = 0 then Some s
      else
        let c = g_current_thread s;
            s = (if preempt_count (threads s c) > 0 then thread_upd c (\<lambda>t. t\<lparr>preempt_count := preempt_count t - 1\<rparr>) s else s)
        in if preempt_count (threads s c) = 0 \<and> preempt_pending (threads s c)
           then scheduler_schedule (thread_upd c (preempt_pending_update (\<lambda>_. False)) s)
           else Some s)"

definition preempt_enabled :: "sched_state \<Rightarrow> bool" where
  "preempt_enabled s \<longleftrightarrow> (if g_current_thread s = 0 then True else preempt_count (threads s (g_current_thread s)) = 0)"

section \<open>Wait queues\<close>

definition wait_queue_init :: "queue_ptr option \<Rightarrow> sched_state \<Rightarrow> sched_state" where
  "wait_queue_init q s = (case q of None \<Rightarrow> s | Some q \<Rightarrow> queue_upd q (\<lambda>_. \<lparr>wq_head = 0, wq_tail = 0, wq_lock = 0\<rparr>) s)"

definition wait_queue_enqueue_locked :: "queue_ptr \<Rightarrow> u64 \<Rightarrow> sched_state \<Rightarrow> sched_state" where
  "wait_queue_enqueue_locked q t s =
     (if t = 0 then s
      else
        let s = thread_upd t (\<lambda>th. th\<lparr>wait_queue_next := 0, waiting_queue := Some q\<rparr>) s;
            s = (if wq_tail (queues s q) \<noteq> 0
                 then thread_upd (wq_tail (queues s q)) (wait_queue_next_update (\<lambda>_. t)) s
                 else queue_upd q (wq_head_update (\<lambda>_. t)) s)
        in queue_upd q (wq_tail_update (\<lambda>_. t)) s)"

definition wait_queue_dequeue_locked :: "queue_ptr \<Rightarrow> sched_state \<Rightarrow> u64 \<times> sched_state" where
  "wait_queue_dequeue_locked q s =
     (if wq_head (queues s q) = 0 then (0, s)
      else
        let t = wq_head (queues s q);
            s = queue_upd q (wq_head_update (\<lambda>_. wait_queue_next (threads s t))) s;
            s = (if wq_head (queues s q) = 0 then queue_upd q (wq_tail_update (\<lambda>_. 0)) s else s)
        in (t, thread_upd t (\<lambda>th. th\<lparr>wait_queue_next := 0, waiting_queue := None\<rparr>) s))"

text \<open>The search of \<open>wait_queue_remove\<close>: the thread in front of the one looked for, and that one.\<close>

partial_function (option) remove_search :: "u64 \<Rightarrow> u64 \<Rightarrow> u64 \<Rightarrow> sched_state \<Rightarrow> (u64 \<times> u64) option" where
  "remove_search t prev cur s =
     (if cur \<noteq> 0 \<and> cur \<noteq> t then remove_search t cur (wait_queue_next (threads s cur)) s else Some (prev, cur))"

definition wait_queue_remove :: "queue_ptr option \<Rightarrow> u64 \<Rightarrow> sched_state \<Rightarrow> (bool \<times> sched_state) option" where
  "wait_queue_remove queue t s = (case queue of
     None \<Rightarrow> Some (False, s)
   | Some q \<Rightarrow>
       if t = 0 then Some (False, s)
       else do {
         s \<leftarrow> queue_lock q s;
         (prev, cur) \<leftarrow> remove_search t 0 (wq_head (queues s q)) s;
         if cur = 0 then Some (False, queue_unlock q s)
         else do {
           let s = (if prev \<noteq> 0 then thread_upd prev (wait_queue_next_update (\<lambda>_. wait_queue_next (threads s cur))) s
                    else queue_upd q (wq_head_update (\<lambda>_. wait_queue_next (threads s cur))) s);
           let s = (if cur = wq_tail (queues s q) then queue_upd q (wq_tail_update (\<lambda>_. prev)) s else s);
           let s = thread_upd cur (\<lambda>th. th\<lparr>wait_queue_next := 0, waiting_queue := None, current_wait_queue := None\<rparr>) s;
           Some (True, queue_unlock q s)
         }
       })"

definition wait_queue_wake_one :: "queue_ptr option \<Rightarrow> sched_state \<Rightarrow> sched_state option" where
  "wait_queue_wake_one queue s = (case queue of
     None \<Rightarrow> Some s
   | Some q \<Rightarrow> do {
       s \<leftarrow> queue_lock q s;
       let (t, s) = wait_queue_dequeue_locked q s;
       let s = queue_unlock q s;
       if t \<noteq> 0 then scheduler_enqueue t (thread_upd t (th_state_update (\<lambda>_. THREAD_STATE_READY)) s) else Some s
     })"

partial_function (option) wake_all_loop :: "queue_ptr \<Rightarrow> sched_state \<Rightarrow> sched_state option" where
  "wake_all_loop q s =
     (let (t, s) = wait_queue_dequeue_locked q s
      in if t \<noteq> 0
         then do {
           s \<leftarrow> scheduler_enqueue t (thread_upd t (th_state_update (\<lambda>_. THREAD_STATE_READY)) s);
           wake_all_loop q s
         }
         else Some s)"

definition wait_queue_wake_all :: "queue_ptr option \<Rightarrow> sched_state \<Rightarrow> sched_state option" where
  "wait_queue_wake_all queue s = (case queue of
     None \<Rightarrow> Some s
   | Some q \<Rightarrow> do { s \<leftarrow> queue_lock q s; s \<leftarrow> wake_all_loop q s; Some (queue_unlock q s) })"

text \<open>
  \<open>wait_queue_wait_timeout\<close> gives up the processor in a loop. \<open>Waiting\<close>: the thread is in the queue
  and another one runs; \<open>Woken b\<close>: it is done with result \<open>b\<close>. The predicate, if there is one, reads
  the state.
\<close>

datatype wait_status = Waiting | Woken bool

definition wait_done :: "queue_ptr \<Rightarrow> u64 \<Rightarrow> sched_state \<Rightarrow> wait_status \<times> sched_state" where
  "wait_done q t s =
     (let s = queue_unlock q s;
          s = thread_upd t (\<lambda>th. th\<lparr>timeout_tick := 0, current_wait_queue := None\<rparr>) s;
          result = wait_result (threads s t)
      in (Woken (result = 0), thread_upd t (wait_result_update (\<lambda>_. 0)) s))"

text \<open>The head of the loop, with the lock of the queue held.\<close>

definition wait_loop :: "queue_ptr \<Rightarrow> (sched_state \<Rightarrow> bool) option \<Rightarrow> u64 \<Rightarrow> sched_state \<Rightarrow> (wait_status \<times> sched_state) option" where
  "wait_loop q predicate t s =
     (if (case predicate of None \<Rightarrow> False | Some p \<Rightarrow> p s) then Some (wait_done q t s)
      else if wait_result (threads s t) = - ETIMEDOUT then Some (wait_done q t s)
      else do {
        let s = wait_queue_enqueue_locked q t s;
        let s = thread_upd t (th_state_update (\<lambda>_. THREAD_STATE_BLOCKED)) s;
        s \<leftarrow> scheduler_schedule (queue_unlock q s);
        Some (Waiting, s)
      })"

definition wait_queue_wait_timeout ::
  "queue_ptr option \<Rightarrow> (sched_state \<Rightarrow> bool) option \<Rightarrow> u32 \<Rightarrow> sched_state \<Rightarrow> (wait_status \<times> sched_state) option" where
  "wait_queue_wait_timeout queue predicate timeout_ms s = (case queue of
     None \<Rightarrow> do { s \<leftarrow> thread_yield s; Some (Woken True, s) }
   | Some q \<Rightarrow>
       if g_current_thread s = 0 then do { s \<leftarrow> thread_yield s; Some (Woken True, s) }
       else do {
         let t = g_current_thread s;
         let s = thread_upd t (\<lambda>th. th\<lparr>timeout_tick := (if timeout_ms > 0 then ticks s + ucast timeout_ms else 0),
                   wait_result := 0, current_wait_queue := Some q\<rparr>) s;
         s \<leftarrow> queue_lock q s;
         wait_loop q predicate t s
       })"

text \<open>What the thread \<open>t\<close> does when it runs again after \<open>Waiting\<close>.\<close>

definition wait_queue_wait_resume ::
  "queue_ptr \<Rightarrow> (sched_state \<Rightarrow> bool) option \<Rightarrow> u64 \<Rightarrow> sched_state \<Rightarrow> (wait_status \<times> sched_state) option" where
  "wait_queue_wait_resume q predicate t s = do {
     s \<leftarrow> queue_lock q s;
     if wait_result (threads s t) = - ETIMEDOUT then Some (wait_done q t s)
     else if (case predicate of None \<Rightarrow> False | Some p \<Rightarrow> p s) then Some (wait_done q t s)
     else wait_loop q predicate t s
   }"

definition wait_queue_wait ::
  "queue_ptr option \<Rightarrow> (sched_state \<Rightarrow> bool) option \<Rightarrow> sched_state \<Rightarrow> (wait_status \<times> sched_state) option" where
  "wait_queue_wait queue predicate s = wait_queue_wait_timeout queue predicate 0 s"

section \<open>Control of threads\<close>

definition thread_kill :: "u64 \<Rightarrow> int \<Rightarrow> sched_state \<Rightarrow> (bool \<times> sched_state) option" where
  "thread_kill t status s =
     (if t = 0 then Some (False, s)
      else do {
        let s = thread_upd t (\<lambda>th. th\<lparr>should_terminate := 1, exit_status := status\<rparr>) s;
        s \<leftarrow> (if th_state (threads s t) = THREAD_STATE_BLOCKED \<or> th_state (threads s t) = THREAD_STATE_SLEEPING
             then scheduler_enqueue t (thread_upd t (th_state_update (\<lambda>_. THREAD_STATE_READY)) s) else Some s);
        Some (True, s)
      })"

definition thread_current :: "sched_state \<Rightarrow> u64" where
  "thread_current s = g_current_thread s"

definition thread_get_tid :: "sched_state \<Rightarrow> u32" where
  "thread_get_tid s = (if g_current_thread s \<noteq> 0 then th_tid (threads s (g_current_thread s)) else 0)"

definition thread_set_priority :: "u64 \<Rightarrow> nat \<Rightarrow> sched_state \<Rightarrow> sched_state option" where
  "thread_set_priority t pri s =
     (if t = 0 \<or> pri \<ge> THREAD_PRIORITY_COUNT then Some s
      else do {
        let old_priority = priority (threads s t);
        let s = thread_upd t (\<lambda>th. th\<lparr>priority := pri, base_priority := pri\<rparr>) s;
        if th_state (threads s t) = THREAD_STATE_READY \<and> old_priority \<noteq> pri
        then do { s \<leftarrow> scheduler_dequeue t s; scheduler_enqueue t s }
        else Some s
      })"

definition thread_set_nice :: "u64 \<Rightarrow> int \<Rightarrow> sched_state \<Rightarrow> sched_state option" where
  "thread_set_nice t nc s =
     (if t = 0 then Some s
      else do {
        let nc = (if nc < THREAD_NICE_MIN then THREAD_NICE_MIN else nc);
        let nc = (if nc > THREAD_NICE_MAX then THREAD_NICE_MAX else nc);
        let s = thread_upd t (nice_update (\<lambda>_. nc)) s;
        if \<not> is_boosted (threads s t)
        then do {
          let old_priority = priority (threads s t);
          let new_priority = scheduler_nice_to_priority nc;
          let s = thread_upd t (\<lambda>th. th\<lparr>priority := new_priority, base_priority := new_priority\<rparr>) s;
          if th_state (threads s t) = THREAD_STATE_READY \<and> old_priority \<noteq> new_priority
          then do { s \<leftarrow> scheduler_dequeue t s; scheduler_enqueue t s }
          else Some s
        }
        else Some s
      })"

definition thread_get_nice :: "u64 \<Rightarrow> sched_state \<Rightarrow> int" where
  "thread_get_nice t s = (if t = 0 then THREAD_NICE_DEFAULT else nice (threads s t))"

definition thread_get_cpu_time_ms :: "u64 \<Rightarrow> sched_state \<Rightarrow> u64" where
  "thread_get_cpu_time_ms t s = (if t = 0 then 0 else cpu_ticks (threads s t))"

definition thread_should_exit :: "sched_state \<Rightarrow> bool" where
  "thread_should_exit s \<longleftrightarrow>
     (if g_current_thread s \<noteq> 0 then should_terminate (threads s (g_current_thread s)) \<noteq> 0 else False)"

definition scheduler_start :: "sched_state \<Rightarrow> sched_state" where
  "scheduler_start s = s\<lparr>g_scheduler_active := True\<rparr>"

definition is_thread_zombie :: "u64 \<Rightarrow> sched_state \<Rightarrow> bool" where
  "is_thread_zombie t s \<longleftrightarrow> t \<noteq> 0 \<and> th_state (threads s t) = THREAD_STATE_ZOMBIE"

text \<open>The result of \<open>thread_join_timeout\<close> once the wait on the queue of the thread is over.\<close>

definition thread_join_result :: "u64 \<Rightarrow> bool \<Rightarrow> sched_state \<Rightarrow> int" where
  "thread_join_result t success s = (if \<not> success then - ETIMEDOUT else exit_status (threads s t))"

definition thread_join_timeout :: "u64 \<Rightarrow> u32 \<Rightarrow> sched_state \<Rightarrow> (int option \<times> sched_state) option" where
  "thread_join_timeout t timeout_ms s =
     (if t = 0 then Some (Some (- 1), s)
      else do {
        (w, s) \<leftarrow> wait_queue_wait_timeout (Some (Join_Waiters t)) (Some (is_thread_zombie t)) timeout_ms s;
        Some (case w of Waiting \<Rightarrow> None | Woken success \<Rightarrow> Some (thread_join_result t success s), s)
      })"

definition thread_join_resume :: "u64 \<Rightarrow> u64 \<Rightarrow> sched_state \<Rightarrow> (int option \<times> sched_state) option" where
  "thread_join_resume t joiner s = do {
     (w, s) \<leftarrow> wait_queue_wait_resume (Join_Waiters t) (Some (is_thread_zombie t)) joiner s;
     Some (case w of Waiting \<Rightarrow> None | Woken success \<Rightarrow> Some (thread_join_result t success s), s)
   }"

definition thread_join :: "u64 \<Rightarrow> sched_state \<Rightarrow> (int option \<times> sched_state) option" where
  "thread_join t s = thread_join_timeout t 0 s"

end
