(* ===== verification/Linked.thy ===== *)
theory Linked
  imports Alos_Prelude
begin

text \<open>
  Linked lists through fields of structures: \<open>nx\<close> and \<open>pv\<close> give the successor and the predecessor
  stored in the structure at an address, and 0 is NULL. The lemmas say what inserting at the head,
  removing the head, and unlinking in the middle do to the list.
\<close>

section \<open>Singly linked lists\<close>

text \<open>Following \<open>nx\<close> from \<open>p\<close> leads through \<open>xs\<close> to \<open>q\<close>.\<close>

primrec seg :: "(u64 \<Rightarrow> u64) \<Rightarrow> u64 \<Rightarrow> u64 list \<Rightarrow> u64 \<Rightarrow> bool" where
  "seg nx p [] q \<longleftrightarrow> p = q"
| "seg nx p (x # xs) q \<longleftrightarrow> p = x \<and> x \<noteq> 0 \<and> seg nx (nx x) xs q"

abbreviation chain :: "(u64 \<Rightarrow> u64) \<Rightarrow> u64 \<Rightarrow> u64 list \<Rightarrow> bool" where
  "chain nx p xs \<equiv> seg nx p xs 0"

lemma seg_through_append [simp]: "seg nx p (xs @ ys) q \<longleftrightarrow> (\<exists>r. seg nx p xs r \<and> seg nx r ys q)"
  by (induction xs arbitrary: p) auto

lemma seg_cong: "(\<And>x. x \<in> set xs \<Longrightarrow> nx' x = nx x) \<Longrightarrow> seg nx' p xs q = seg nx p xs q"
  by (induction xs arbitrary: p) auto

lemma seg_upd [simp]: "x \<notin> set xs \<Longrightarrow> seg (nx(x := y)) p xs q = seg nx p xs q"
  by (rule seg_cong) auto

lemma seg_nonzero: "seg nx p xs q \<Longrightarrow> 0 \<notin> set xs"
  by (induction xs arbitrary: p) auto

lemma chain_0 [simp]: "chain nx 0 xs \<longleftrightarrow> xs = []"
  by (cases xs) auto

lemma chain_Nil_iff: "chain nx p xs \<Longrightarrow> p = 0 \<longleftrightarrow> xs = []"
  by (cases xs) auto

lemma chain_hd: "chain nx p xs \<Longrightarrow> p \<noteq> 0 \<Longrightarrow> xs = p # tl xs"
  by (cases xs) auto

lemma chain_unique: "chain nx p xs \<Longrightarrow> chain nx p ys \<Longrightarrow> xs = ys"
proof (induction xs arbitrary: p ys)
  case (Cons x xs)
  then show ?case by (cases ys) auto
qed simp

text \<open>The last element refers to somewhere else.\<close>

lemma seg_last: "seg nx p (xs @ [l]) r \<Longrightarrow> l \<notin> set xs \<Longrightarrow> seg (nx(l := q)) p (xs @ [l]) q"
  by simp

lemma chain_split:
  assumes "chain nx p (xs @ t # ys)"
  shows "seg nx p xs t" and "chain nx (nx t) ys" and "nx t = (if ys = [] then 0 else hd ys)"
  using assms by (auto, (cases ys; auto)+)

text \<open>Removing \<open>t\<close>, when the element in front of it, or the head, gets its successor.\<close>

lemma chain_remove:
  assumes "chain nx p (xs @ t # ys)" and "distinct (xs @ t # ys)"
  shows "xs = [] \<Longrightarrow> chain nx (nx t) ys"
    and "xs \<noteq> [] \<Longrightarrow> chain (nx(last xs := nx t)) p (xs @ ys)"
proof -
  note s = chain_split [OF assms(1)]
  show "xs = [] \<Longrightarrow> chain nx (nx t) ys" using s(2) by simp
  show "chain (nx(last xs := nx t)) p (xs @ ys)" if "xs \<noteq> []"
  proof -
    obtain zs l where x: "xs = zs @ [l]" using \<open>xs \<noteq> []\<close> by (metis append_butlast_last_id)
    then have "seg (nx(l := nx t)) p xs (nx t)" using s(1) assms(2) seg_last [of nx p zs l t] by simp
    moreover have "chain (nx(l := nx t)) (nx t) ys" using s(2) assms(2) x by simp
    ultimately show ?thesis using x by auto
  qed
qed

text \<open>Inserting \<open>t\<close> behind an element.\<close>

lemma chain_insert_after:
  assumes "chain nx p (xs @ e # ys)" and "distinct (xs @ e # ys)" and "t \<notin> set (xs @ e # ys)" and "t \<noteq> 0"
  shows "chain (nx(t := nx e, e := t)) p (xs @ e # t # ys)"
  using assms by auto

lemma chain_append_last:
  assumes "chain nx p xs" and "distinct xs" and "t \<notin> set xs" and "t \<noteq> 0" and "xs \<noteq> []"
  shows "chain (nx(t := 0, last xs := t)) p (xs @ [t])"
proof -
  obtain zs l where x: "xs = zs @ [l]" using assms(5) by (metis append_butlast_last_id)
  with assms show ?thesis by auto
qed

section \<open>Doubly linked lists\<close>

primrec prevs :: "(u64 \<Rightarrow> u64) \<Rightarrow> u64 \<Rightarrow> u64 list \<Rightarrow> bool" where
  "prevs pv q [] \<longleftrightarrow> True"
| "prevs pv q (x # xs) \<longleftrightarrow> pv x = q \<and> prevs pv x xs"

lemma prevs_append [simp]: "prevs pv q (xs @ ys) \<longleftrightarrow> prevs pv q xs \<and> prevs pv (if xs = [] then q else last xs) ys"
  by (induction xs arbitrary: q) auto

lemma prevs_cong: "(\<And>x. x \<in> set xs \<Longrightarrow> pv' x = pv x) \<Longrightarrow> prevs pv' q xs = prevs pv q xs"
  by (induction xs arbitrary: q) auto

lemma prevs_upd [simp]: "x \<notin> set xs \<Longrightarrow> prevs (pv(x := y)) q xs = prevs pv q xs"
  by (rule prevs_cong) auto

definition dll :: "(u64 \<Rightarrow> u64) \<Rightarrow> (u64 \<Rightarrow> u64) \<Rightarrow> u64 \<Rightarrow> u64 list \<Rightarrow> bool" where
  "dll nx pv p xs \<longleftrightarrow> chain nx p xs \<and> prevs pv 0 xs \<and> distinct xs"

lemma dll_cong:
  assumes "\<And>x. x \<in> set xs \<Longrightarrow> nx' x = nx x" and "\<And>x. x \<in> set xs \<Longrightarrow> pv' x = pv x"
  shows "dll nx' pv' p xs = dll nx pv p xs"
  unfolding dll_def using seg_cong [OF assms(1)] prevs_cong [OF assms(2)] by simp

lemma dll_cases:
  assumes "dll nx pv p xs"
  obtains "p = 0" "xs = []" | ys where "p \<noteq> 0" "xs = p # ys" "0 \<notin> set ys" "p \<notin> set ys" "dll nx (pv(nx p := 0)) (nx p) ys"
    "pv p = 0" "ys = [] \<longleftrightarrow> nx p = 0"
proof (cases xs)
  case Nil
  then show ?thesis using assms that(1) by (simp add: dll_def)
next
  case (Cons x ys)
  then show ?thesis using assms that(2) [of ys] seg_nonzero by (cases ys) (auto simp: dll_def)
qed

lemma dll_push:
  assumes "dll nx pv p xs" and "t \<notin> set xs" and "t \<noteq> 0"
  shows "dll (nx(t := p)) (if p \<noteq> 0 then pv(t := 0, p := t) else pv(t := 0)) t (t # xs)"
  using assms by (cases xs) (auto simp: dll_def)

text \<open>Unlinking an element: what the operations of the source write.\<close>

lemma dll_neighbours:
  assumes "dll nx pv p (xs @ t # ys)"
  shows "pv t = (if xs = [] then 0 else last xs)" and "nx t = (if ys = [] then 0 else hd ys)"
    and "xs = [] \<longleftrightarrow> pv t = 0" and "pv t = 0 \<longleftrightarrow> p = t" and "ys = [] \<longleftrightarrow> nx t = 0" and "t \<noteq> 0"
proof -
  have c: "chain nx p (xs @ t # ys)" "prevs pv 0 (xs @ t # ys)" "distinct (xs @ t # ys)" using assms by (simp_all add: dll_def)
  have z: "0 \<notin> set (xs @ t # ys)" using seg_nonzero [OF c(1)] .
  show 1: "pv t = (if xs = [] then 0 else last xs)" using c(2) by simp
  show 2: "nx t = (if ys = [] then 0 else hd ys)" using chain_split(3) [OF c(1)] .
  have "xs \<noteq> [] \<Longrightarrow> last xs \<noteq> 0" "ys \<noteq> [] \<Longrightarrow> hd ys \<noteq> 0" using z by (cases xs rule: rev_cases; cases ys; auto)+
  then show 3: "xs = [] \<longleftrightarrow> pv t = 0" and "ys = [] \<longleftrightarrow> nx t = 0" using 1 2 by auto
  show "pv t = 0 \<longleftrightarrow> p = t" unfolding 3 [symmetric] using c(1,3) by (cases xs) auto
  show "t \<noteq> 0" using z by auto
qed

lemma dll_unlink:
  assumes "dll nx pv p (xs @ t # ys)"
  shows "dll (if pv t \<noteq> 0 then nx(pv t := nx t) else nx) (if nx t \<noteq> 0 then pv(nx t := pv t) else pv)
    (if pv t \<noteq> 0 then p else nx t) (xs @ ys)"
proof -
  have c: "chain nx p (xs @ t # ys)" "prevs pv 0 (xs @ t # ys)" "distinct (xs @ t # ys)" using assms by (simp_all add: dll_def)
  note n = dll_neighbours [OF assms]
  have "chain (if pv t \<noteq> 0 then nx(pv t := nx t) else nx) (if pv t \<noteq> 0 then p else nx t) (xs @ ys)"
  proof (cases "xs = []")
    case True
    then have "pv t = 0" using n(3) by blast
    then show ?thesis using chain_remove(1) [OF c(1,3) True] True by simp
  next
    case False
    then have "pv t = last xs" using n(1) by simp
    moreover have "pv t \<noteq> 0" using False n(3) by blast
    ultimately show ?thesis using chain_remove(2) [OF c(1,3) False] by simp
  qed
  moreover have "prevs (if nx t \<noteq> 0 then pv(nx t := pv t) else pv) 0 (xs @ ys)"
  proof (cases ys)
    case Nil
    then have "nx t = 0" using n(5) by blast
    then show ?thesis using c(2) Nil by simp
  next
    case (Cons y zs)
    then have y: "nx t = y" using n(2) by simp
    moreover have "nx t \<noteq> 0" using Cons n(5) by blast
    ultimately have "(if nx t \<noteq> 0 then pv(nx t := pv t) else pv) = pv(y := pv t)" by simp
    moreover have "prevs (pv(y := pv t)) 0 (xs @ ys)" using c(2,3) Cons by simp
    ultimately show ?thesis by (simp only:)
  qed
  ultimately show ?thesis using c(3) by (simp add: dll_def)
qed

end
