(* ===== verification/Thread_Queues.thy ===== *)
theory Thread_Queues
  imports Thread Linked
begin

text \<open>
  The queues of the scheduler as lists. The run queues are doubly linked lists of the threads that are ready,
  one per priority, and the sleep queue is a list ordered by wake-up time; \<open>queues_rep R Z s\<close> says
  that the links of state \<open>s\<close> represent the lists \<open>R p\<close> and \<open>Z\<close>. Inserting into a queue and removing
  from it are shown to do to the lists what they mean to do.
\<close>

section \<open>The queues as lists\<close>

definition nx :: "sched_state \<Rightarrow> u64 \<Rightarrow> u64" where "nx s = (\<lambda>t. sched_next (threads s t))"
definition pv :: "sched_state \<Rightarrow> u64 \<Rightarrow> u64" where "pv s = (\<lambda>t. sched_prev (threads s t))"

definition disj_queues :: "(nat \<Rightarrow> u64 list) \<Rightarrow> u64 list \<Rightarrow> bool" where
  "disj_queues R Z \<longleftrightarrow> (\<forall>p<5. \<forall>q<5. p \<noteq> q \<longrightarrow> set (R p) \<inter> set (R q) = {}) \<and> (\<forall>p<5. set (R p) \<inter> set Z = {})"

lemma disj_queues_upd:
  assumes "disj_queues R Z" and "p < 5" and "\<And>x. x \<in> set xs \<Longrightarrow> x \<in> set (R p) \<or> (\<forall>q<5. x \<notin> set (R q)) \<and> x \<notin> set Z"
  shows "disj_queues (R(p := xs)) Z"
  using assms unfolding disj_queues_def by (auto split: if_splits) blast+

definition queues_rep :: "(nat \<Rightarrow> u64 list) \<Rightarrow> u64 list \<Rightarrow> sched_state \<Rightarrow> bool" where
  "queues_rep R Z s \<longleftrightarrow> (\<forall>p<5. dll (nx s) (pv s) (g_run_queues s p) (R p)) \<and>
     chain (nx s) (g_sleep_queue s) Z \<and> distinct Z \<and> disj_queues R Z"

definition ready :: "(nat \<Rightarrow> u64 list) \<Rightarrow> u64 set" where
  "ready R = (\<Union>p<5. set (R p))"

text \<open>A thread without its links in the queues of the scheduler.\<close>

definition core :: "thread \<Rightarrow> thread" where
  "core th = th\<lparr>sched_next := 0, sched_prev := 0\<rparr>"

text \<open>Only links and heads of run queues differ, and the rest of the threads is \<open>c\<close>.\<close>

definition relinked :: "sched_state \<Rightarrow> (u64 \<Rightarrow> thread) \<Rightarrow> sched_state \<Rightarrow> bool" where
  "relinked s c s' \<longleftrightarrow> (\<exists>T Q. s' = s\<lparr>threads := T, g_run_queues := Q\<rparr> \<and> (\<forall>u. core (T u) = core (c u)))"

lemma relinkedI: "s' = s\<lparr>threads := threads s', g_run_queues := g_run_queues s'\<rparr> \<Longrightarrow> (\<And>u. core (threads s' u) = core (c u)) \<Longrightarrow> relinked s c s'"
  unfolding relinked_def by blast

lemma relinked_fields:
  assumes "relinked s c s'"
  shows "g_sleep_queue s' = g_sleep_queue s" "g_scheduler_lock s' = g_scheduler_lock s" "g_sleep_lock s' = g_sleep_lock s"
    "g_current_thread s' = g_current_thread s" "g_idle_thread s' = g_idle_thread s" "g_scheduler_active s' = g_scheduler_active s"
    "queues s' = queues s" "sched_timer s' = sched_timer s" "ticks s' = ticks s" "proc_cr3 s' = proc_cr3 s" "kernel_cr3 s' = kernel_cr3 s"
    "cpu_ops s' = cpu_ops s" "core (threads s' u) = core (c u)"
  using assms by (auto simp: relinked_def ticks_def)

lemma core_fields:
  assumes "core x = core y"
  shows "th_state x = th_state y" "priority x = priority y" "wake_tick x = wake_tick y" "is_boosted x = is_boosted y"
    "wait_start_tick x = wait_start_tick y" "th_owner x = th_owner y" "first_switch x = first_switch y" "rsp x = rsp y" "rsp0 x = rsp0 y"
    "nice x = nice y" "base_priority x = base_priority y" "time_slice_remaining x = time_slice_remaining y"
    "preempt_count x = preempt_count y" "wait_queue_next x = wait_queue_next y" "run_start_tick x = run_start_tick y"
  using arg_cong [OF assms, of th_state] arg_cong [OF assms, of priority] arg_cong [OF assms, of wake_tick] arg_cong [OF assms, of is_boosted] arg_cong [OF assms, of wait_start_tick] arg_cong [OF assms, of th_owner] arg_cong [OF assms, of first_switch] arg_cong [OF assms, of rsp] arg_cong [OF assms, of rsp0] arg_cong [OF assms, of nice] arg_cong [OF assms, of base_priority] arg_cong [OF assms, of time_slice_remaining] arg_cong [OF assms, of preempt_count] arg_cong [OF assms, of wait_queue_next] arg_cong [OF assms, of run_start_tick]
  by (simp_all add: core_def)

lemma thread_upd_fields [simp]:
  "threads (thread_upd t f s) = (threads s)(t := f (threads s t))" "g_run_queues (thread_upd t f s) = g_run_queues s"
  "g_sleep_queue (thread_upd t f s) = g_sleep_queue s" "g_scheduler_lock (thread_upd t f s) = g_scheduler_lock s"
  "g_sleep_lock (thread_upd t f s) = g_sleep_lock s" "g_current_thread (thread_upd t f s) = g_current_thread s"
  "g_idle_thread (thread_upd t f s) = g_idle_thread s" "g_scheduler_active (thread_upd t f s) = g_scheduler_active s"
  "queues (thread_upd t f s) = queues s" "sched_timer (thread_upd t f s) = sched_timer s" "ticks (thread_upd t f s) = ticks s"
  "proc_cr3 (thread_upd t f s) = proc_cr3 s" "kernel_cr3 (thread_upd t f s) = kernel_cr3 s" "cpu_ops (thread_upd t f s) = cpu_ops s"
  by (simp_all add: thread_upd_def ticks_def)

lemma run_queue_upd_fields [simp]:
  "threads (run_queue_upd p t s) = threads s" "g_run_queues (run_queue_upd p t s) = (g_run_queues s)(p := t)"
  "g_sleep_queue (run_queue_upd p t s) = g_sleep_queue s" "g_scheduler_lock (run_queue_upd p t s) = g_scheduler_lock s"
  by (simp_all add: run_queue_upd_def)

lemma relinked_thread_upd:
  assumes "relinked s c s'" and "core (f (threads s' t)) = core c'"
  shows "relinked s (c(t := c')) (thread_upd t f s')"
proof -
  obtain T Q where s': "s' = s\<lparr>threads := T, g_run_queues := Q\<rparr>" "\<And>u. core (T u) = core (c u)" using assms(1) by (auto simp: relinked_def)
  show ?thesis using assms(2) s'(2) by (intro relinkedI) (auto simp: s'(1) thread_upd_def)
qed

lemma queue_index_less [simp]: "queue_index p < 5"
  by (simp add: queue_index_def c_defs)

lemma enqueue_locked_eq:
  assumes "g_scheduler_lock s = 0"
  shows "scheduler_enqueue t s = Some (scheduler_enqueue_nolock t s)"
  using assms
  by (simp add: scheduler_enqueue_def scheduler_enqueue_nolock_def scheduler_locked_def Let_def thread_upd_def run_queue_upd_def)

lemma enqueue_links:
  assumes "t \<noteq> 0" and "th_state (threads s t) \<noteq> THREAD_STATE_RUNNING"
  defines "p \<equiv> queue_index (priority (threads s t))" and "s' \<equiv> scheduler_enqueue_nolock t s"
  assumes h: "g_run_queues s p \<noteq> t"
  shows "nx s' = (nx s)(t := g_run_queues s p)"
    and "pv s' = (if g_run_queues s p \<noteq> 0 then (pv s)(t := 0, g_run_queues s p := t) else (pv s)(t := 0))"
    and "g_run_queues s' = (g_run_queues s)(p := t)"
    and "relinked s ((threads s)(t := (threads s t)\<lparr>th_state := THREAD_STATE_READY\<rparr>)) s'"
  using assms(1,2) h unfolding s'_def p_def
  by (auto simp: scheduler_enqueue_nolock_def nx_def pv_def Let_def core_def thread_upd_def run_queue_upd_def fun_eq_iff intro!: relinkedI)

lemma enqueue_rep:
  assumes "queues_rep R Z s" and "t \<noteq> 0" and "t \<notin> ready R" and "t \<notin> set Z" and "th_state (threads s t) \<noteq> THREAD_STATE_RUNNING"
  defines "p \<equiv> queue_index (priority (threads s t))" and "s' \<equiv> scheduler_enqueue_nolock t s"
  shows "queues_rep (R(p := t # R p)) Z s'"
    and "relinked s ((threads s)(t := (threads s t)\<lparr>th_state := THREAD_STATE_READY\<rparr>)) s'"
proof -
  have p: "p < 5" by (simp add: p_def)
  let ?h = "g_run_queues s p"
  have d: "dll (nx s) (pv s) ?h (R p)" using assms(1) p by (simp add: queues_rep_def)
  have t: "t \<notin> set (R q)" if "q < 5" for q using assms(3) that by (auto simp: ready_def)
  have h: "?h \<noteq> 0 \<Longrightarrow> ?h \<in> set (R p)" using d by (cases rule: dll_cases) auto
  then have ht: "?h \<noteq> t" using t [OF p] assms(2) by auto
  note l = enqueue_links [OF assms(2,5) ht [unfolded p_def], folded p_def s'_def]
  show "relinked s ((threads s)(t := (threads s t)\<lparr>th_state := THREAD_STATE_READY\<rparr>)) s'" using l(4) .
  then have z: "g_sleep_queue s' = g_sleep_queue s" by (rule relinked_fields)
  have dp: "dll (nx s') (pv s') t (t # R p)" using dll_push [OF d t [OF p] assms(2)] l(1,2) by simp
  have dq: "dll (nx s') (pv s') (g_run_queues s q) (R q)" if "q < 5" "q \<noteq> p" for q
  proof -
    have "?h \<notin> set (R q) \<or> ?h = 0" using h assms(1) p that unfolding queues_rep_def disj_queues_def by blast
    moreover have dd: "dll (nx s) (pv s) (g_run_queues s q) (R q)" using assms(1) that by (simp add: queues_rep_def)
    ultimately show ?thesis using t [OF that(1)] l(1,2) by (subst dll_cong [of _ _ "nx s" _ "pv s"]) auto
  qed
  have cz: "chain (nx s') (g_sleep_queue s') Z" using assms(1,4) l(1) z by (simp add: queues_rep_def)
  show "queues_rep (R(p := t # R p)) Z s'"
    using dp dq cz assms(1,4) t l(3) disj_queues_upd [of R Z p "t # R p"] p by (auto simp: queues_rep_def)
qed

text \<open>All removals from a run queue do the same to the links of the neighbours.\<close>

definition unlink :: "nat \<Rightarrow> u64 \<Rightarrow> sched_state \<Rightarrow> sched_state" where
  "unlink p t s =
     (let s = (if sched_prev (threads s t) \<noteq> 0
               then thread_upd (sched_prev (threads s t)) (sched_next_update (\<lambda>_. sched_next (threads s t))) s
               else run_queue_upd p (sched_next (threads s t)) s)
      in if sched_next (threads s t) \<noteq> 0
         then thread_upd (sched_next (threads s t)) (sched_prev_update (\<lambda>_. sched_prev (threads s t))) s else s)"

definition clear_links :: "u64 \<Rightarrow> sched_state \<Rightarrow> sched_state" where
  "clear_links t s = thread_upd t (\<lambda>th. th\<lparr>sched_next := 0, sched_prev := 0\<rparr>) s"

lemma unlink_links:
  assumes "pv s t \<noteq> t" and "nx s t \<noteq> t"
  shows "nx (unlink p t s) = (if pv s t \<noteq> 0 then (nx s)(pv s t := nx s t) else nx s)"
    and "pv (unlink p t s) = (if nx s t \<noteq> 0 then (pv s)(nx s t := pv s t) else pv s)"
    and "g_run_queues (unlink p t s) = (if pv s t \<noteq> 0 then g_run_queues s else (g_run_queues s)(p := nx s t))"
    and "relinked s (threads s) (unlink p t s)"
proof -
  have a: "sched_prev (threads s t) = pv s t" "sched_next (threads s t) = nx s t" by (simp_all add: pv_def nx_def)
  show "nx (unlink p t s) = (if pv s t \<noteq> 0 then (nx s)(pv s t := nx s t) else nx s)"
    "pv (unlink p t s) = (if nx s t \<noteq> 0 then (pv s)(nx s t := pv s t) else pv s)"
    "g_run_queues (unlink p t s) = (if pv s t \<noteq> 0 then g_run_queues s else (g_run_queues s)(p := nx s t))"
    using assms unfolding unlink_def Let_def a by (auto simp: a, auto simp: nx_def pv_def fun_eq_iff)
  show "relinked s (threads s) (unlink p t s)"
    unfolding unlink_def Let_def a by (rule relinkedI) (auto simp: thread_upd_def run_queue_upd_def core_def)
qed

lemma queues_rep_other:
  assumes "queues_rep R Z s" and "t \<notin> ready R" and "t \<notin> set Z"
  shows "queues_rep R Z (thread_upd t f s)"
proof -
  have n: "nx (thread_upd t f s) = (nx s)(t := sched_next (f (threads s t)))" "pv (thread_upd t f s) = (pv s)(t := sched_prev (f (threads s t)))"
    by (auto simp: nx_def pv_def)
  have "dll (nx (thread_upd t f s)) (pv (thread_upd t f s)) (g_run_queues s p) (R p)" if "p < 5" for p
    using assms that unfolding n by (subst dll_cong [of _ _ "nx s" _ "pv s"]) (auto simp: queues_rep_def ready_def)
  then show ?thesis using assms unfolding queues_rep_def n by simp
qed

lemma unlink_rep:
  assumes "queues_rep R Z s" and "p < 5" and "R p = xs @ t # ys"
  shows "queues_rep (R(p := xs @ ys)) Z (clear_links t (unlink p t s))" and "queues_rep (R(p := xs @ ys)) Z (unlink p t s)"
    and "relinked s (threads s) (unlink p t s)" and "relinked s (threads s) (clear_links t (unlink p t s))" and "t \<noteq> 0"
proof -
  have d: "dll (nx s) (pv s) (g_run_queues s p) (xs @ t # ys)" using assms by (auto simp: queues_rep_def)
  note n = dll_neighbours [OF d]
  have dis: "distinct (xs @ t # ys)" using d by (simp add: dll_def)
  have in_p: "pv s t \<noteq> 0 \<Longrightarrow> pv s t \<in> set xs" "nx s t \<noteq> 0 \<Longrightarrow> nx s t \<in> set ys" using n(1,2) by (auto split: if_splits)
  then have ne: "pv s t \<noteq> t" "nx s t \<noteq> t" using dis n(6) by force+
  note l = unlink_links [OF ne, of p]
  show r: "relinked s (threads s) (unlink p t s)" and "t \<noteq> 0" using l(4) n(6) by blast+
  have dp: "dll (nx (unlink p t s)) (pv (unlink p t s)) (g_run_queues (unlink p t s) p) (xs @ ys)"
    using dll_unlink [OF d] unfolding l by (simp split: if_splits)
  have other: "x \<in> set (R p)" if "x = pv s t \<and> x \<noteq> 0 \<or> x = nx s t \<and> x \<noteq> 0" for x using that in_p assms(3) by auto
  have dq: "dll (nx (unlink p t s)) (pv (unlink p t s)) (g_run_queues (unlink p t s) q) (R q)" if "q < 5" "q \<noteq> p" for q
  proof -
    have "x \<notin> set (R p)" if "x \<in> set (R q)" for x using assms(1,2) \<open>q < 5\<close> \<open>q \<noteq> p\<close> that unfolding queues_rep_def disj_queues_def by blast
    then have "dll (nx (unlink p t s)) (pv (unlink p t s)) (g_run_queues s q) (R q)"
      using assms(1) that other unfolding l(1,2) by (subst dll_cong [of _ _ "nx s" _ "pv s"]) (auto simp: queues_rep_def)
    then show ?thesis using that unfolding l(3) by simp
  qed
  have cz: "chain (nx (unlink p t s)) (g_sleep_queue (unlink p t s)) Z"
  proof -
    have "x \<notin> set (R p)" if "x \<in> set Z" for x using assms(1,2) that unfolding queues_rep_def disj_queues_def by blast
    then have "chain (nx (unlink p t s)) (g_sleep_queue s) Z"
      using assms(1) other unfolding l(1) by (subst seg_cong [of _ _ "nx s"]) (auto simp: queues_rep_def)
    then show ?thesis using relinked_fields(1) [OF r] by simp
  qed
  show q: "queues_rep (R(p := xs @ ys)) Z (unlink p t s)"
    using dp dq cz assms disj_queues_upd [of R Z p "xs @ ys"] unfolding queues_rep_def by auto
  have "t \<notin> set (R q)" if "q < 5" "q \<noteq> p" for q using assms that unfolding queues_rep_def disj_queues_def by fastforce
  moreover have "t \<notin> set Z" using assms unfolding queues_rep_def disj_queues_def by fastforce
  ultimately show "queues_rep (R(p := xs @ ys)) Z (clear_links t (unlink p t s))"
    unfolding clear_links_def using dis by (intro queues_rep_other [OF q]) (auto simp: ready_def split: if_splits)
  show "relinked s (threads s) (clear_links t (unlink p t s))"
    using relinked_thread_upd [OF r, of "\<lambda>th. th\<lparr>sched_next := 0, sched_prev := 0\<rparr>" t "threads s t"] relinked_fields(13) [OF r, of t]
    by (simp add: clear_links_def core_def)
qed

end
