(* ===== verification/Thread_Switch.thy ===== *)
theory Thread_Switch
  imports Thread_Queues
begin

text \<open>
  The context switch: the choice of the next thread is the head of the highest run queue that is not
  empty, and \<^verbatim>\<open>scheduler_schedule\<close> of \<^verbatim>\<open>kernel/thread.c\<close> keeps every thread in the place that its
  state says and loses none.
\<close>

section \<open>Choosing a thread\<close>

fun highest :: "(nat \<Rightarrow> 'a list) \<Rightarrow> nat \<Rightarrow> nat option" where
  "highest R 0 = None"
| "highest R (Suc p) = (if R p \<noteq> [] then Some p else highest R p)"

lemma highest_None: "highest R n = None \<longleftrightarrow> (\<forall>p<n. R p = [])"
  by (induction n) (auto simp: less_Suc_eq)

lemma highest_Some: "highest R n = Some p \<longleftrightarrow> p < n \<and> R p \<noteq> [] \<and> (\<forall>q<n. p < q \<longrightarrow> R q = [])"
proof (induction n)
  case (Suc n)
  then show ?case by (auto simp: less_Suc_eq)
qed simp

lemma pick_loop_eq:
  assumes "queues_rep R Z s" and "n \<le> 5"
  shows "pick_loop n s = (case highest R n of
     None \<Rightarrow> (g_idle_thread s, s) | Some p \<Rightarrow> (hd (R p), clear_links (hd (R p)) (unlink p (hd (R p)) s)))"
  using assms(2)
proof (induction n)
  case (Suc p)
  have d: "dll (nx s) (pv s) (g_run_queues s p) (R p)" using assms(1) Suc.prems by (simp add: queues_rep_def)
  show ?case
  proof (cases "R p = []")
    case True
    then have "g_run_queues s p = 0" using d by (simp add: dll_def)
    then show ?thesis using True Suc by simp
  next
    case False
    then obtain t ys where t: "R p = t # ys" by (cases "R p") auto
    then have h: "g_run_queues s p = t" "t \<noteq> 0" "sched_prev (threads s t) = 0" using d by (auto simp: dll_def pv_def)
    then show ?thesis using t by (simp add: unlink_def clear_links_def Let_def) (simp add: thread_upd_def run_queue_upd_def)
  qed
qed simp

lemma pick_loop_lock:
  "pick_loop n (s\<lparr>g_scheduler_lock := l\<rparr>) = (fst (pick_loop n s), (snd (pick_loop n s))\<lparr>g_scheduler_lock := l\<rparr>)"
  "g_scheduler_lock (snd (pick_loop n s)) = g_scheduler_lock s"
  by (induction n) (simp_all add: Let_def thread_upd_def run_queue_upd_def)

lemma pick_next_eq: "g_scheduler_lock s = 0 \<Longrightarrow> scheduler_pick_next s = Some (pick_loop 5 s)"
  by (simp add: scheduler_pick_next_def scheduler_locked_def pick_loop_lock c_defs Let_def case_prod_beta)
    (metis pick_loop_lock(2) prod.collapse sched_state.surjective sched_state.update_convs(6))

lemma queues_rep_links:
  assumes "\<And>th. sched_next (f th) = sched_next th" and "\<And>th. sched_prev (f th) = sched_prev th"
  shows "queues_rep R Z (thread_upd t f s) = queues_rep R Z s"
proof -
  have "nx (thread_upd t f s) = nx s" "pv (thread_upd t f s) = pv s" using assms by (auto simp: nx_def pv_def)
  then show ?thesis by (simp add: queues_rep_def)
qed

lemma queues_rep_fields [simp]:
  "queues_rep R Z (s\<lparr>g_current_thread := x\<rparr>) = queues_rep R Z s" "queues_rep R Z (s\<lparr>cpu_ops := ops\<rparr>) = queues_rep R Z s"
  "queues_rep R Z (s\<lparr>g_scheduler_lock := l\<rparr>) = queues_rep R Z s" "queues_rep R Z (s\<lparr>g_sleep_lock := l\<rparr>) = queues_rep R Z s"
  "queues_rep R Z (s\<lparr>sched_timer := tm\<rparr>) = queues_rep R Z s" "queues_rep R Z (s\<lparr>queues := w\<rparr>) = queues_rep R Z s"
  by (simp_all add: queues_rep_def nx_def pv_def)

text \<open>What the state outside of the threads and the queues has to offer.\<close>

definition cr3_ok :: "sched_state \<Rightarrow> bool" where
  "cr3_ok s \<longleftrightarrow> (\<forall>cr3 \<in> insert (kernel_cr3 s) (range (proc_cr3 s) - {0}). \<not> cr3 < 0x1000 \<and> cr3 AND 0xFFF = 0)"

lemma cr3_ok_switch: "cr3_ok s \<Longrightarrow> \<exists>cr3. switch_cr3 t s = Some cr3"
  by (auto simp: cr3_ok_def switch_cr3_def Let_def)

definition runnable :: "thread \<Rightarrow> bool" where
  "runnable th \<longleftrightarrow> th_state th = THREAD_STATE_RUNNING \<or> th_state th = THREAD_STATE_READY"

text \<open>The thread that runs next, the queues without it, and the queue for a thread that gives up.\<close>

definition chosen :: "(nat \<Rightarrow> u64 list) \<Rightarrow> u64 \<Rightarrow> u64" where
  "chosen R idle = (case highest R 5 of None \<Rightarrow> idle | Some p \<Rightarrow> hd (R p))"

definition remaining :: "(nat \<Rightarrow> u64 list) \<Rightarrow> nat \<Rightarrow> u64 list" where
  "remaining R = (case highest R 5 of None \<Rightarrow> R | Some p \<Rightarrow> R(p := tl (R p)))"

definition return_queue :: "thread \<Rightarrow> nat" where
  "return_queue th = queue_index (if is_boosted th then scheduler_nice_to_priority (nice th) else priority th)"

definition switched :: "(nat \<Rightarrow> u64 list) \<Rightarrow> u64 \<Rightarrow> thread \<Rightarrow> nat \<Rightarrow> u64 list" where
  "switched R c th = (if runnable th then (remaining R)(return_queue th := c # remaining R (return_queue th)) else remaining R)"

lemma pick_rep:
  assumes "queues_rep R Z s" and "g_scheduler_lock s = 0"
  obtains s1 where "scheduler_pick_next s = Some (chosen R (g_idle_thread s), s1)" "queues_rep (remaining R) Z s1"
    "relinked s (threads s) s1"
proof (cases "highest R 5")
  case None
  then have "scheduler_pick_next s = Some (chosen R (g_idle_thread s), s)"
    using pick_next_eq [OF assms(2)] pick_loop_eq [OF assms(1), of 5] by (simp add: chosen_def)
  moreover have "relinked s (threads s) s" by (rule relinkedI) simp_all
  ultimately show ?thesis using None assms(1) by (intro that) (simp_all add: remaining_def)
next
  case (Some p)
  then have p: "p < 5" "R p \<noteq> []" by (simp_all add: highest_Some)
  then have R: "R p = [] @ hd (R p) # tl (R p)" by simp
  have "scheduler_pick_next s = Some (chosen R (g_idle_thread s), clear_links (hd (R p)) (unlink p (hd (R p)) s))"
    using pick_next_eq [OF assms(2)] pick_loop_eq [OF assms(1), of 5] Some by (simp add: chosen_def)
  then show ?thesis using unlink_rep(1,4) [OF assms(1) p(1) R] Some by (intro that) (simp_all add: remaining_def)
qed

lemma ready_upd: "p < 5 \<Longrightarrow> ready (R(p := xs)) = set xs \<union> (\<Union>q \<in> {..<5} - {p}. set (R q))"
  by (auto simp: ready_def split: if_splits)

lemma ready_split: "p < 5 \<Longrightarrow> ready R = set (R p) \<union> (\<Union>q \<in> {..<5} - {p}. set (R q))"
  using ready_upd [of p R "R p"] by simp

lemma chosen_remaining:
  assumes "queues_rep R Z s"
  shows "chosen R idle \<notin> ready (remaining R)"
    and "ready R = {} \<and> chosen R idle = idle \<and> remaining R = R \<or> chosen R idle \<in> ready R \<and> ready R = insert (chosen R idle) (ready (remaining R))"
proof -
  have "chosen R idle \<notin> ready (remaining R) \<and> (ready R = {} \<and> chosen R idle = idle \<and> remaining R = R \<or>
    chosen R idle \<in> ready R \<and> ready R = insert (chosen R idle) (ready (remaining R)))"
  proof (cases "highest R 5")
    case None
    then have "ready R = {}" by (simp add: highest_None ready_def)
    then show ?thesis using None by (simp add: chosen_def remaining_def)
  next
    case (Some p)
    then have p: "p < 5" "R p \<noteq> []" by (simp_all add: highest_Some)
    then obtain x xs where R: "R p = x # xs" by (cases "R p") auto
    have "x \<notin> set xs" using assms p(1) R by (force simp: queues_rep_def dll_def)
    moreover have "x \<notin> set (R q)" if "q < 5" "q \<noteq> p" for q
      using assms p(1) R that unfolding queues_rep_def disj_queues_def by fastforce
    moreover have "ready R = insert x (ready (R(p := xs)))" using ready_split [OF p(1), of R] ready_upd [OF p(1), of R] R by simp
    ultimately show ?thesis using Some R ready_upd [OF p(1), of R xs] by (auto simp: chosen_def remaining_def)
  qed
  then show "chosen R idle \<notin> ready (remaining R)"
    and "ready R = {} \<and> chosen R idle = idle \<and> remaining R = R \<or> chosen R idle \<in> ready R \<and> ready R = insert (chosen R idle) (ready (remaining R))"
    by blast+
qed

lemma ready_nonzero: "queues_rep R Z s \<Longrightarrow> 0 \<notin> ready R"
  using seg_nonzero unfolding queues_rep_def dll_def ready_def by fastforce

lemma chosen_nonzero: "queues_rep R Z s \<Longrightarrow> idle \<noteq> 0 \<Longrightarrow> chosen R idle \<noteq> 0"
  using ready_nonzero chosen_remaining(2) by metis

section \<open>Switching\<close>

definition settled :: "thread \<Rightarrow> thread" where
  "settled th = (if is_boosted th then th\<lparr>is_boosted := False, priority := scheduler_nice_to_priority (nice th),
     base_priority := scheduler_nice_to_priority (nice th)\<rparr> else th)"

lemma end_accounting_eq:
  "\<exists>f. end_accounting c now s = thread_upd c f s \<and> (\<forall>th. sched_next (f th) = sched_next th \<and> sched_prev (f th) = sched_prev th) \<and>
     th_state (f (threads s c)) = th_state (threads s c) \<and> priority (f (threads s c)) = priority (settled (threads s c)) \<and>
     wake_tick (f (threads s c)) = wake_tick (threads s c) \<and> wait_queue_next (f (threads s c)) = wait_queue_next (threads s c) \<and>
     \<not> is_boosted (f (threads s c))"
proof -
  let ?g = "\<lambda>th. if run_start_tick (threads s c) > 0 then th\<lparr>cpu_ticks := cpu_ticks th + (now - run_start_tick th)\<rparr> else th"
  let ?f = "\<lambda>th. if is_boosted (threads s c) then (?g th)\<lparr>is_boosted := False, priority := scheduler_nice_to_priority (nice (?g th)),
    base_priority := scheduler_nice_to_priority (nice (?g th))\<rparr> else ?g th"
  have "end_accounting c now s = thread_upd c ?f s"
    by (auto simp: end_accounting_def thread_upd_def Let_def)
  then show ?thesis by (intro exI [of _ ?f]) (auto simp: settled_def)
qed

lemma return_queue_settled: "return_queue th = queue_index (priority (settled th))"
  by (simp add: return_queue_def settled_def)

lemma switch_to_eq:
  assumes "cr3_ok s"
  obtains g ops where "switch_to c n now s = Some ((thread_upd n g s)\<lparr>g_current_thread := n, cpu_ops := ops\<rparr>)"
    "\<And>th. sched_next (g th) = sched_next th \<and> sched_prev (g th) = sched_prev th \<and> priority (g th) = priority th \<and>
      wait_queue_next (g th) = wait_queue_next th \<and> th_state (g th) = THREAD_STATE_RUNNING \<and> is_boosted (g th) = is_boosted th"
proof -
  let ?s = "(thread_upd n (\<lambda>t. t\<lparr>run_start_tick := now, context_switches := context_switches t + 1,
                th_state := THREAD_STATE_RUNNING\<rparr>) s)\<lparr>g_current_thread := n\<rparr>"
  let ?s2 = "if (th_owner (threads ?s n) = 0 \<or> first_switch (threads ?s n)) \<and> rsp0 (threads ?s n) \<noteq> 0
               then ?s\<lparr>cpu_ops := cpu_ops ?s @ [Tss_Set_Rsp0 (rsp0 (threads ?s n))]\<rparr> else ?s"
  have "cr3_ok ?s2" using assms(1) by (simp add: cr3_ok_def)
  then obtain cr3 where "switch_cr3 n ?s2 = Some cr3" using cr3_ok_switch by blast
  then show thesis
    by (intro that [where g = "\<lambda>t. t\<lparr>run_start_tick := now, context_switches := context_switches t + 1,
                th_state := THREAD_STATE_RUNNING, first_switch := False\<rparr>"
          and ops = "cpu_ops ?s2 @ [Switch_Task c (rsp (threads s n)) cr3]"]) (auto simp: switch_to_def Let_def thread_upd_def)
qed

lemma relinked_upd_from: "relinked (thread_upd t f s) c s' \<Longrightarrow> relinked s c s'"
  by (auto simp: relinked_def thread_upd_def)

lemma schedule_enqueue:
  assumes "queues_rep R Z s" and "g_scheduler_lock s = 0" and "c \<noteq> 0" and "runnable (threads s c) \<Longrightarrow> c \<notin> ready R \<and> c \<notin> set Z"
  obtains s' where "(if c \<noteq> 0 \<and> (th_state (threads s c) = THREAD_STATE_RUNNING \<or> th_state (threads s c) = THREAD_STATE_READY)
           then scheduler_enqueue c (thread_upd c (\<lambda>t. t\<lparr>th_state := THREAD_STATE_READY, wait_start_tick := now\<rparr>) s)
           else Some s) = Some s'"
    "queues_rep (if runnable (threads s c) then R(queue_index (priority (threads s c)) := c # R (queue_index (priority (threads s c)))) else R) Z s'"
    "relinked s ((threads s)(c := if runnable (threads s c) then (threads s c)\<lparr>wait_start_tick := now, th_state := THREAD_STATE_READY\<rparr> else threads s c)) s'"
proof (cases "runnable (threads s c)")
  case True
  let ?s = "thread_upd c (\<lambda>t. t\<lparr>th_state := THREAD_STATE_READY, wait_start_tick := now\<rparr>) s"
  have q: "queues_rep R Z ?s" using assms(1) by (simp add: queues_rep_links)
  note e = enqueue_rep [OF q assms(3)]
  have "relinked s (threads ?s) ?s" by (rule relinkedI) (auto simp: thread_upd_def)
  show ?thesis
  proof (rule that [of "scheduler_enqueue_nolock c ?s"])
    show "relinked s ((threads s)(c := if runnable (threads s c) then (threads s c)\<lparr>wait_start_tick := now, th_state := THREAD_STATE_READY\<rparr> else threads s c)) (scheduler_enqueue_nolock c ?s)"
      using relinked_upd_from [OF e(2)] assms(4) True by simp
  qed (use e(1) assms(2-4) True enqueue_locked_eq [of ?s c] in \<open>auto simp: runnable_def\<close>)
next
  case False
  have "relinked s ((threads s)(c := threads s c)) s" by (rule relinkedI) auto
  then show ?thesis using False assms(1) by (intro that [of s]) (auto simp: runnable_def)
qed

lemma schedule_cases:
  assumes "queues_rep R Z s" and "g_scheduler_lock s = 0" and "g_scheduler_active s" and "cr3_ok s"
    and "g_current_thread s = c" and "c \<noteq> 0" and "c \<notin> ready R" and "runnable (threads s c) \<Longrightarrow> c \<notin> set Z"
    and "g_idle_thread s \<noteq> 0"
  defines "n \<equiv> chosen R (g_idle_thread s)"
  obtains (same) "scheduler_schedule s = Some s" "n = c" "ready R = {}"
  | (switch) s' where "scheduler_schedule s = Some s'" "n \<noteq> c" "g_current_thread s' = n"
      "queues_rep (switched R c (threads s c)) Z s'" "g_scheduler_lock s' = 0" "g_sleep_lock s' = g_sleep_lock s"
      "g_scheduler_active s'" "g_idle_thread s' = g_idle_thread s" "sched_timer s' = sched_timer s" "queues s' = queues s" "cr3_ok s'"
      "th_state (threads s' n) = THREAD_STATE_RUNNING" "priority (threads s' n) = priority (threads s n)"
      "th_state (threads s' c) = (if runnable (threads s c) then THREAD_STATE_READY else th_state (threads s c))"
      "priority (threads s' c) = priority (settled (threads s c))" "wake_tick (threads s' c) = wake_tick (threads s c)"
      "\<And>u. u \<noteq> n \<Longrightarrow> u \<noteq> c \<Longrightarrow> core (threads s' u) = core (threads s u)"
      "\<And>u. wait_queue_next (threads s' u) = wait_queue_next (threads s u)"
      "\<And>u. is_boosted (threads s' u) \<longleftrightarrow> u \<noteq> c \<and> is_boosted (threads s u)"
proof -
  obtain s1 where s1: "scheduler_pick_next s = Some (n, s1)" "queues_rep (remaining R) Z s1" "relinked s (threads s) s1"
    using pick_rep [OF assms(1,2)] n_def by metis
  note r1 = relinked_fields [OF s1(3)]
  note ch = chosen_remaining [OF assms(1), of "g_idle_thread s", folded n_def]
  have n0: "n \<noteq> 0" using chosen_nonzero [OF assms(1,9)] by (simp add: n_def)
  show thesis
  proof (cases "n = c")
    case True
    then have e: "ready R = {}" "n = g_idle_thread s" using ch(2) assms(7) by auto
    then have "highest R 5 = None" by (auto simp: highest_None ready_def)
    then have "s1 = s" using s1(1) pick_next_eq [OF assms(2)] pick_loop_eq [OF assms(1), of 5] by simp
    then show ?thesis using True e s1(1) assms(3,5) n0 by (intro same) (simp_all add: scheduler_schedule_def)
  next
    case False
    let ?now = "ticks s1"
    obtain f where f: "end_accounting c ?now s1 = thread_upd c f s1"
      "\<And>th. sched_next (f th) = sched_next th \<and> sched_prev (f th) = sched_prev th"
      "th_state (f (threads s1 c)) = th_state (threads s1 c)" "priority (f (threads s1 c)) = priority (settled (threads s1 c))"
      "wake_tick (f (threads s1 c)) = wake_tick (threads s1 c)" "wait_queue_next (f (threads s1 c)) = wait_queue_next (threads s1 c)"
      "\<not> is_boosted (f (threads s1 c))"
      using end_accounting_eq [of c ?now s1] by blast
    let ?s2 = "thread_upd c f s1"
    have c1: "core (threads s1 u) = core (threads s u)" for u using r1(13) .
    note cf = core_fields [OF c1, of c]
    have set1: "priority (settled (threads s1 c)) = priority (settled (threads s c))" using cf by (simp add: settled_def)
    have run: "runnable (threads ?s2 c) = runnable (threads s c)" using cf(1) f(3) by (simp add: runnable_def)
    have q2: "queues_rep (remaining R) Z ?s2" using s1(2) f(2) by (simp add: queues_rep_links)
    have l2: "g_scheduler_lock ?s2 = 0" using r1(2) assms(2) by simp
    have nr: "runnable (threads ?s2 c) \<Longrightarrow> c \<notin> ready (remaining R) \<and> c \<notin> set Z" using run assms(7,8) ch(2) by auto
    obtain s3 where s3: "(if c \<noteq> 0 \<and> (th_state (threads ?s2 c) = THREAD_STATE_RUNNING \<or> th_state (threads ?s2 c) = THREAD_STATE_READY)
           then scheduler_enqueue c (thread_upd c (\<lambda>t. t\<lparr>th_state := THREAD_STATE_READY, wait_start_tick := ?now\<rparr>) ?s2)
           else Some ?s2) = Some s3"
      "queues_rep (if runnable (threads ?s2 c) then (remaining R)(queue_index (priority (threads ?s2 c)) := c # remaining R (queue_index (priority (threads ?s2 c)))) else remaining R) Z s3"
      "relinked ?s2 ((threads ?s2)(c := if runnable (threads ?s2 c) then (threads ?s2 c)\<lparr>wait_start_tick := ?now, th_state := THREAD_STATE_READY\<rparr> else threads ?s2 c)) s3"
      by (rule schedule_enqueue [OF q2 l2 assms(6) nr])
    have q3: "queues_rep (switched R c (threads s c)) Z s3"
    proof -
      have "priority (threads ?s2 c) = priority (settled (threads s c))" using f(4) set1 by simp
      then show ?thesis using s3(2) unfolding switched_def return_queue_settled run by (simp only:)
    qed
    note r3 = relinked_fields [OF s3(3)]
    have c3: "core (threads s3 u) = core (threads s u)" if "u \<noteq> c" for u using r3(13) [of u] c1 [of u] that by simp
    have cc: "core (threads s3 c) = core (if runnable (threads s c) then (f (threads s1 c))\<lparr>wait_start_tick := ?now, th_state := THREAD_STATE_READY\<rparr> else f (threads s1 c))"
      using r3(13) [of c] run by simp
    have "cr3_ok s3" using assms(4) r3(10,11) r1(10,11) by (simp add: cr3_ok_def)
    then obtain g ops where g: "switch_to c n ?now s3 = Some ((thread_upd n g s3)\<lparr>g_current_thread := n, cpu_ops := ops\<rparr>)"
      "\<And>th. sched_next (g th) = sched_next th \<and> sched_prev (g th) = sched_prev th \<and> priority (g th) = priority th \<and>
      wait_queue_next (g th) = wait_queue_next th \<and> th_state (g th) = THREAD_STATE_RUNNING \<and> is_boosted (g th) = is_boosted th"
      using switch_to_eq by blast
    let ?s' = "(thread_upd n g s3)\<lparr>g_current_thread := n, cpu_ops := ops\<rparr>"
    show ?thesis
    proof (rule switch [of ?s'])
      show "scheduler_schedule s = Some ?s'"
        unfolding scheduler_schedule_def using assms(3,5,6) s1(1) n0 False f(1) s3(1) g(1) by (auto simp: Let_def split: if_splits)
      show "queues_rep (switched R c (threads s c)) Z ?s'"
        using q3 g(2) by (simp add: queues_rep_links)
      show "core (threads ?s' u) = core (threads s u)" if "u \<noteq> n" "u \<noteq> c" for u using c3 that by simp
      have "wait_queue_next (threads s3 u) = wait_queue_next (threads s u)" for u
        using core_fields(14) [OF cc] core_fields(14) [OF c3] f(6) cf(14) by (cases "u = c") (simp_all split: if_splits)
      then show "wait_queue_next (threads ?s' u) = wait_queue_next (threads s u)" for u using g(2) by simp
      have "is_boosted (threads s3 u) \<longleftrightarrow> u \<noteq> c \<and> is_boosted (threads s u)" for u
        using core_fields(4) [OF cc] core_fields(4) [OF c3] f(7) by (cases "u = c") (simp_all split: if_splits)
      then show "is_boosted (threads ?s' u) \<longleftrightarrow> u \<noteq> c \<and> is_boosted (threads s u)" for u using g(2) by simp
      show "cr3_ok ?s'" using \<open>cr3_ok s3\<close> by (simp add: cr3_ok_def)
      show "th_state (threads ?s' c) = (if runnable (threads s c) then THREAD_STATE_READY else th_state (threads s c))"
        "priority (threads ?s' c) = priority (settled (threads s c))" "wake_tick (threads ?s' c) = wake_tick (threads s c)"
        using core_fields(1-3) [OF cc] False f(3-5) cf set1 by (simp_all split: if_splits)
    qed (use False assms(2,3) r3 r1 g(2) core_fields(2) [OF c3 [OF False]] in simp_all)
  qed
qed

section \<open>Every thread has its place\<close>

definition wn :: "sched_state \<Rightarrow> u64 \<Rightarrow> u64" where "wn s = (\<lambda>t. wait_queue_next (threads s t))"

definition waits_rep :: "(queue_ptr \<Rightarrow> u64 list) \<Rightarrow> sched_state \<Rightarrow> bool" where
  "waits_rep W s \<longleftrightarrow> (\<forall>q. chain (wn s) (wq_head (queues s q)) (W q) \<and> distinct (W q) \<and>
     wq_tail (queues s q) = (if W q = [] then 0 else last (W q)) \<and> wq_lock (queues s q) = 0)"

definition waiting :: "(queue_ptr \<Rightarrow> u64 list) \<Rightarrow> u64 set" where
  "waiting W = (\<Union>q. set (W q))"

text \<open>The state of a thread tells where it is, and queued threads have the priority of their queue.\<close>

definition places_ok :: "(nat \<Rightarrow> u64 list) \<Rightarrow> u64 list \<Rightarrow> (queue_ptr \<Rightarrow> u64 list) \<Rightarrow> (u64 \<Rightarrow> thread) \<Rightarrow> bool" where
  "places_ok R Z W th \<longleftrightarrow>
     (\<forall>p<5. \<forall>t \<in> set (R p). th_state (th t) = THREAD_STATE_READY \<and> priority (th t) = p) \<and>
     (\<forall>t \<in> set Z. th_state (th t) = THREAD_STATE_SLEEPING \<and> priority (th t) < 5) \<and>
     sorted_wrt (\<lambda>a b. wake_tick (th a) \<le> wake_tick (th b)) Z \<and>
     (\<forall>t \<in> waiting W. th_state (th t) = THREAD_STATE_BLOCKED \<and> priority (th t) < 5)"

definition disj_waits :: "u64 set \<Rightarrow> (queue_ptr \<Rightarrow> u64 list) \<Rightarrow> bool" where
  "disj_waits A W \<longleftrightarrow> A \<inter> waiting W = {} \<and> (\<forall>q q'. q \<noteq> q' \<longrightarrow> set (W q) \<inter> set (W q') = {})"

definition env_ok :: "sched_state \<Rightarrow> bool" where
  "env_ok s \<longleftrightarrow> g_scheduler_lock s = 0 \<and> g_sleep_lock s = 0 \<and> g_scheduler_active s \<and> cr3_ok s \<and> g_idle_thread s \<noteq> 0 \<and>
     g_current_thread s \<noteq> 0"

definition queued :: "(nat \<Rightarrow> u64 list) \<Rightarrow> u64 list \<Rightarrow> (queue_ptr \<Rightarrow> u64 list) \<Rightarrow> sched_state \<Rightarrow> bool" where
  "queued R Z W s \<longleftrightarrow> env_ok s \<and> queues_rep R Z s \<and> waits_rep W s \<and> disj_waits (ready R \<union> set Z) W \<and> places_ok R Z W (threads s) \<and>
     g_idle_thread s \<notin> set Z \<and> g_idle_thread s \<notin> waiting W \<and> priority (threads s (g_idle_thread s)) < 5"

text \<open>
  Between two operations one thread runs and is in no queue. On the way into the scheduler it may
  already be in the queue it wants to wait in.
\<close>

definition running :: "(nat \<Rightarrow> u64 list) \<Rightarrow> u64 list \<Rightarrow> (queue_ptr \<Rightarrow> u64 list) \<Rightarrow> sched_state \<Rightarrow> bool" where
  "running R Z W s \<longleftrightarrow> (let c = g_current_thread s in
     th_state (threads s c) = THREAD_STATE_RUNNING \<and> priority (threads s c) < 5 \<and> c \<notin> ready R \<and> c \<notin> set Z \<and> c \<notin> waiting W)"

definition giving_up :: "(nat \<Rightarrow> u64 list) \<Rightarrow> u64 list \<Rightarrow> (queue_ptr \<Rightarrow> u64 list) \<Rightarrow> sched_state \<Rightarrow> bool" where
  "giving_up R Z W s \<longleftrightarrow> running R Z W s \<or> g_current_thread s \<in> set Z \<union> waiting W"

definition population :: "(nat \<Rightarrow> u64 list) \<Rightarrow> u64 list \<Rightarrow> (queue_ptr \<Rightarrow> u64 list) \<Rightarrow> sched_state \<Rightarrow> u64 set" where
  "population R Z W s = {g_idle_thread s, g_current_thread s} \<union> ready R \<union> set Z \<union> waiting W"

definition sched_ok :: "u64 set \<Rightarrow> sched_state \<Rightarrow> bool" where
  "sched_ok P s \<longleftrightarrow> (\<exists>R Z W. queued R Z W s \<and> running R Z W s \<and> population R Z W s = P)"

lemma nice_priority_less [simp]: "scheduler_nice_to_priority n < 5"
  by (simp add: scheduler_nice_to_priority_def Let_def c_defs)

lemma settled_priority: "priority th < 5 \<Longrightarrow> priority (settled th) < 5"
  by (simp add: settled_def)

lemma queue_index_id: "p < 5 \<Longrightarrow> queue_index p = p"
  by (simp add: queue_index_def c_defs)

lemma places_cong:
  assumes "\<And>t. t \<in> ready R \<union> set Z \<union> waiting W \<Longrightarrow> th_state (th' t) = th_state (th t) \<and> priority (th' t) = priority (th t) \<and> wake_tick (th' t) = wake_tick (th t)"
  shows "places_ok R Z W th' = places_ok R Z W th"
proof -
  have "sorted_wrt (\<lambda>a b. wake_tick (th' a) \<le> wake_tick (th' b)) Z = sorted_wrt (\<lambda>a b. wake_tick (th a) \<le> wake_tick (th b)) Z"
    unfolding sorted_wrt_iff_nth_less using assms by auto
  moreover have "\<And>p t. p < 5 \<Longrightarrow> t \<in> set (R p) \<Longrightarrow> t \<in> ready R" by (auto simp: ready_def)
  ultimately show ?thesis using assms unfolding places_ok_def by auto
qed

lemma ready_switched:
  assumes "queues_rep R Z s" and "c \<notin> ready R"
  shows "ready (switched R c th) = ready (remaining R) \<union> (if runnable th then {c} else {})"
  using ready_upd [of "return_queue th" "remaining R"] ready_split [of "return_queue th" "remaining R"]
  by (simp add: switched_def return_queue_def)

lemma places_switched:
  assumes "places_ok R Z W (threads s)" and "queues_rep R Z s"
    and "th_state (threads s' c) = (if runnable (threads s c) then THREAD_STATE_READY else th_state (threads s c))"
    and "priority (threads s' c) = priority (settled (threads s c))" and "wake_tick (threads s' c) = wake_tick (threads s c)"
    and "priority (threads s c) < 5" and "c \<notin> ready R" and "n \<notin> ready (remaining R) \<union> set Z \<union> waiting W"
    and "c \<in> set Z \<union> waiting W \<Longrightarrow> \<not> runnable (threads s c)"
    and "\<And>u. u \<noteq> n \<Longrightarrow> u \<noteq> c \<Longrightarrow> core (threads s' u) = core (threads s u)"
  shows "places_ok (switched R c (threads s c)) Z W (threads s')"
proof -
  have sub: "set (remaining R p) \<subseteq> set (R p)" for p
    by (auto simp: remaining_def split: option.splits) (metis list.sel(2) list.set_sel(2))
  have same: "th_state (threads s' t) = th_state (threads s t) \<and> wake_tick (threads s' t) = wake_tick (threads s t) \<and>
     (priority (threads s' t) = priority (threads s t) \<or> t = c)" if "t \<in> ready (remaining R) \<union> set Z \<union> waiting W" for t
  proof (cases "t = c")
    case True
    then have "t \<in> set Z \<union> waiting W" using that assms(7) sub by (auto simp: ready_def)
    then show ?thesis using True assms(3,5,9) by simp
  next
    case False
    then show ?thesis using core_fields(1-3) [OF assms(10)] that assms(8) by metis
  qed
  have pr: "priority (threads s' t) < 5" if "t \<in> set Z \<union> waiting W" for t
    using same [of t] that assms(1,4,6) settled_priority by (cases "t = c") (auto simp: places_ok_def)
  have 1: "th_state (threads s' t) = THREAD_STATE_READY \<and> priority (threads s' t) = p" if "p < 5" "t \<in> set (remaining R p)" for p t
  proof -
    have "t \<in> ready (remaining R)" "t \<in> set (R p)" "t \<noteq> c" using that sub assms(7) by (auto simp: ready_def)
    then show ?thesis using same [of t] assms(1) that(1) by (auto simp: places_ok_def)
  qed
  have 2: "th_state (threads s' t) = THREAD_STATE_READY \<and> priority (threads s' t) = p" if "p < 5" "t \<in> set (switched R c (threads s c) p)" for p t
  proof (cases "t \<in> set (remaining R p)")
    case False
    then have "t = c" "p = return_queue (threads s c)" "runnable (threads s c)" using that(2) by (auto simp: switched_def split: if_splits)
    then show ?thesis
      using assms(3,4) settled_priority [OF assms(6)] queue_index_id by (simp add: return_queue_settled)
  qed (use 1 [OF that(1)] in blast)
  have "sorted_wrt (\<lambda>a b. wake_tick (threads s' a) \<le> wake_tick (threads s' b)) Z"
    using assms(1) same unfolding places_ok_def sorted_wrt_iff_nth_less by auto
  then show ?thesis using 2 same pr assms(1) unfolding places_ok_def by auto
qed

lemma schedule_ok:
  assumes "queued R Z W s" and "giving_up R Z W s"
  shows "yields (scheduler_schedule s) (sched_ok (population R Z W s))"
proof -
  let ?c = "g_current_thread s" and ?i = "g_idle_thread s"
  have q: "env_ok s" "queues_rep R Z s" "waits_rep W s" "disj_waits (ready R \<union> set Z) W" "places_ok R Z W (threads s)"
    "?i \<notin> set Z" "?i \<notin> waiting W" "priority (threads s ?i) < 5" using assms(1) by (simp_all add: queued_def)
  have e: "g_scheduler_lock s = 0" "g_sleep_lock s = 0" "g_scheduler_active s" "cr3_ok s" "?i \<noteq> 0" "?c \<noteq> 0" using q(1) by (simp_all add: env_ok_def)
  have dj: "set Z \<inter> ready R = {}" using q(2) by (auto simp: queues_rep_def disj_queues_def ready_def)
  have c: "?c \<notin> ready R" "priority (threads s ?c) < 5" "?c \<in> set Z \<union> waiting W \<Longrightarrow> \<not> runnable (threads s ?c)"
    "?c \<notin> set Z \<union> waiting W \<Longrightarrow> running R Z W s"
    using assms(2) q(4,5) dj by (auto simp: giving_up_def running_def places_ok_def disj_waits_def runnable_def Let_def)
  note ch = chosen_remaining [OF q(2), of ?i]
  show ?thesis
  proof (rule schedule_cases [OF q(2) e(1,3,4) refl e(6) c(1) _ e(5)])
    show "?c \<notin> set Z" if "runnable (threads s ?c)" using c(3) that by blast
  next
    assume "scheduler_schedule s = Some s" "chosen R ?i = ?c" "ready R = {}"
    moreover have "running R Z W s" using c(4) q(6,7) calculation ch(2) by auto
    ultimately show ?thesis using assms(1) by (auto simp: sched_ok_def)
  next
    fix s' let ?n = "chosen R ?i" and ?R = "switched R ?c (threads s ?c)"
    assume s': "scheduler_schedule s = Some s'" "?n \<noteq> ?c" "g_current_thread s' = ?n"
      "queues_rep ?R Z s'" "g_scheduler_lock s' = 0" "g_sleep_lock s' = g_sleep_lock s"
      "g_scheduler_active s'" "g_idle_thread s' = g_idle_thread s" "sched_timer s' = sched_timer s" "queues s' = queues s" "cr3_ok s'"
      "th_state (threads s' ?n) = THREAD_STATE_RUNNING" "priority (threads s' ?n) = priority (threads s ?n)"
      "th_state (threads s' ?c) = (if runnable (threads s ?c) then THREAD_STATE_READY else th_state (threads s ?c))"
      "priority (threads s' ?c) = priority (settled (threads s ?c))" "wake_tick (threads s' ?c) = wake_tick (threads s ?c)"
      "\<And>u. u \<noteq> ?n \<Longrightarrow> u \<noteq> ?c \<Longrightarrow> core (threads s' u) = core (threads s u)"
      "\<And>u. wait_queue_next (threads s' u) = wait_queue_next (threads s u)"
      "\<And>u. is_boosted (threads s' u) \<longleftrightarrow> u \<noteq> ?c \<and> is_boosted (threads s u)"
    have n0: "?n \<noteq> 0" using chosen_nonzero [OF q(2) e(5)] .
    have n: "?n \<notin> ready (remaining R) \<union> set Z \<union> waiting W" "priority (threads s ?n) < 5"
    proof -
      have "priority (threads s u) < 5 \<and> u \<notin> set Z \<and> u \<notin> waiting W" if "u \<in> ready R" for u
      proof -
        obtain p where "p < 5" "u \<in> set (R p)" using \<open>u \<in> ready R\<close> by (auto simp: ready_def)
        then have "priority (threads s u) < 5" using q(5) by (simp add: places_ok_def)
        then show ?thesis using that dj q(4) by (auto simp: disj_waits_def)
      qed
      then show "?n \<notin> ready (remaining R) \<union> set Z \<union> waiting W" "priority (threads s ?n) < 5"
        using ch q(6-8) by (metis Un_iff)+
    qed
    have rd: "ready ?R = ready (remaining R) \<union> (if runnable (threads s ?c) then {?c} else {})" using ready_switched [OF q(2) c(1)] .
    have sub: "ready (remaining R) \<subseteq> ready R" using ch(2) by auto
    have pl: "places_ok ?R Z W (threads s')"
      by (rule places_switched [OF q(5,2) s'(14-16) c(2,1) n(1) c(3) s'(17)])
    have "wn s' = wn s" using s'(18) by (simp add: wn_def)
    then have w: "waits_rep W s'" using q(3) s'(10) by (simp add: waits_rep_def)
    have dw: "disj_waits (ready ?R \<union> set Z) W" using q(4) rd sub c(3) by (auto simp: disj_waits_def split: if_splits)
    have "priority (threads s' ?i) < 5"
      using s'(13,15) n(2) settled_priority [OF c(2)] core_fields(2) [OF s'(17)] q(8) by (cases "?i = ?n"; cases "?i = ?c") auto
    then have "queued ?R Z W s'" using e s'(4-8,11) pl w dw q(6,7) n0 s'(3) by (simp add: queued_def env_ok_def)
    moreover have "running ?R Z W s'" using s'(2,3,12,13) n rd by (auto simp: running_def Let_def split: if_splits)
    moreover have "population ?R Z W s' = population R Z W s"
    proof -
      have "insert ?i (insert ?n (ready (remaining R))) = insert ?i (ready R)" using ch(2) by (elim disjE) simp_all
      moreover have "?c \<in> ready ?R \<union> set Z \<union> waiting W" using rd c(4) by (auto simp: running_def runnable_def Let_def)
      moreover have "ready ?R \<subseteq> insert ?c (ready (remaining R))" "ready (remaining R) \<subseteq> ready ?R" using rd by auto
      ultimately show ?thesis unfolding population_def s'(3,8) by blast
    qed
    ultimately show ?thesis using s'(1) by (auto simp: sched_ok_def)
  qed
qed

text \<open>Fields that do not say where a thread is.\<close>

definition neutral :: "(thread \<Rightarrow> thread) \<Rightarrow> bool" where
  "neutral f \<longleftrightarrow> (\<forall>th. sched_next (f th) = sched_next th \<and> sched_prev (f th) = sched_prev th \<and> th_state (f th) = th_state th \<and>
     priority (f th) = priority th \<and> wake_tick (f th) = wake_tick th \<and> wait_queue_next (f th) = wait_queue_next th)"

lemma waits_rep_cong: "wn s' = wn s \<Longrightarrow> queues s' = queues s \<Longrightarrow> waits_rep W s' = waits_rep W s"
  by (simp add: waits_rep_def)

lemma neutral_keeps:
  assumes "neutral f"
  shows "queued R Z W (thread_upd t f s) = queued R Z W s" and "running R Z W (thread_upd t f s) = running R Z W s"
    and "population R Z W (thread_upd t f s) = population R Z W s"
proof -
  have f: "sched_next (f th) = sched_next th" "sched_prev (f th) = sched_prev th" "th_state (f th) = th_state th"
     "priority (f th) = priority th" "wake_tick (f th) = wake_tick th" "wait_queue_next (f th) = wait_queue_next th" for th
    using assms by (simp_all add: neutral_def)
  have "wn (thread_upd t f s) = wn s" using f(6) by (auto simp: wn_def)
  then have w: "waits_rep W (thread_upd t f s) = waits_rep W s" by (rule waits_rep_cong) simp
  have "places_ok R Z W (threads (thread_upd t f s)) = places_ok R Z W (threads s)" by (rule places_cong) (simp add: f)
  then show "queued R Z W (thread_upd t f s) = queued R Z W s"
    using w f(4) queues_rep_links [OF f(1,2)] by (simp add: queued_def env_ok_def cr3_ok_def)
  show "running R Z W (thread_upd t f s) = running R Z W s" by (simp add: running_def Let_def f)
  show "population R Z W (thread_upd t f s) = population R Z W s" by (simp add: population_def)
qed

lemma queued_locks:
  assumes "queued R Z W s"
  shows "g_scheduler_lock s = 0" "g_sleep_lock s = 0" "queues_rep R Z s" "waits_rep W s" "places_ok R Z W (threads s)"
    "disj_waits (ready R \<union> set Z) W" "g_current_thread s \<noteq> 0" "g_idle_thread s \<noteq> 0" "g_scheduler_active s"
  using assms by (simp_all add: queued_def env_ok_def)

text \<open>A thread that leaves its place, wherever that is, and becomes ready.\<close>

lemma enqueue_ok:
  assumes "queued R Z W s" and "t \<noteq> 0" and "t \<notin> ready R \<union> set Z \<union> waiting W"
    and "th_state (threads s t) \<noteq> THREAD_STATE_RUNNING" and "priority (threads s t) = p" and "p < 5"
  obtains s' where "scheduler_enqueue t s = Some s'" "queued (R(p := t # R p)) Z W s'"
    "ready (R(p := t # R p)) = insert t (ready R)" "relinked s ((threads s)(t := (threads s t)\<lparr>th_state := THREAD_STATE_READY\<rparr>)) s'"
proof -
  note q = queued_locks [OF assms(1)]
  have tn: "t \<notin> ready R" "t \<notin> set Z" "t \<notin> waiting W" using assms(3) by auto
  let ?s = "scheduler_enqueue_nolock t s"
  have p: "queue_index (priority (threads s t)) = p" using assms(5,6) queue_index_id by simp
  note e = enqueue_rep [OF q(3) assms(2) tn(1,2) assms(4), unfolded p]
  note r = relinked_fields [OF e(2)]
  have rd: "ready (R(p := t # R p)) = insert t (ready R)" using ready_upd [OF assms(6), of R] ready_split [OF assms(6), of R] by auto
  have cu: "core (threads ?s u) = core (threads s u)" if "u \<noteq> t" for u using r(13) [of u] that by simp
  have ct: "core (threads ?s t) = core ((threads s t)\<lparr>th_state := THREAD_STATE_READY\<rparr>)" using r(13) [of t] by simp
  have wq: "wait_queue_next (threads ?s u) = wait_queue_next (threads s u)" for u
    using core_fields(14) [OF cu] core_fields(14) [OF ct] by (cases "u = t") auto
  then have w: "waits_rep W ?s" using q(4) r(7) waits_rep_cong [of ?s s] by (simp add: wn_def)
  have ne: "u \<noteq> t" if "u \<in> ready R \<union> set Z \<union> waiting W" for u using assms(3) that by blast
  have "places_ok R Z W (threads ?s)"
    using q(5) by (subst places_cong [of R Z W _ "threads s"]) (use core_fields(1-3) [OF cu [OF ne]] in blast)+
  then have pl: "places_ok (R(p := t # R p)) Z W (threads ?s)"
    using core_fields(1,2) [OF ct] assms(5) by (auto simp: places_ok_def)
  have dw: "disj_waits (ready (R(p := t # R p)) \<union> set Z) W" using q(6) tn(3) unfolding rd by (auto simp: disj_waits_def)
  have idle: "priority (threads ?s u) = priority (threads s u)" for u
    using core_fields(2) [OF cu] core_fields(2) [OF ct] by (cases "u = t") auto
  have "queued (R(p := t # R p)) Z W ?s"
    using assms(1) e(1) w pl dw r idle by (simp add: queued_def env_ok_def cr3_ok_def)
  then show ?thesis using that [OF enqueue_locked_eq [OF q(1)]] rd e(2) by blast
qed

end
