(* ===== verification/Thread_Correct.thy ===== *)
theory Thread_Correct
  imports Thread_Switch
begin

text \<open>Sleeping, waking up, the timer tick and the wait queues of \<^verbatim>\<open>kernel/thread.c\<close> keep the
  queues of the scheduler well formed and lose no thread.\<close>

lemma lock_same:
  "g_sleep_lock s = l \<Longrightarrow> s\<lparr>g_sleep_lock := l\<rparr> = s" "g_scheduler_lock s = l \<Longrightarrow> s\<lparr>g_scheduler_lock := l\<rparr> = s"
  by simp_all

section \<open>Changes that keep every thread in its place\<close>

lemma queued_other:
  assumes "queued R Z W s" and "t \<notin> ready R \<union> set Z \<union> waiting W" and "t = g_idle_thread s \<Longrightarrow> priority (f (threads s t)) < 5"
  shows "queued R Z W (thread_upd t f s)"
proof -
  have t: "t \<notin> ready R" "t \<notin> set Z" "t \<notin> waiting W" using assms(2) by auto
  have "wn (thread_upd t f s) = (wn s)(t := wait_queue_next (f (threads s t)))" by (auto simp: wn_def)
  then have w: "waits_rep W (thread_upd t f s)"
    using assms(1) t(3) by (auto simp: queued_def waits_rep_def waiting_def)
  have "places_ok R Z W (threads (thread_upd t f s)) = places_ok R Z W (threads s)" using t by (intro places_cong) auto
  then show ?thesis
    using assms(1,3) w queues_rep_other [OF _ t(1,2), of s f] by (auto simp: queued_def env_ok_def cr3_ok_def)
qed

lemma relinked_queued:
  assumes "queued R Z W s" and "relinked s (threads s) s'" and "queues_rep R' Z s'" and "\<And>p. p < 5 \<Longrightarrow> set (R' p) \<subseteq> set (R p)"
  shows "queued R' Z W s'"
proof -
  note r = relinked_fields [OF assms(2)]
  note c = core_fields [OF r(13)]
  have "wn s' = wn s" using c(14) by (simp add: wn_def)
  then have w: "waits_rep W s'" using assms(1) r(7) waits_rep_cong [of s' s W] by (simp add: queued_def)
  have sub: "ready R' \<subseteq> ready R" using assms(4) by (auto simp: ready_def)
  have "places_ok R Z W (threads s')" using assms(1) c(1-3) by (subst places_cong) (auto simp: queued_def)
  then have "places_ok R' Z W (threads s')" using assms(4) by (fastforce simp: places_ok_def)
  then show ?thesis
    using assms(1,3) w r c(2) sub by (auto simp: queued_def env_ok_def cr3_ok_def disj_waits_def)
qed

lemma queued_fields [simp]:
  "queued R Z W (s\<lparr>cpu_ops := ops\<rparr>) = queued R Z W s" "queued R Z W (s\<lparr>sched_timer := tm\<rparr>) = queued R Z W s"
  "x \<noteq> 0 \<Longrightarrow> g_current_thread s \<noteq> 0 \<Longrightarrow> queued R Z W (s\<lparr>g_current_thread := x\<rparr>) = queued R Z W s"
  by (simp_all add: queued_def env_ok_def cr3_ok_def waits_rep_def wn_def)

lemma queued_disjoint:
  assumes "queued R Z W s"
  shows "ready R \<inter> set Z = {}" and "ready R \<inter> waiting W = {}" and "set Z \<inter> waiting W = {}" and "0 \<notin> ready R \<union> set Z \<union> waiting W"
proof -
  have q: "queues_rep R Z s" "disj_waits (ready R \<union> set Z) W" "waits_rep W s" using assms by (simp_all add: queued_def)
  show "ready R \<inter> set Z = {}" using q(1) by (auto simp: queues_rep_def disj_queues_def ready_def)
  show "ready R \<inter> waiting W = {}" "set Z \<inter> waiting W = {}" using q(2) by (auto simp: disj_waits_def)
  have "0 \<notin> set Z" using q(1) seg_nonzero by (auto simp: queues_rep_def)
  moreover have "0 \<notin> waiting W" using q(3) seg_nonzero by (fastforce simp: waits_rep_def waiting_def)
  ultimately show "0 \<notin> ready R \<union> set Z \<union> waiting W" using ready_nonzero [OF q(1)] by simp
qed

lemma place_state:
  assumes "queued R Z W s"
  shows "t \<in> ready R \<Longrightarrow> th_state (threads s t) = THREAD_STATE_READY" and "t \<in> set Z \<Longrightarrow> th_state (threads s t) = THREAD_STATE_SLEEPING"
    and "t \<in> waiting W \<Longrightarrow> th_state (threads s t) = THREAD_STATE_BLOCKED"
    and "t \<in> ready R \<union> set Z \<union> waiting W \<Longrightarrow> priority (threads s t) < 5"
  using queued_locks(5) [OF assms] by (auto simp: places_ok_def ready_def)

text \<open>The same thread runs, and outside of \<open>A\<close> nothing but links changed.\<close>

definition kept :: "u64 set \<Rightarrow> sched_state \<Rightarrow> sched_state \<Rightarrow> bool" where
  "kept A s s' \<longleftrightarrow> g_current_thread s' = g_current_thread s \<and> g_idle_thread s' = g_idle_thread s \<and> sched_timer s' = sched_timer s \<and>
     (\<forall>u. u \<notin> A \<longrightarrow> core (threads s' u) = core (threads s u))"

lemma kept_refl [simp]: "kept A s s"
  by (simp add: kept_def)

lemma kept_trans: "kept A s s' \<Longrightarrow> kept B s' s'' \<Longrightarrow> kept (A \<union> B) s s''"
  by (simp add: kept_def)

lemma kept_mono: "kept A s s' \<Longrightarrow> A \<subseteq> B \<Longrightarrow> kept B s s'"
  by (auto simp: kept_def)

lemma kept_relinked: "relinked s c s' \<Longrightarrow> (\<And>u. u \<notin> A \<Longrightarrow> core (c u) = core (threads s u)) \<Longrightarrow> kept A s s'"
  using relinked_fields by (auto simp: kept_def)

lemma kept_running:
  assumes "running R Z W s" and "kept A s s'" and "g_current_thread s \<notin> A \<union> ready R' \<union> set Z' \<union> waiting W'"
  shows "running R' Z' W' s'"
proof -
  have "core (threads s' (g_current_thread s)) = core (threads s (g_current_thread s))" using assms(2,3) by (simp add: kept_def)
  from core_fields(1,2) [OF this] show ?thesis using assms by (simp add: running_def kept_def Let_def)
qed

section \<open>Sleeping and waking up\<close>

lemma sleep_position_eq:
  assumes "chain (nx s) e (e # ys)" and "\<not> w < wake_tick (threads s e)"
  shows "\<exists>us p vs. sleep_position w e s = Some p \<and> e # ys = us @ p # vs \<and>
    wake_tick (threads s p) \<le> w \<and> (vs \<noteq> [] \<longrightarrow> w < wake_tick (threads s (hd vs)))"
  using assms
proof (induction ys arbitrary: e)
  case Nil
  then show ?case by (intro exI [of _ "[]"] exI [of _ e] exI [of _ "[]"]) (simp add: sleep_position.simps nx_def not_less)
next
  case (Cons y ys)
  have y: "sched_next (threads s e) = y" "y \<noteq> 0" "chain (nx s) y (y # ys)" using Cons.prems(1) by (auto simp: nx_def)
  show ?case
  proof (cases "w < wake_tick (threads s y)")
    case True
    then have "sleep_position w e s = Some e" using y not_le [THEN iffD2, OF True] by (subst sleep_position.simps) (auto simp: Let_def)
    then show ?thesis using True Cons.prems(2) by (intro exI [of _ "[]"] exI [of _ e] exI [of _ "y # ys"]) (simp add: not_less)
  next
    case False
    then have "sleep_position w e s = sleep_position w y s" using y by (subst sleep_position.simps) (simp add: Let_def not_less)
    moreover obtain us p vs where "sleep_position w y s = Some p" "y # ys = us @ p # vs" "wake_tick (threads s p) \<le> w"
      "vs \<noteq> [] \<longrightarrow> w < wake_tick (threads s (hd vs))" using Cons.IH [OF y(3) False] by blast
    ultimately show ?thesis by (intro exI [of _ "e # us"] exI [of _ p] exI [of _ vs]) auto
  qed
qed

lemma queues_rep_sleep:
  assumes "queues_rep R Z s" and "chain (nx s') (g_sleep_queue s') Z'" and "distinct Z'" and "set Z' \<inter> ready R = {}"
    and "\<And>x. x \<in> ready R \<Longrightarrow> nx s' x = nx s x" and "pv s' = pv s" and "g_run_queues s' = g_run_queues s"
  shows "queues_rep R Z' s'"
proof -
  have "dll (nx s') (pv s') (g_run_queues s' p) (R p)" if "p < 5" for p
    using assms(1,5-7) that by (subst dll_cong [of _ _ "nx s" _ "pv s"]) (auto simp: queues_rep_def ready_def)
  moreover have "disj_queues R Z'" using assms(1,4) by (auto simp: queues_rep_def disj_queues_def ready_def)
  ultimately show ?thesis using assms(2,3) by (simp add: queues_rep_def)
qed

abbreviation sorted_wakes :: "(u64 \<Rightarrow> thread) \<Rightarrow> u64 list \<Rightarrow> bool" where
  "sorted_wakes th \<equiv> sorted_wrt (\<lambda>a b. wake_tick (th a) \<le> wake_tick (th b))"

lemma sleep_insert_rep:
  assumes "queues_rep R Z s" and "c \<noteq> 0" and "c \<notin> ready R" and "c \<notin> set Z" and "sorted_wakes (threads s) Z"
  obtains Z' T Q where "sleep_insert c s = Some (s\<lparr>threads := T, g_sleep_queue := Q\<rparr>)"
    "queues_rep R Z' (s\<lparr>threads := T, g_sleep_queue := Q\<rparr>)" "set Z' = insert c (set Z)" "sorted_wakes (threads s) Z'"
    "\<And>u. core (T u) = core (threads s u)"
proof -
  have z: "chain (nx s) (g_sleep_queue s) Z" "distinct Z" "set Z \<inter> ready R = {}"
    using assms(1) by (auto simp: queues_rep_def disj_queues_def ready_def)
  let ?w = "wake_tick (threads s c)"
  show thesis
  proof (cases "g_sleep_queue s = 0 \<or> ?w < wake_tick (threads s (g_sleep_queue s))")
    case True
    let ?T = "(threads s)(c := (threads s c)\<lparr>sched_next := g_sleep_queue s\<rparr>)" and ?Z = "c # Z"
    let ?s = "s\<lparr>threads := ?T, g_sleep_queue := c\<rparr>"
    have n: "nx ?s = (nx s)(c := g_sleep_queue s)" "pv ?s = pv s" by (auto simp: nx_def pv_def)
    have "queues_rep R ?Z ?s"
      using z assms(2-4) by (intro queues_rep_sleep [OF assms(1)]) (auto simp: n)
    moreover have "sorted_wakes (threads s) ?Z"
    proof (cases Z)
      case (Cons x xs)
      then have "?w < wake_tick (threads s x)" using True z(1) by auto
      then show ?thesis using assms(5) Cons by (auto intro: order_trans less_imp_le)
    qed simp
    ultimately show ?thesis
      using True by (intro that [of c ?T ?Z]) (auto simp: sleep_insert_def thread_upd_def core_def)
  next
    case False
    then obtain ys where Z: "Z = g_sleep_queue s # ys" using chain_hd [OF z(1)] by blast
    then obtain us p vs where p: "sleep_position ?w (g_sleep_queue s) s = Some p" "Z = us @ p # vs" "wake_tick (threads s p) \<le> ?w"
      "vs \<noteq> [] \<longrightarrow> ?w < wake_tick (threads s (hd vs))"
      using sleep_position_eq [of s "g_sleep_queue s" ys ?w] z(1) False by auto
    let ?T = "(threads s)(c := (threads s c)\<lparr>sched_next := nx s p\<rparr>, p := (threads s p)\<lparr>sched_next := c\<rparr>)" and ?Z = "us @ p # c # vs"
    let ?s = "s\<lparr>threads := ?T, g_sleep_queue := g_sleep_queue s\<rparr>"
    have pc: "p \<noteq> c" using p(2) assms(4) by auto
    have n: "nx ?s = (nx s)(c := nx s p, p := c)" "pv ?s = pv s" using pc by (auto simp: nx_def pv_def)
    have "chain (nx ?s) (g_sleep_queue ?s) ?Z"
      unfolding n using chain_insert_after [of "nx s" "g_sleep_queue s" us p vs c] z(1,2) p(2) assms(2,4) by simp
    moreover have "nx ?s x = nx s x" if "x \<in> ready R" for x using that n(1) assms(3) z(3) p(2) by auto
    ultimately have "queues_rep R ?Z ?s"
      using z(2,3) assms(3,4) p(2) n(2) by (intro queues_rep_sleep [OF assms(1)]) auto
    moreover have "sorted_wakes (threads s) ?Z"
    proof -
      have "wake_tick (threads s x) \<le> ?w" if "x \<in> set us" for x
        using that assms(5) p(2,3) by (auto simp: sorted_wrt_append intro: order_trans)
      moreover have "?w \<le> wake_tick (threads s x)" if "x \<in> set vs" for x
        using that assms(5) p(2,4) by (cases vs) (auto simp: sorted_wrt_append intro: order_trans less_imp_le)
      ultimately show ?thesis using assms(5) p(2,3) by (auto simp: sorted_wrt_append)
    qed
    moreover have "sleep_insert c s = Some ?s"
      using False p(1) pc by (simp add: sleep_insert_def thread_upd_def nx_def)
    ultimately show ?thesis
      using pc p(2) by (intro that [of "g_sleep_queue s" ?T ?Z]) (auto simp: core_def)
  qed
qed

lemma sleep_ok:
  assumes "sched_ok P s" and "g_current_thread s \<noteq> g_idle_thread s"
  shows "yields (thread_sleep_ticks n s) (sched_ok P)"
proof (cases "n = 0")
  case True
  then show ?thesis using assms(1) by (simp add: thread_sleep_ticks_def)
next
  case False
  let ?c = "g_current_thread s"
  obtain R Z W where q: "queued R Z W s" "running R Z W s" "population R Z W s = P" using assms(1) by (auto simp: sched_ok_def)
  note l = queued_locks [OF q(1)]
  have c: "?c \<notin> ready R" "?c \<notin> set Z" "?c \<notin> waiting W" "priority (threads s ?c) < 5" using q(2) by (simp_all add: running_def Let_def)
  let ?s1 = "thread_upd ?c (\<lambda>th. th\<lparr>wake_tick := ticks s + n, th_state := THREAD_STATE_SLEEPING\<rparr>) s"
  have q1: "queued R Z W ?s1" using queued_other [OF q(1)] c assms(2) by simp
  note l1 = queued_locks [OF q1]
  let ?s2 = "?s1\<lparr>g_sleep_lock := 1\<rparr>"
  have z2: "queues_rep R Z ?s2" "sorted_wakes (threads ?s2) Z" using l1(3,5) by (simp_all add: places_ok_def)
  obtain Z' T Q where i: "sleep_insert ?c ?s2 = Some (?s2\<lparr>threads := T, g_sleep_queue := Q\<rparr>)"
    "queues_rep R Z' (?s2\<lparr>threads := T, g_sleep_queue := Q\<rparr>)" "set Z' = insert ?c (set Z)" "sorted_wakes (threads ?s2) Z'"
    "\<And>u. core (T u) = core (threads ?s2 u)" using sleep_insert_rep [OF z2(1) l(7) c(1,2) z2(2)] by metis
  let ?s3 = "?s1\<lparr>threads := T, g_sleep_queue := Q\<rparr>"
  have t: "th_state (T u) = th_state (threads ?s1 u)" "priority (T u) = priority (threads ?s1 u)" "wake_tick (T u) = wake_tick (threads ?s1 u)"
    "wait_queue_next (T u) = wait_queue_next (threads ?s1 u)" for u using core_fields(1-3,14) [OF i(5)] by simp_all
  have "places_ok R Z W T = places_ok R Z W (threads ?s1)" by (rule places_cong) (simp only: t)
  then have "places_ok R Z W T" using l1(5) by simp
  moreover have "sorted_wakes T Z'" unfolding t(3) using i(4) by simp
  ultimately have pl: "places_ok R Z' W T" using i(3) t(1,2) [of ?c] c(4) by (auto simp: places_ok_def)
  have w: "waits_rep W ?s3" using l1(4) by (subst waits_rep_cong [of _ ?s1]) (simp_all add: wn_def t)
  have qr: "queues_rep R Z' ?s3"
    using i(2) by (simp add: queues_rep_def nx_def pv_def)
  have "disj_waits (ready R \<union> set Z') W" using l(6) i(3) c(3) by (auto simp: disj_waits_def)
  then have q3: "queued R Z' W ?s3" using q1 pl w qr i(3) assms(2) t(2) by (simp add: queued_def env_ok_def cr3_ok_def)
  have g: "giving_up R Z' W ?s3" using i(3) by (simp add: giving_up_def)
  have pop: "population R Z' W ?s3 = P" using q(3) i(3) by (auto simp: population_def)
  have "thread_sleep_ticks n s = scheduler_schedule ?s3"
    using False l(2,7) i(1)
    by (simp add: thread_sleep_ticks_def sleep_lock_def sleep_unlock_def) (simp add: thread_upd_def lock_same)
  then show ?thesis using schedule_ok [OF q3 g] pop by simp
qed

lemma wake_loop_ok:
  assumes "queued R Z W s"
  shows "\<exists>R' s'. wake_loop now (s\<lparr>g_sleep_lock := 1\<rparr>) = Some (s'\<lparr>g_sleep_lock := 1\<rparr>) \<and>
    queued R' (dropWhile (\<lambda>t. wake_tick (threads s t) \<le> now) Z) W s' \<and>
    ready R' = ready R \<union> set (takeWhile (\<lambda>t. wake_tick (threads s t) \<le> now) Z) \<and>
    kept (set (takeWhile (\<lambda>t. wake_tick (threads s t) \<le> now) Z)) s s'"
  using assms
proof (induction Z arbitrary: R s)
  case Nil
  then have "g_sleep_queue s = 0" using queued_locks(3) by (force simp: queues_rep_def)
  then show ?case using Nil by (subst wake_loop.simps) force
next
  case (Cons t Z)
  note l = queued_locks [OF Cons.prems]
  note d = queued_disjoint [OF Cons.prems]
  have t: "g_sleep_queue s = t" "t \<noteq> 0" "chain (nx s) (nx s t) Z" "t \<notin> set Z" "distinct Z"
    using l(3) by (auto simp: queues_rep_def)
  show ?case
  proof (cases "wake_tick (threads s t) \<le> now")
    case False
    then show ?thesis using t(1) Cons.prems by (subst wake_loop.simps) force
  next
    case True
    let ?s0 = "s\<lparr>g_sleep_queue := sched_next (threads s t)\<rparr>"
    let ?s1 = "thread_upd t (\<lambda>th. th\<lparr>sched_next := 0, th_state := THREAD_STATE_READY\<rparr>) ?s0"
    have "queues_rep R Z ?s0"
      using l(3) t d(1) by (intro queues_rep_sleep [OF l(3)]) (auto simp: nx_def pv_def)
    moreover have "places_ok R Z W (threads s)" "disj_waits (ready R \<union> set Z) W" using l(5,6) by (auto simp: places_ok_def disj_waits_def)
    moreover have "waits_rep W ?s0" using l(4) by (subst waits_rep_cong [of _ s]) (simp_all add: wn_def)
    ultimately have "queued R Z W ?s0" using Cons.prems by (simp add: queued_def env_ok_def cr3_ok_def)
    then have q1: "queued R Z W ?s1"
      by (rule queued_other) (use t d Cons.prems in \<open>auto simp: queued_def\<close>)
    have p: "priority (threads ?s1 t) < 5" using l(5) by (simp add: places_ok_def)
    obtain s2 where e: "scheduler_enqueue t ?s1 = Some s2" "queued (R(priority (threads ?s1 t) := t # R (priority (threads ?s1 t)))) Z W s2"
      "ready (R(priority (threads ?s1 t) := t # R (priority (threads ?s1 t)))) = insert t (ready R)"
      "relinked ?s1 ((threads ?s1)(t := (threads ?s1 t)\<lparr>th_state := THREAD_STATE_READY\<rparr>)) s2"
      by (rule enqueue_ok [OF q1 t(2) _ _ refl p]) (use t d in auto)
    have k: "kept {t} s s2" using kept_relinked [OF e(4), of "{t}"] by (auto simp: kept_def)
    have w: "wake_tick (threads s2 u) = wake_tick (threads s u)" if "u \<in> set Z" for u
      by (rule core_fields(3)) (use k that t(4) in \<open>auto simp: kept_def\<close>)
    have f: "dropWhile (\<lambda>t. wake_tick (threads s2 t) \<le> now) Z = dropWhile (\<lambda>t. wake_tick (threads s t) \<le> now) Z"
      "takeWhile (\<lambda>t. wake_tick (threads s2 t) \<le> now) Z = takeWhile (\<lambda>t. wake_tick (threads s t) \<le> now) Z"
      using w by (auto intro: dropWhile_cong takeWhile_cong)
    have "wake_loop now (s\<lparr>g_sleep_lock := 1\<rparr>) = wake_loop now (s2\<lparr>g_sleep_lock := 1\<rparr>)"
    proof -
      have "g_sleep_lock s2 = 0" using e(2) by (rule queued_locks)
      then show ?thesis using True t(1,2) e(1) l(2)
        by (subst wake_loop.simps) (simp add: sleep_unlock_def sleep_lock_def thread_upd_def Let_def lock_same)
    qed
    then show ?thesis using Cons.IH [OF e(2), unfolded e(3) f] True kept_trans [OF k] by (auto simp: Un_commute)
  qed
qed

lemma dropWhile_sorted:
  assumes "sorted_wakes th Z" and "t \<in> set (dropWhile (\<lambda>t. wake_tick (th t) \<le> now) Z)"
  shows "now < wake_tick (th t)"
  using assms by (induction Z) (auto split: if_splits intro: less_le_trans)

lemma wake_sleeping_ok:
  assumes "queued R Z W s"
  obtains R' Z' s' where "scheduler_wake_sleeping s = Some s'" "queued R' Z' W s'" "ready R' \<union> set Z' = ready R \<union> set Z"
    "kept (set Z) s s'" "\<And>t. t \<in> set Z' \<Longrightarrow> ticks s < wake_tick (threads s' t)"
proof -
  let ?d = "\<lambda>t. wake_tick (threads s t) \<le> ticks s"
  note l = queued_locks [OF assms]
  obtain R' s' where w: "wake_loop (ticks s) (s\<lparr>g_sleep_lock := 1\<rparr>) = Some (s'\<lparr>g_sleep_lock := 1\<rparr>)"
    "queued R' (dropWhile ?d Z) W s'" "ready R' = ready R \<union> set (takeWhile ?d Z)" "kept (set (takeWhile ?d Z)) s s'"
    using wake_loop_ok [OF assms, of "ticks s"] by blast
  have "g_sleep_lock s' = 0" using queued_locks(2) [OF w(2)] .
  then have "scheduler_wake_sleeping s = Some s'"
    using l(2) w(1) by (simp add: scheduler_wake_sleeping_def sleep_lock_def sleep_unlock_def lock_same)
  moreover have "set (takeWhile ?d Z) \<union> set (dropWhile ?d Z) = set Z" by (metis set_append takeWhile_dropWhile_id)
  moreover have "ticks s < wake_tick (threads s' t)" if "t \<in> set (dropWhile ?d Z)" for t
  proof -
    have n: "ticks s < wake_tick (threads s t)" using dropWhile_sorted [OF _ that] l(5) by (simp add: places_ok_def)
    then have "t \<notin> set (takeWhile ?d Z)" by (meson set_takeWhileD leD)
    then have "core (threads s' t) = core (threads s t)" using w(4) by (simp add: kept_def)
    from core_fields(3) [OF this] show ?thesis using n by simp
  qed
  moreover have "kept (set Z) s s'" using w(4) by (rule kept_mono) (auto dest: set_takeWhileD)
  ultimately show thesis using that w(2,3) by (metis Un_assoc)
qed

text \<open>No sleeper is late.\<close>

definition none_late :: "u64 set \<Rightarrow> u64 \<Rightarrow> sched_state \<Rightarrow> bool" where
  "none_late P now s \<longleftrightarrow> (\<forall>t \<in> P - {g_idle_thread s}. th_state (threads s t) = THREAD_STATE_SLEEPING \<longrightarrow> now < wake_tick (threads s t))"

lemma sched_ok_wake:
  assumes "sched_ok P s"
  obtains s' where "scheduler_wake_sleeping s = Some s'" "sched_ok P s'" "g_current_thread s' = g_current_thread s"
    "g_idle_thread s' = g_idle_thread s" "sched_timer s' = sched_timer s" "none_late P (ticks s) s'"
proof -
  obtain R Z W where q: "queued R Z W s" "running R Z W s" "population R Z W s = P" using assms by (auto simp: sched_ok_def)
  obtain R' Z' s' where w: "scheduler_wake_sleeping s = Some s'" "queued R' Z' W s'" "ready R' \<union> set Z' = ready R \<union> set Z"
    "kept (set Z) s s'" "\<And>t. t \<in> set Z' \<Longrightarrow> ticks s < wake_tick (threads s' t)"
    using wake_sleeping_ok [OF q(1)] by metis
  have k: "g_current_thread s' = g_current_thread s" "g_idle_thread s' = g_idle_thread s" "sched_timer s' = sched_timer s"
    using w(4) by (simp_all add: kept_def)
  have "running R' Z' W s'" by (rule kept_running [OF q(2) w(4)]) (use q(2) w(3) in \<open>auto simp: running_def Let_def\<close>)
  moreover have pop: "population R' Z' W s' = P" using q(3) w(3) k by (auto simp: population_def)
  moreover have "ticks s < wake_tick (threads s' t)" if "t \<in> P" "th_state (threads s' t) = THREAD_STATE_SLEEPING" "t \<noteq> g_idle_thread s" for t
  proof -
    have "t \<notin> ready R' \<and> t \<notin> waiting W \<and> t \<noteq> g_current_thread s'"
      using that(2) place_state(1,3) [OF w(2), of t] \<open>running R' Z' W s'\<close> by (auto simp: running_def Let_def)
    then show ?thesis using that(1,3) pop k(2) w(5) by (auto simp: population_def)
  qed
  ultimately have "sched_ok P s'" "none_late P (ticks s) s'" using w(2) k(2) by (auto simp: sched_ok_def none_late_def)
  then show thesis using that [OF w(1) _ k] by blast
qed

end
