(* ===== verification/Thread_Aging.thy ===== *)
theory Thread_Aging
  imports Thread_Correct
begin

text \<open>
  The aging pass of \<^verbatim>\<open>scheduler_tick\<close>: a thread that waited longer than the threshold moves to the
  highest queue, and every other thread stays where it is.
\<close>

section \<open>Aging\<close>

definition aged :: "u64 \<Rightarrow> thread \<Rightarrow> bool" where
  "aged now th \<longleftrightarrow> \<not> is_boosted th \<and> THREAD_AGING_THRESHOLD \<le> now - wait_start_tick th"

lemma scheduler_lock_commute:
  "thread_upd t f (s\<lparr>g_scheduler_lock := l\<rparr>) = (thread_upd t f s)\<lparr>g_scheduler_lock := l\<rparr>"
  "run_queue_upd p t (s\<lparr>g_scheduler_lock := l\<rparr>) = (run_queue_upd p t s)\<lparr>g_scheduler_lock := l\<rparr>"
  "clear_links t (s\<lparr>g_scheduler_lock := l\<rparr>) = (clear_links t s)\<lparr>g_scheduler_lock := l\<rparr>"
  by (simp_all add: thread_upd_def run_queue_upd_def clear_links_def)

lemma unlink_lock: "unlink p t (s\<lparr>g_scheduler_lock := l\<rparr>) = (unlink p t s)\<lparr>g_scheduler_lock := l\<rparr>"
  by (simp add: unlink_def Let_def scheduler_lock_commute)

lemma boost_unfold:
  "boost_thread now p t s = (let s = unlink p t s;
          s = thread_upd t (\<lambda>th. th\<lparr>priority := THREAD_PRIORITY_UI, is_boosted := True, wait_start_tick := now\<rparr>) s;
          s = thread_upd t (\<lambda>th. th\<lparr>sched_prev := 0, sched_next := g_run_queues s THREAD_PRIORITY_UI\<rparr>) s;
          s = (if g_run_queues s THREAD_PRIORITY_UI \<noteq> 0
               then thread_upd (g_run_queues s THREAD_PRIORITY_UI) (sched_prev_update (\<lambda>_. t)) s else s)
      in run_queue_upd THREAD_PRIORITY_UI t s)"
  by (simp only: boost_thread_def unlink_def Let_def)

lemma boost_lock: "boost_thread now p t (s\<lparr>g_scheduler_lock := l\<rparr>) = (boost_thread now p t s)\<lparr>g_scheduler_lock := l\<rparr>"
  by (simp add: boost_unfold unlink_lock Let_def scheduler_lock_commute)

lemma state_same: "th_state th = st \<Longrightarrow> th\<lparr>th_state := st\<rparr> = th"
  by simp

lemma boost_eq:
  assumes "t \<noteq> 0" and "th_state (threads (unlink p t s) t) = THREAD_STATE_READY"
  shows "boost_thread now p t s = scheduler_enqueue_nolock t (thread_upd t (\<lambda>th. th\<lparr>priority := THREAD_PRIORITY_UI, is_boosted := True, wait_start_tick := now\<rparr>) (unlink p t s))"
proof -
  obtain u where u: "unlink p t s = u" by blast
  show ?thesis using assms unfolding boost_unfold u
    by (auto simp: scheduler_enqueue_nolock_def Let_def thread_upd_def run_queue_upd_def queue_index_def c_defs fun_eq_iff state_same)
qed

lemma ready_unlink:
  assumes "queues_rep R Z s" and "p < 5" and "R p = xs @ t # ys"
  shows "t \<notin> ready (R(p := xs @ ys))" and "ready R = insert t (ready (R(p := xs @ ys)))"
proof -
  have "distinct (R p)" using assms(1,2) by (simp add: queues_rep_def dll_def)
  moreover have "t \<notin> set (R q)" if "q < 5" "q \<noteq> p" for q using assms that unfolding queues_rep_def disj_queues_def by fastforce
  ultimately show "t \<notin> ready (R(p := xs @ ys))" using assms(2,3) ready_upd [OF assms(2), of R "xs @ ys"] by auto
  show "ready R = insert t (ready (R(p := xs @ ys)))" using ready_upd [OF assms(2), of R] ready_split [OF assms(2), of R] assms(3) by auto
qed

lemma boost_ok:
  fixes now :: u64
  assumes "queued R Z W s" and "p < 4" and "R p = xs @ t # ys"
  defines "R' \<equiv> R(p := xs @ ys, 4 := t # R 4)" and "s' \<equiv> boost_thread now p t s"
  shows "queued R' Z W s'" and "ready R' = ready R" and "kept {t} s s'"
proof -
  note l = queued_locks [OF assms(1)]
  note d = queued_disjoint [OF assms(1)]
  let ?R = "R(p := xs @ ys)" and ?s1 = "unlink p t s"
  have p5: "p < 5" using assms(2) by simp
  note u = unlink_rep [OF l(3) p5 assms(3)]
  have q1: "queued ?R Z W ?s1" by (rule relinked_queued [OF assms(1) u(3,2)]) (auto simp: assms(3))
  note rd = ready_unlink [OF l(3) p5 assms(3)]
  have tp: "t \<notin> ready ?R \<union> set Z \<union> waiting W" using rd d by blast
  have st: "th_state (threads ?s1 t) = THREAD_STATE_READY"
    using core_fields(1) [OF relinked_fields(13) [OF u(3)], of t] l(5) p5 assms(3) by (auto simp: places_ok_def)
  let ?s2 = "thread_upd t (\<lambda>th. th\<lparr>priority := THREAD_PRIORITY_UI, is_boosted := True, wait_start_tick := now\<rparr>) ?s1"
  have q2: "queued ?R Z W ?s2" using queued_other [OF q1 tp] by (simp add: c_defs)
  have p2: "priority (threads ?s2 t) = 4" by (simp add: c_defs)
  obtain s3 where e: "scheduler_enqueue t ?s2 = Some s3" "queued (?R(4 := t # ?R 4)) Z W s3" "ready (?R(4 := t # ?R 4)) = insert t (ready ?R)"
    "relinked ?s2 ((threads ?s2)(t := (threads ?s2 t)\<lparr>th_state := THREAD_STATE_READY\<rparr>)) s3"
    by (rule enqueue_ok [OF q2 u(5) tp _ p2]) (use st in simp_all)
  have "s3 = s'" using boost_eq [OF u(5) st] enqueue_locked_eq [of ?s2 t] queued_locks(1) [OF q2] e(1) by (simp add: s'_def)
  moreover have "?R(4 := t # ?R 4) = R'" using assms(2) by (simp add: R'_def)
  ultimately show "queued R' Z W s'" "ready R' = ready R" using e(2,3) rd(2) by simp_all
  have "kept {t} s ?s1" using kept_relinked [OF u(3)] by simp
  moreover have "kept {t} ?s1 s3" using kept_relinked [OF e(4), of "{t}"] by (auto simp: kept_def)
  ultimately show "kept {t} s s'" using kept_trans [of "{t}" s ?s1 "{t}" s3] \<open>s3 = s'\<close> by simp
qed

lemma aging_walk_ok:
  assumes "queued R Z W s" and "p < 4" and "R p = xs @ ys" and "\<And>u. u \<in> set xs \<Longrightarrow> \<not> aged now (threads s u)"
  shows "\<exists>R' s'. aging_walk now p (if ys = [] then 0 else hd ys) (s\<lparr>g_scheduler_lock := l\<rparr>) = Some (s'\<lparr>g_scheduler_lock := l\<rparr>) \<and>
    queued R' Z W s' \<and> ready R' = ready R \<and> kept (set ys) s s' \<and> (\<forall>u \<in> set (R' p). \<not> aged now (threads s' u)) \<and> (\<forall>q<4. q \<noteq> p \<longrightarrow> R' q = R q)"
  using assms
proof (induction ys arbitrary: R s xs)
  case Nil
  then show ?case by (subst aging_walk.simps) force
next
  case (Cons t ys)
  note l = queued_locks [OF Cons.prems(1)]
  have p5: "p < 5" using Cons.prems(2) by simp
  have dl: "dll (nx s) (pv s) (g_run_queues s p) (xs @ t # ys)" using l(3) p5 Cons.prems(3) by (auto simp: queues_rep_def)
  note n = dll_neighbours [OF dl]
  have nxt: "sched_next (threads s t) = (if ys = [] then 0 else hd ys)" using n(2) by (simp add: nx_def)
  have dist: "t \<notin> set ys" "t \<notin> set xs" "set xs \<inter> set ys = {}" using dl by (auto simp: dll_def)
  show ?case
  proof (cases "aged now (threads s t)")
    case True
    let ?s = "boost_thread now p t s" and ?R = "R(p := xs @ ys, 4 := t # R 4)"
    note b = boost_ok(1) [OF Cons.prems(1-3), of now] boost_ok(2) [OF Cons.prems(1-3)] boost_ok(3) [OF Cons.prems(1-3), of now]
    have "\<not> aged now (threads ?s u)" if "u \<in> set xs" for u
    proof -
      have "core (threads ?s u) = core (threads s u)" using b(3) that dist(2) by (auto simp: kept_def)
      from core_fields(4,5) [OF this] show ?thesis using Cons.prems(4) [OF that] by (simp add: aged_def)
    qed
    moreover have "?R p = xs @ ys" using Cons.prems(2) by simp
    ultimately obtain R' s' where i: "aging_walk now p (if ys = [] then 0 else hd ys) (?s\<lparr>g_scheduler_lock := l\<rparr>) = Some (s'\<lparr>g_scheduler_lock := l\<rparr>)"
      "queued R' Z W s'" "ready R' = ready ?R" "kept (set ys) ?s s'" "\<forall>u \<in> set (R' p). \<not> aged now (threads s' u)" "\<forall>q<4. q \<noteq> p \<longrightarrow> R' q = ?R q"
      using Cons.IH [OF b(1) Cons.prems(2)] by blast
    have "aging_walk now p t (s\<lparr>g_scheduler_lock := l\<rparr>) = Some (s'\<lparr>g_scheduler_lock := l\<rparr>)"
      using True i(1) n(6) nxt by (subst aging_walk.simps) (simp add: aged_def boost_lock)
    moreover have "kept (set (t # ys)) s s'" using kept_trans [OF b(3) i(4)] by simp
    ultimately show ?thesis using i(2,3,5,6) b(2) by (intro exI [of _ R'] exI [of _ s']) simp
  next
    case False
    then have x: "\<not> aged now (threads s u)" if "u \<in> set (xs @ [t])" for u using Cons.prems(4) that by auto
    have R: "R p = (xs @ [t]) @ ys" using Cons.prems(3) by simp
    have "aging_walk now p t (s\<lparr>g_scheduler_lock := l\<rparr>) = aging_walk now p (if ys = [] then 0 else hd ys) (s\<lparr>g_scheduler_lock := l\<rparr>)"
      using False n(6) nxt by (subst aging_walk.simps) (auto simp: aged_def)
    moreover obtain R' s' where i: "aging_walk now p (if ys = [] then 0 else hd ys) (s\<lparr>g_scheduler_lock := l\<rparr>) = Some (s'\<lparr>g_scheduler_lock := l\<rparr>)"
      "queued R' Z W s'" "ready R' = ready R" "kept (set ys) s s'" "\<forall>u \<in> set (R' p). \<not> aged now (threads s' u)" "\<forall>q<4. q \<noteq> p \<longrightarrow> R' q = R q"
      using Cons.IH [OF Cons.prems(1,2) R x] by blast
    moreover have "kept (set (t # ys)) s s'" using i(4) by (rule kept_mono) auto
    ultimately show ?thesis by (intro exI [of _ R'] exI [of _ s']) simp
  qed
qed

lemma aging_loop_ok:
  assumes "queued R Z W s" and "set ps \<subseteq> {..<4}" and "D \<subseteq> {..<4}" and "distinct ps" and "D \<inter> set ps = {}"
    and "\<forall>q \<in> D. \<forall>u \<in> set (R q). \<not> aged now (threads s u)"
  shows "\<exists>R' s'. aging_loop now ps (s\<lparr>g_scheduler_lock := l\<rparr>) = Some (s'\<lparr>g_scheduler_lock := l\<rparr>) \<and>
    queued R' Z W s' \<and> ready R' = ready R \<and> kept (ready R) s s' \<and> (\<forall>q \<in> D \<union> set ps. \<forall>u \<in> set (R' q). \<not> aged now (threads s' u))"
  using assms
proof (induction ps arbitrary: R s D)
  case Nil
  then show ?case by fastforce
next
  case (Cons p ps)
  have p: "p < 4" "p < 5" "p \<notin> D" using Cons.prems(2,5) by auto
  have "dll (nx s) (pv s) (g_run_queues s p) (R p)" using queued_locks(3) [OF Cons.prems(1)] p(2) by (simp add: queues_rep_def)
  then have h: "g_run_queues s p = (if R p = [] then 0 else hd (R p))" by (cases "R p") (auto simp: dll_def)
  obtain R1 s1 where w: "aging_walk now p (g_run_queues s p) (s\<lparr>g_scheduler_lock := l\<rparr>) = Some (s1\<lparr>g_scheduler_lock := l\<rparr>)"
    "queued R1 Z W s1" "ready R1 = ready R" "kept (set (R p)) s s1" "\<forall>u \<in> set (R1 p). \<not> aged now (threads s1 u)" "\<forall>q<4. q \<noteq> p \<longrightarrow> R1 q = R q"
    using aging_walk_ok [OF Cons.prems(1) p(1), of "[]" "R p" now l] unfolding h by auto
  have a: "\<not> aged now (threads s1 u)" if "q \<in> insert p D" "u \<in> set (R1 q)" for q u
  proof (cases "q = p")
    case False
    then have q: "q < 5" "u \<in> set (R q)" "\<not> aged now (threads s u)" using that w(6) Cons.prems(3,6) by force+
    have "u \<notin> set (R p)" using queued_locks(3) [OF Cons.prems(1)] q(1,2) p(2) False unfolding queues_rep_def disj_queues_def by blast
    then have "core (threads s1 u) = core (threads s u)" using w(4) by (simp add: kept_def)
    from core_fields(4,5) [OF this] show ?thesis using q(3) by (simp add: aged_def)
  qed (use w(5) that in simp)
  have a': "\<forall>q \<in> insert p D. \<forall>u \<in> set (R1 q). \<not> aged now (threads s1 u)" using a by blast
  have sub: "set ps \<subseteq> {..<4}" "insert p D \<subseteq> {..<4}" "distinct ps" "insert p D \<inter> set ps = {}" using Cons.prems(2-5) by auto
  obtain R' s' where i: "aging_loop now ps (s1\<lparr>g_scheduler_lock := l\<rparr>) = Some (s'\<lparr>g_scheduler_lock := l\<rparr>)"
    "queued R' Z W s'" "ready R' = ready R1" "kept (ready R1) s1 s'" "\<forall>q \<in> insert p D \<union> set ps. \<forall>u \<in> set (R' q). \<not> aged now (threads s' u)"
    using Cons.IH [OF w(2) sub a'] by blast
  have "kept (ready R) s s'"
    by (rule kept_mono [OF kept_trans [OF w(4) i(4)]]) (use w(3) p(2) in \<open>auto simp: ready_def\<close>)
  then show ?case using w(1,3) i by (intro exI [of _ R'] exI [of _ s']) auto
qed

end
