(* ===== verification/Thread_Steps.thy ===== *)
theory Thread_Steps
  imports Thread_Aging
begin

text \<open>
  The timer interrupt, preemption and the wait queues, and then all operations together: whatever
  sequence of them runs, every operation returns, every thread keeps its place, and no thread is lost.
\<close>

section \<open>The timer interrupt\<close>

lemma sched_ok_neutral: "neutral f \<Longrightarrow> sched_ok P (thread_upd t f s) = sched_ok P s"
  by (simp add: sched_ok_def neutral_keeps)

lemma sched_okD:
  assumes "sched_ok P s"
  shows "g_scheduler_lock s = 0" "g_sleep_lock s = 0" "g_scheduler_active s" "g_current_thread s \<noteq> 0" "wq_lock (queues s q) = 0"
    "g_current_thread s \<in> P" "g_idle_thread s \<in> P"
  using assms by (auto simp: sched_ok_def queued_def env_ok_def waits_rep_def population_def)

lemma sched_ok_fields [simp]:
  "sched_ok P (s\<lparr>cpu_ops := ops\<rparr>) = sched_ok P s" "sched_ok P (s\<lparr>sched_timer := tm\<rparr>) = sched_ok P s"
  by (simp_all add: sched_ok_def running_def population_def)

text \<open>No thread waits longer than the threshold below the highest queue.\<close>

definition none_starved :: "u64 set \<Rightarrow> u64 \<Rightarrow> sched_state \<Rightarrow> bool" where
  "none_starved P now s \<longleftrightarrow> (\<forall>t \<in> P - {g_idle_thread s}. th_state (threads s t) = THREAD_STATE_READY \<and> aged now (threads s t) \<longrightarrow>
     priority (threads s t) = THREAD_PRIORITY_UI)"

lemma none_late_neutral: "neutral f \<Longrightarrow> none_late P now (thread_upd t f s) = none_late P now s"
  by (auto simp: none_late_def neutral_def)

lemma aging_ok:
  assumes "sched_ok P s" and "none_late P now s"
  obtains s' where "aging_loop now [THREAD_PRIORITY_IDLE..<THREAD_PRIORITY_UI] (s\<lparr>g_scheduler_lock := 1\<rparr>) = Some (s'\<lparr>g_scheduler_lock := 1\<rparr>)"
    "sched_ok P s'" "none_late P now s'" "none_starved P now s'"
proof -
  obtain R Z W where q: "queued R Z W s" "running R Z W s" "population R Z W s = P" using assms(1) by (auto simp: sched_ok_def)
  have ps: "[THREAD_PRIORITY_IDLE..<THREAD_PRIORITY_UI] = [0..<4]" by (simp add: c_defs)
  obtain R' s' where a: "aging_loop now [0..<4] (s\<lparr>g_scheduler_lock := 1\<rparr>) = Some (s'\<lparr>g_scheduler_lock := 1\<rparr>)"
    "queued R' Z W s'" "ready R' = ready R" "kept (ready R) s s'" "\<forall>q \<in> {} \<union> set [0..<4]. \<forall>u \<in> set (R' q). \<not> aged now (threads s' u)"
    using aging_loop_ok [OF q(1), of "[0..<4]" "{}" now 1] by (auto simp: lessThan_atLeast0)
  have k: "g_current_thread s' = g_current_thread s" "g_idle_thread s' = g_idle_thread s" using a(4) by (simp_all add: kept_def)
  have r: "running R' Z W s'" by (rule kept_running [OF q(2) a(4)]) (use q(2) a(3) in \<open>auto simp: running_def Let_def\<close>)
  have pop: "population R' Z W s' = P" using q(3) a(3) k by (auto simp: population_def)
  have ok: "sched_ok P s'" using a(2) r pop by (auto simp: sched_ok_def)
  have "now < wake_tick (threads s' t)" if "t \<in> P" "t \<noteq> g_idle_thread s'" "th_state (threads s' t) = THREAD_STATE_SLEEPING" for t
  proof -
    have "t \<notin> ready R" using place_state(1) [OF a(2), of t] a(3) that(3) by auto
    then have c: "core (threads s' t) = core (threads s t)" using a(4) by (simp add: kept_def)
    from core_fields(1,3) [OF c] show ?thesis using assms(2) that k by (auto simp: none_late_def)
  qed
  then have late: "none_late P now s'" by (simp add: none_late_def)
  have "priority (threads s' t) = THREAD_PRIORITY_UI"
    if "t \<in> P" "t \<noteq> g_idle_thread s'" "th_state (threads s' t) = THREAD_STATE_READY" "aged now (threads s' t)" for t
  proof -
    have "t \<noteq> g_current_thread s'" using r that(3) by (auto simp: running_def Let_def)
    moreover have "t \<notin> set Z" "t \<notin> waiting W" using place_state(2,3) [OF a(2), of t] that(3) by auto
    ultimately have "t \<in> ready R'" using that(1,2) pop by (auto simp: population_def)
    then obtain p where p: "p < 5" "t \<in> set (R' p)" by (auto simp: ready_def)
    then have "\<not> p < 4" using a(5) that(4) by auto
    then show ?thesis using p queued_locks(5) [OF a(2)] by (auto simp: places_ok_def c_defs)
  qed
  then have "none_starved P now s'" by (simp add: none_starved_def)
  then show thesis using that [OF _ ok late] a(1) ps by simp
qed

lemma tick_ok:
  assumes "sched_ok P s"
  shows "yields (scheduler_tick s) (\<lambda>s'. sched_ok P s' \<and> none_late P (ticks s) s' \<and> none_starved P (ticks s) s')"
proof -
  note d = sched_okD [OF assms]
  let ?c = "g_current_thread s"
  let ?s1 = "if ?c \<noteq> g_idle_thread s then thread_upd ?c (\<lambda>t. t\<lparr>cpu_ticks := cpu_ticks t + 1\<rparr>) s else s"
  have s1: "sched_ok P ?s1" using assms by (simp add: sched_ok_neutral neutral_def)
  have f1: "g_current_thread ?s1 = ?c" "ticks ?s1 = ticks s" "g_idle_thread ?s1 = g_idle_thread s" by simp_all
  obtain s2 where s2: "scheduler_wake_sleeping ?s1 = Some s2" "sched_ok P s2" "g_current_thread s2 = g_current_thread ?s1"
    "g_idle_thread s2 = g_idle_thread ?s1" "sched_timer s2 = sched_timer ?s1" "none_late P (ticks ?s1) s2"
    by (rule sched_ok_wake [OF s1])
  have n2: "none_late P (ticks s) s2" using s2(6) unfolding f1(2) .
  have "check_thread_timeouts s2 = Some s2"
    using sched_okD(1) [OF s2(2)] by (simp add: check_thread_timeouts_def scheduler_locked_def lock_same)
  let ?s3 = "if g_current_thread s2 \<noteq> g_idle_thread s2 \<and> time_slice_remaining (threads s2 (g_current_thread s2)) > 0
                 then thread_upd (g_current_thread s2) (\<lambda>t. t\<lparr>time_slice_remaining := time_slice_remaining t - 1\<rparr>) s2 else s2"
  let ?s4 = "if time_slice_remaining (threads ?s3 (g_current_thread ?s3)) = 0 \<and> g_current_thread ?s3 \<noteq> g_idle_thread ?s3
                 then thread_upd (g_current_thread ?s3) (preempt_pending_update (\<lambda>_. True)) ?s3 else ?s3"
  have s3: "sched_ok P ?s3" "none_late P (ticks s) ?s3" using s2(2) n2 by (simp_all add: sched_ok_neutral none_late_neutral neutral_def)
  then have s4: "sched_ok P ?s4" "none_late P (ticks s) ?s4" by (simp_all add: sched_ok_neutral none_late_neutral neutral_def)
  obtain s5 where s5: "aging_loop (ticks s) [THREAD_PRIORITY_IDLE..<THREAD_PRIORITY_UI] (?s4\<lparr>g_scheduler_lock := 1\<rparr>) = Some (s5\<lparr>g_scheduler_lock := 1\<rparr>)"
    "sched_ok P s5" "none_late P (ticks s) s5" "none_starved P (ticks s) s5" by (rule aging_ok [OF s4])
  have "scheduler_tick s = Some s5"
    unfolding scheduler_tick_def Let_def using d(3,4) s2(1) \<open>check_thread_timeouts s2 = Some s2\<close> sched_okD(1) [OF s4(1)] s5(1) sched_okD(1) [OF s5(2)]
    by (simp add: lock_same)
  then show ?thesis using s5(2-4) by simp
qed

section \<open>Preemption\<close>

lemma kernel_walk_eq:
  assumes "chain (nx s) h ys"
  shows "\<exists>t. kernel_walk c h s = Some t \<and> (t = 0 \<or> t \<in> set ys \<and> t \<noteq> c)"
  using assms
proof (induction ys arbitrary: h)
  case Nil
  then show ?case by (subst kernel_walk.simps) simp
next
  case (Cons y ys)
  then have y: "h = y" "y \<noteq> 0" "chain (nx s) (sched_next (threads s y)) ys" by (auto simp: nx_def)
  then show ?case using Cons.IH [OF y(3)] by (subst kernel_walk.simps) auto
qed

lemma find_kernel_thread_eq:
  assumes "queues_rep R Z s" and "n \<le> 5"
  shows "\<exists>t. find_kernel_thread c n s = Some t \<and> (t = 0 \<or> (\<exists>p<5. t \<in> set (R p) \<and> t \<noteq> c))"
  using assms(2)
proof (induction n)
  case (Suc n)
  have "chain (nx s) (g_run_queues s n) (R n)" using assms(1) Suc.prems by (simp add: queues_rep_def dll_def)
  from kernel_walk_eq [OF this] obtain t where "kernel_walk c (g_run_queues s n) s = Some t" "t = 0 \<or> t \<in> set (R n) \<and> t \<noteq> c" by blast
  then show ?case using Suc by (cases "t = 0") (auto intro!: exI [of _ n])
qed simp

lemma unlink_thread_eq: "unlink_thread t s = clear_links t (unlink (priority (threads s t)) t s)"
  by (simp only: unlink_thread_def unlink_def clear_links_def Let_def)

lemma end_accounting_lock: "end_accounting c now (s\<lparr>g_scheduler_lock := l\<rparr>) = (end_accounting c now s)\<lparr>g_scheduler_lock := l\<rparr>"
  by (simp add: end_accounting_def Let_def scheduler_lock_commute)

lemma enqueue_lock: "scheduler_enqueue_nolock t (s\<lparr>g_scheduler_lock := l\<rparr>) = (scheduler_enqueue_nolock t s)\<lparr>g_scheduler_lock := l\<rparr>"
  by (simp add: scheduler_enqueue_nolock_def Let_def scheduler_lock_commute)

text \<open>The threads that change their places: \<open>n\<close> leaves its queue and \<open>c\<close> enters one.\<close>

lemma exchange_ok:
  assumes "queued R Z W s" and "running R Z W s" and "p < 5" and "n \<in> set (R p)"
  defines "c \<equiv> g_current_thread s"
  obtains R' s' where "s' = (let s = clear_links n (unlink p n s); s = end_accounting c now s
       in scheduler_enqueue_nolock c (thread_upd c (\<lambda>t. t\<lparr>th_state := THREAD_STATE_READY, wait_start_tick := now\<rparr>) s))"
    "th_state (threads (end_accounting c now (clear_links n (unlink p n s))) c) = THREAD_STATE_RUNNING"
    "queued R' Z W s'" "n \<notin> ready R' \<union> set Z \<union> waiting W" "insert n (ready R') = insert c (ready R)" "n \<noteq> 0" "priority (threads s' n) = p"
    "g_idle_thread s' = g_idle_thread s" "g_current_thread s' = c"
proof -
  note l = queued_locks [OF assms(1)]
  note d = queued_disjoint [OF assms(1)]
  obtain xs ys where R: "R p = xs @ n # ys" using split_list [OF assms(4)] by blast
  let ?R = "R(p := xs @ ys)" and ?s1 = "clear_links n (unlink p n s)"
  note u = unlink_rep [OF l(3) assms(3) R]
  note rd = ready_unlink [OF l(3) assms(3) R]
  have q1: "queued ?R Z W ?s1" by (rule relinked_queued [OF assms(1) u(4,1)]) (auto simp: R)
  note r = relinked_fields [OF u(4)]
  note cc = core_fields [OF r(13)]
  have c: "c \<notin> ready R" "c \<notin> set Z" "c \<notin> waiting W" "priority (threads s c) < 5" "th_state (threads s c) = THREAD_STATE_RUNNING"
    using assms(2) by (simp_all add: running_def Let_def c_def)
  have n: "n \<notin> ready ?R \<union> set Z \<union> waiting W" "n \<noteq> c" using rd d c(1) by blast+
  have cR: "c \<notin> ready ?R \<union> set Z \<union> waiting W" using rd c(1-3) by blast
  obtain f where f: "end_accounting c now ?s1 = thread_upd c f ?s1" "th_state (f (threads ?s1 c)) = th_state (threads ?s1 c)"
    "priority (f (threads ?s1 c)) = priority (settled (threads ?s1 c))" using end_accounting_eq [of c now ?s1] by blast
  have p1: "priority (f (threads ?s1 c)) < 5" using settled_priority c(4) cc(2) f(3) by simp
  let ?s2 = "thread_upd c f ?s1" and ?g = "\<lambda>t. t\<lparr>th_state := THREAD_STATE_READY, wait_start_tick := now\<rparr>"
  have q2: "queued ?R Z W (thread_upd c ?g ?s2)" by (rule queued_other [OF queued_other [OF q1 cR] cR]) (use p1 in simp_all)
  have p2: "priority (threads (thread_upd c ?g ?s2) c) < 5" using p1 by simp
  let ?q = "priority (threads (thread_upd c ?g ?s2) c)"
  obtain s3 where e: "scheduler_enqueue c (thread_upd c ?g ?s2) = Some s3" "queued (?R(?q := c # ?R ?q)) Z W s3"
    "ready (?R(?q := c # ?R ?q)) = insert c (ready ?R)"
    "relinked (thread_upd c ?g ?s2) ((threads (thread_upd c ?g ?s2))(c := (threads (thread_upd c ?g ?s2) c)\<lparr>th_state := THREAD_STATE_READY\<rparr>)) s3"
    by (rule enqueue_ok [OF q2 _ cR _ refl p2]) (use l(7) in \<open>simp_all add: c_def\<close>)
  have s3: "s3 = scheduler_enqueue_nolock c (thread_upd c ?g ?s2)" using e(1) enqueue_locked_eq queued_locks(1) [OF q2] by simp
  note r3 = relinked_fields [OF e(4)]
  have "core (threads s3 n) = core (threads s n)" using r3(13) [of n] r(13) [of n] n(2) by simp
  from core_fields(2) [OF this] have pn: "priority (threads s3 n) = p" using l(5) assms(3,4) by (auto simp: places_ok_def)
  show thesis
  proof (rule that [OF _ _ e(2)])
    show "n \<notin> ready (?R(?q := c # ?R ?q)) \<union> set Z \<union> waiting W" using n unfolding e(3) by blast
    show "insert n (ready (?R(?q := c # ?R ?q))) = insert c (ready R)" unfolding e(3) rd(2) by blast
    show "th_state (threads (end_accounting c now ?s1) c) = THREAD_STATE_RUNNING" using f(1,2) c(5) cc(1) by simp
    show "g_idle_thread s3 = g_idle_thread s" "g_current_thread s3 = c" using r3(4,5) r(4,5) by (simp_all add: c_def)
  qed (use s3 f(1) u(5) pn in simp_all)
qed

lemma preempt_switch_ok:
  assumes "queued R Z W s" and "running R Z W s" and "population R Z W s = P" and "p < 5" and "n \<in> set (R p)"
  shows "sched_ok P (snd (preempt_switch (g_current_thread s) n frame (s\<lparr>g_scheduler_lock := 1\<rparr>)))"
proof -
  let ?c = "g_current_thread s" and ?s1 = "clear_links n (unlink p n s)" and ?now = "ticks s"
  obtain R' s' where x: "s' = (let s = ?s1; s = end_accounting ?c ?now s
       in scheduler_enqueue_nolock ?c (thread_upd ?c (\<lambda>t. t\<lparr>th_state := THREAD_STATE_READY, wait_start_tick := ?now\<rparr>) s))"
    "th_state (threads (end_accounting ?c ?now ?s1) ?c) = THREAD_STATE_RUNNING"
    "queued R' Z W s'" "n \<notin> ready R' \<union> set Z \<union> waiting W" "insert n (ready R') = insert ?c (ready R)" "n \<noteq> 0" "priority (threads s' n) = p"
    "g_idle_thread s' = g_idle_thread s" "g_current_thread s' = ?c" by (rule exchange_ok [OF assms(1,2,4,5), of ?now])
  have pn: "priority (threads s n) = p" using queued_locks(5) [OF assms(1)] assms(4,5) by (auto simp: places_ok_def)
  have tk: "ticks ?s1 = ticks s" using unlink_rep(4) queued_locks(3) [OF assms(1)] assms(4) split_list [OF assms(5)] relinked_fields(9) by metis
  let ?f = "\<lambda>t. t\<lparr>run_start_tick := ?now, context_switches := context_switches t + 1\<rparr>"
  let ?s2 = "thread_upd n ?f s'"
  let ?s3 = "thread_upd n (\<lambda>t. t\<lparr>time_slice_remaining := scheduler_get_time_slice n ?s2, th_state := THREAD_STATE_RUNNING, preempt_pending := False\<rparr>) ?s2"
  have q3: "queued R' Z W ?s3" by (rule queued_other [OF queued_other [OF x(3,4)] x(4)]) (use x(7) assms(4) in simp_all)
  let ?s4 = "?s3\<lparr>g_current_thread := n\<rparr>"
  let ?s5 = "if th_owner (threads ?s4 n) = 0 \<and> rsp0 (threads ?s4 n) \<noteq> 0
               then ?s4\<lparr>cpu_ops := cpu_ops ?s4 @ [Tss_Set_Rsp0 (rsp0 (threads ?s4 n))]\<rparr> else ?s4"
  have "queued R' Z W ?s4" using q3 queued_locks(7) [OF q3] x(6) by simp
  moreover have "running R' Z W ?s4" using x(4,7) assms(4) by (simp add: running_def Let_def)
  moreover have "population R' Z W ?s4 = P" using x(5,8) assms(3) by (auto simp: population_def)
  ultimately have "sched_ok P ?s4" by (auto simp: sched_ok_def)
  then have "sched_ok P (thread_upd ?c (rsp_update (\<lambda>_. frame)) ?s5)" by (simp add: sched_ok_neutral neutral_def)
  moreover have "snd (preempt_switch ?c n frame (s\<lparr>g_scheduler_lock := 1\<rparr>)) = thread_upd ?c (rsp_update (\<lambda>_. frame)) ?s5"
  proof -
    have 1: "unlink_thread n (s\<lparr>g_scheduler_lock := 1\<rparr>) = ?s1\<lparr>g_scheduler_lock := 1\<rparr>"
      by (simp add: unlink_thread_eq unlink_lock scheduler_lock_commute pn)
    have 2: "ticks (?s1\<lparr>g_scheduler_lock := 1\<rparr>) = ?now" using tk by (simp add: ticks_def)
    obtain e where e: "end_accounting ?c ?now ?s1 = e" by blast
    have 3: "scheduler_enqueue_nolock ?c (thread_upd ?c (\<lambda>t. t\<lparr>th_state := THREAD_STATE_READY, wait_start_tick := ?now\<rparr>) (e\<lparr>g_scheduler_lock := 1\<rparr>)) = s'\<lparr>g_scheduler_lock := 1\<rparr>"
      using x(1) e by (simp add: scheduler_lock_commute enqueue_lock Let_def)
    have 4: "th_state (threads (e\<lparr>g_scheduler_lock := 1\<rparr>) ?c) = THREAD_STATE_RUNNING" using x(2) e by simp
    have 5: "scheduler_get_time_slice n (u\<lparr>g_scheduler_lock := 1\<rparr>) = scheduler_get_time_slice n u" for u by (simp add: scheduler_get_time_slice_def)
    show ?thesis
      unfolding preempt_switch_def Let_def 1 2 end_accounting_lock e 3 if_P [OF 4] unfolding scheduler_lock_commute 5
      using queued_locks(1) [OF x(3)] by (simp add: lock_same)
  qed
  ultimately show ?thesis by simp
qed

lemma preempt_ok:
  assumes "sched_ok P s"
  shows "yields (scheduler_preempt cs frame s) (\<lambda>r. sched_ok P (snd r))"
proof (cases "cs AND 3 = 3")
  case True
  then show ?thesis using assms by (simp add: scheduler_preempt_def)
next
  case False
  note d = sched_okD [OF assms]
  obtain s1 where s1: "scheduler_wake_sleeping s = Some s1" "sched_ok P s1" using sched_ok_wake [OF assms] by metis
  let ?c = "g_current_thread s1"
  let ?s2 = "if ?c \<noteq> g_idle_thread s1 \<and> time_slice_remaining (threads s1 ?c) > 0
                 then thread_upd ?c (\<lambda>t. t\<lparr>time_slice_remaining := time_slice_remaining t - 1\<rparr>) s1 else s1"
  have "sched_ok P ?s2" using s1(2) by (simp add: sched_ok_neutral neutral_def)
  then obtain s2 where s2: "s2 = ?s2" "sched_ok P s2" "g_current_thread s2 = ?c" by auto
  obtain R Z W where q: "queued R Z W s2" "running R Z W s2" "population R Z W s2 = P" using s2(2) by (auto simp: sched_ok_def)
  have "queues_rep R Z (s2\<lparr>g_scheduler_lock := 1\<rparr>)" using queued_locks(3) [OF q(1)] by simp
  from find_kernel_thread_eq [OF this, of 5 ?c] obtain n where
    n: "find_kernel_thread ?c THREAD_PRIORITY_COUNT (s2\<lparr>g_scheduler_lock := 1\<rparr>) = Some n" "n = 0 \<or> (\<exists>p<5. n \<in> set (R p))"
    by (auto simp: c_defs)
  have "sched_ok P (snd (preempt_switch ?c n frame (s2\<lparr>g_scheduler_lock := 1\<rparr>)))" if "n \<noteq> 0"
    using preempt_switch_ok [OF q] n(2) that s2(3) by auto
  then show ?thesis
    unfolding scheduler_preempt_def Let_def
    using d(3,4) False s1(1) s2(2) sched_okD(1) [OF s2(2)] n(1)
    by (simp add: s2(1) [symmetric] sched_ok_neutral neutral_def lock_same)
qed

lemma timer_ok:
  assumes "sched_ok P s"
  shows "yields (timer_handler_preempt cs frame s) (\<lambda>r. sched_ok P (snd r))"
proof -
  let ?s = "s\<lparr>sched_timer := (sched_timer s)\<lparr>g_timer_ticks := g_timer_ticks (sched_timer s) + 1\<rparr>, cpu_ops := cpu_ops s @ [Outb 0x20 0x20]\<rparr>"
  have "sched_ok P ?s" using assms by simp
  from tick_ok [OF this] show ?thesis
    using \<open>sched_ok P ?s\<close> preempt_ok by (fastforce simp: timer_handler_preempt_def Let_def yields_def)
qed

lemma sched_ok_schedule: "sched_ok P s \<Longrightarrow> yields (scheduler_schedule s) (sched_ok P)"
  using schedule_ok by (auto simp: sched_ok_def giving_up_def)

lemma preempt_enable_ok:
  assumes "sched_ok P s"
  shows "yields (preempt_enable s) (sched_ok P)"
  using assms by (auto simp: preempt_enable_def Let_def sched_ok_neutral neutral_def intro!: sched_ok_schedule)

section \<open>Wait queues\<close>

lemma queue_upd_fields [simp]:
  "threads (queue_upd q f s) = threads s" "queues (queue_upd q f s) = (queues s)(q := f (queues s q))"
  "g_scheduler_lock (queue_upd q f s) = g_scheduler_lock s" "g_current_thread (queue_upd q f s) = g_current_thread s"
  "g_idle_thread (queue_upd q f s) = g_idle_thread s" "queues_rep R Z (queue_upd q f s) = queues_rep R Z s"
  by (simp_all add: queue_upd_def)

text \<open>Between taking and releasing its lock, a queue differs only in the lock.\<close>

abbreviation held :: "queue_ptr \<Rightarrow> sched_state \<Rightarrow> sched_state" where
  "held q \<equiv> queue_upd q (wq_lock_update (\<lambda>_. 1))"

lemma queue_lock_held: "wq_lock (queues s q) = 0 \<Longrightarrow> queue_lock q s = Some (held q s)"
  by (simp add: queue_lock_def)

lemma queue_unlock_held: "wq_lock (queues s q) = 0 \<Longrightarrow> queue_unlock q (held q s) = s"
proof -
  assume "wq_lock (queues s q) = 0"
  then have "wq_lock_update spinlock_unlock (wq_lock_update (\<lambda>_. 1) (queues s q)) = queues s q" by (cases "queues s q") simp
  then show ?thesis by (simp add: queue_unlock_def queue_upd_def)
qed

lemma wq_commute:
  "wq_head_update g (wq_lock_update h w) = wq_lock_update h (wq_head_update g w)"
  "wq_tail_update g (wq_lock_update h w) = wq_lock_update h (wq_tail_update g w)"
  by (cases w; simp)+

lemma held_commute:
  "thread_upd t f (held q s) = held q (thread_upd t f s)"
  "queue_upd q (wq_head_update g) (held q s) = held q (queue_upd q (wq_head_update g) s)"
  "queue_upd q (wq_tail_update g) (held q s) = held q (queue_upd q (wq_tail_update g) s)"
  "run_queue_upd p t (held q s) = held q (run_queue_upd p t s)"
  by (simp_all add: thread_upd_def queue_upd_def run_queue_upd_def wq_commute)

lemma held_run_queues [simp]: "g_run_queues (queue_upd q f s) = g_run_queues s"
  by (simp add: queue_upd_def)

lemma held_wait:
  "wait_queue_enqueue_locked q t (held q s) = held q (wait_queue_enqueue_locked q t s)"
  "wait_queue_dequeue_locked q (held q s) = (fst (wait_queue_dequeue_locked q s), held q (snd (wait_queue_dequeue_locked q s)))"
  by (simp_all add: wait_queue_enqueue_locked_def wait_queue_dequeue_locked_def Let_def held_commute)

lemma held_enqueue: "g_scheduler_lock s = 0 \<Longrightarrow> scheduler_enqueue t (held q s) = map_option (held q) (scheduler_enqueue t s)"
  by (simp add: enqueue_locked_eq) (simp add: scheduler_enqueue_nolock_def Let_def held_commute)

lemma wait_enqueue_ok:
  fixes q :: queue_ptr
  assumes "queued R Z W s" and "running R Z W s" and "g_current_thread s = c" and "c \<noteq> g_idle_thread s"
  defines "s' \<equiv> thread_upd c (th_state_update (\<lambda>_. THREAD_STATE_BLOCKED)) (wait_queue_enqueue_locked q c s)"
  shows "queued R Z (W(q := W q @ [c])) s'" and "population R Z (W(q := W q @ [c])) s' = population R Z W s"
    and "g_current_thread s' = c"
proof -
  note l = queued_locks [OF assms(1)]
  have c: "c \<notin> ready R" "c \<notin> set Z" "c \<notin> waiting W" "priority (threads s c) < 5" "c \<noteq> 0"
    using assms(2,3) l(7) by (auto simp: running_def Let_def)
  let ?e = "wq_tail (queues s q)" and ?W = "W(q := W q @ [c])"
  have w: "chain (wn s) (wq_head (queues s q)) (W q)" "distinct (W q)" "?e = (if W q = [] then 0 else last (W q))" "wq_lock (queues s q) = 0"
    using l(4) by (simp_all add: waits_rep_def)
  have eW: "?e \<noteq> 0 \<longleftrightarrow> W q \<noteq> []" using w(1,3) seg_nonzero [OF w(1)] by (auto dest: last_in_set)
  have ec: "?e \<noteq> c" using w(3) c(3,5) eW by (auto simp: waiting_def dest!: last_in_set split: if_splits)
  have th: "threads s' = (if ?e \<noteq> 0 then (threads s)(c := (threads s c)\<lparr>wait_queue_next := 0, waiting_queue := Some q, th_state := THREAD_STATE_BLOCKED\<rparr>,
      ?e := (threads s ?e)\<lparr>wait_queue_next := c\<rparr>)
    else (threads s)(c := (threads s c)\<lparr>wait_queue_next := 0, waiting_queue := Some q, th_state := THREAD_STATE_BLOCKED\<rparr>))"
    using c(5) ec by (auto simp: s'_def wait_queue_enqueue_locked_def Let_def fun_eq_iff)
  have qs: "queues s' = (queues s)(q := (queues s q)\<lparr>wq_head := (if ?e \<noteq> 0 then wq_head (queues s q) else c), wq_tail := c\<rparr>)"
    using c(5) by (auto simp: s'_def wait_queue_enqueue_locked_def Let_def fun_eq_iff)
  have rest: "s' = s\<lparr>threads := threads s', queues := queues s'\<rparr>"
    using c(5) by (simp add: s'_def wait_queue_enqueue_locked_def Let_def thread_upd_def queue_upd_def)
  have wW: "waiting ?W = insert c (waiting W)" by (auto simp: waiting_def split: if_splits)
  have n: "nx s' = nx s" "pv s' = pv s" using ec unfolding nx_def pv_def th by auto
  have f: "g_run_queues s' = g_run_queues s" "g_sleep_queue s' = g_sleep_queue s" "g_idle_thread s' = g_idle_thread s" "g_current_thread s' = c"
    "env_ok s' = env_ok s"
    using assms(3) by (subst rest, simp add: env_ok_def cr3_ok_def)+
  have qr: "queues_rep R Z s'" using l(3) n f by (simp add: queues_rep_def)
  have wn: "wn s' = (if W q \<noteq> [] then (wn s)(c := 0, ?e := c) else (wn s)(c := 0))" using ec unfolding wn_def th eW by auto
  have "chain (wn s') (wq_head (queues s' r)) (?W r) \<and> distinct (?W r) \<and> wq_tail (queues s' r) = (if ?W r = [] then 0 else last (?W r)) \<and> wq_lock (queues s' r) = 0" for r
  proof (cases "r = q")
    case True
    have cq: "c \<notin> set (W q)" using c(3) by (auto simp: waiting_def)
    have "chain (wn s') (wq_head (queues s' q)) (W q @ [c])"
    proof (cases "W q = []")
      case False
      then show ?thesis using chain_append_last [OF w(1,2) cq c(5) False] w(3) eW unfolding wn qs by simp
    qed (use c(5) eW in \<open>simp add: wn qs\<close>)
    then show ?thesis using True cq w(2,4) qs by simp
  next
    case False
    then have "?e \<notin> set (W r) \<or> W q = []" "c \<notin> set (W r)"
      using l(6) w(3) c(3) by (fastforce simp: disj_waits_def waiting_def dest: last_in_set)+
    then have "wn s' x = wn s x" if "x \<in> set (W r)" for x using that by (auto simp: wn)
    then have "chain (wn s') h (W r) = chain (wn s) h (W r)" for h by (rule seg_cong)
    moreover have "chain (wn s) (wq_head (queues s r)) (W r) \<and> distinct (W r) \<and> wq_tail (queues s r) = (if W r = [] then 0 else last (W r)) \<and> wq_lock (queues s r) = 0"
      using l(4) by (simp only: waits_rep_def)
    ultimately show ?thesis using False by (simp only: qs fun_upd_apply if_False)
  qed
  then have wr: "waits_rep ?W s'" by (simp add: waits_rep_def)
  have st: "th_state (threads s' u) = (if u = c then THREAD_STATE_BLOCKED else th_state (threads s u))" "priority (threads s' u) = priority (threads s u)"
    "wake_tick (threads s' u) = wake_tick (threads s u)" for u using ec unfolding th by auto
  have "places_ok R Z W (threads s')" using l(5) c st by (subst places_cong [of _ _ _ _ "threads s"]) auto
  then have pl: "places_ok R Z ?W (threads s')" using st c(4) unfolding places_ok_def wW by auto
  have dw: "disj_waits (ready R \<union> set Z) ?W" using l(6) c wW by (auto simp: disj_waits_def waiting_def split: if_splits)
  show "queued R Z ?W s'" using assms(1,4) qr wr pl dw f(3,5) st(2) wW by (simp add: queued_def)
  show "population R Z ?W s' = population R Z W s" using f(3,4) assms(3) wW by (auto simp: population_def)
  show "g_current_thread s' = c" using f(4) .
qed

lemma waiting_upd: "waiting (W(q := xs)) = set xs \<union> (\<Union>r \<in> - {q}. set (W r))"
  by (auto simp: waiting_def split: if_splits)

lemma waiting_split: "waiting W = set (W q) \<union> (\<Union>r \<in> - {q}. set (W r))"
  using waiting_upd [of W q "W q"] by simp

lemma queue_upd_queued:
  assumes "queued R Z W s" and "waits_rep W' (queue_upd q f s)" and "\<And>r. set (W' r) \<subseteq> set (W r)"
  shows "queued R Z W' (queue_upd q f s)"
proof -
  have "waiting W' \<subseteq> waiting W" using assms(3) by (auto simp: waiting_def)
  moreover have "disj_waits (ready R \<union> set Z) W'"
    using queued_locks(6) [OF assms(1)] assms(3) calculation unfolding disj_waits_def by blast
  moreover have "places_ok R Z W' (threads s)" using queued_locks(5) [OF assms(1)] calculation(1) by (auto simp: places_ok_def)
  ultimately show ?thesis using assms(1,2) unfolding queued_def by (auto simp: env_ok_def cr3_ok_def queue_upd_def)
qed

lemma wait_dequeue_ok:
  assumes "queued R Z W s" and "W q = t # ts"
  obtains s' where "wait_queue_dequeue_locked q s = (t, s')" "queued R Z (W(q := ts)) s'" "t \<notin> ready R \<union> set Z \<union> waiting (W(q := ts))"
    "t \<noteq> 0" "priority (threads s' t) < 5" "th_state (threads s' t) = THREAD_STATE_BLOCKED" "kept {t} s s'" "waiting W = insert t (waiting (W(q := ts)))"
proof -
  note l = queued_locks [OF assms(1)]
  note d = queued_disjoint [OF assms(1)]
  have w: "chain (wn s) (wq_head (queues s q)) (W q)" "distinct (W q)" "wq_tail (queues s q) = (if W q = [] then 0 else last (W q))"
    using l(4) by (simp_all only: waits_rep_def)
  have t: "wq_head (queues s q) = t" "t \<noteq> 0" "chain (wn s) (wn s t) ts" "t \<notin> set ts" "distinct ts" using w(1,2) assms(2) by auto
  let ?f = "\<lambda>w. w\<lparr>wq_head := wn s t, wq_tail := (if ts = [] then 0 else wq_tail w)\<rparr>"
  let ?s = "queue_upd q ?f s"
  have z: "wn s t = 0 \<longleftrightarrow> ts = []" using t(3) chain_Nil_iff by blast
  have dq: "wait_queue_dequeue_locked q s = (t, thread_upd t (\<lambda>th. th\<lparr>wait_queue_next := 0, waiting_queue := None\<rparr>) ?s)"
    using t(1,2) z by (cases "ts = []") (simp_all add: wait_queue_dequeue_locked_def Let_def wn_def queue_upd_def)
  have "chain (wn s) (wq_head (queues ?s r)) ((W(q := ts)) r) \<and> distinct ((W(q := ts)) r) \<and>
    wq_tail (queues ?s r) = (if (W(q := ts)) r = [] then 0 else last ((W(q := ts)) r)) \<and> wq_lock (queues ?s r) = 0" for r
    using l(4) t(3,5) assms(2) by (cases "r = q") (simp_all add: waits_rep_def)
  then have "waits_rep (W(q := ts)) ?s" by (simp add: waits_rep_def wn_def)
  then have q1: "queued R Z (W(q := ts)) ?s" by (rule queue_upd_queued [OF assms(1)]) (use assms(2) in auto)
  have W: "waiting W = insert t (waiting (W(q := ts)))" using assms(2) waiting_split [of W q] waiting_upd [of W q] by simp
  have "t \<notin> set (W r)" if "r \<noteq> q" for r using l(6) assms(2) that by (fastforce simp: disj_waits_def)
  then have nt: "t \<notin> waiting (W(q := ts))" using t(4) waiting_upd [of W q] by auto
  have tp: "t \<notin> ready R \<union> set Z \<union> waiting (W(q := ts))" using nt d W by blast
  have "t \<in> waiting W" using W by blast
  then have p: "th_state (threads s t) = THREAD_STATE_BLOCKED" "priority (threads s t) < 5" using place_state(3,4) [OF assms(1)] by blast+
  let ?s' = "thread_upd t (\<lambda>th. th\<lparr>wait_queue_next := 0, waiting_queue := None\<rparr>) ?s"
  show thesis
  proof (rule that [OF dq _ tp t(2) _ _ _ W])
    show "queued R Z (W(q := ts)) ?s'" by (rule queued_other [OF q1 tp]) (use p in simp)
    show "kept {t} s ?s'" by (simp add: kept_def) (simp add: queue_upd_def)
  qed (use p in simp_all)
qed

text \<open>A thread that left its wait queue becomes ready.\<close>

lemma wake_ok:
  assumes "queued R Z W s" and "W q = t # ts" and "wait_queue_dequeue_locked q s = (t', s1)"
  obtains R' s' where "t' = t" "t \<noteq> 0" "scheduler_enqueue t (thread_upd t (th_state_update (\<lambda>_. THREAD_STATE_READY)) s1) = Some s'"
    "queued R' Z (W(q := ts)) s'" "ready R' = insert t (ready R)" "kept {t} s s'" "waiting W = insert t (waiting (W(q := ts)))"
    "g_scheduler_lock s1 = 0"
proof -
  obtain s0 where q: "wait_queue_dequeue_locked q s = (t, s0)" "queued R Z (W(q := ts)) s0" "t \<notin> ready R \<union> set Z \<union> waiting (W(q := ts))"
    "t \<noteq> 0" "priority (threads s0 t) < 5" "th_state (threads s0 t) = THREAD_STATE_BLOCKED" "kept {t} s s0" "waiting W = insert t (waiting (W(q := ts)))"
    by (rule wait_dequeue_ok [OF assms(1,2)])
  have s1: "t' = t" "s1 = s0" using q(1) assms(3) by simp_all
  let ?s = "thread_upd t (th_state_update (\<lambda>_. THREAD_STATE_READY)) s1" and ?p = "priority (threads s1 t)"
  have q1: "queued R Z (W(q := ts)) ?s" by (rule queued_other) (use q(2,3,5) s1(2) in simp_all)
  have p: "priority (threads ?s t) = ?p" "?p < 5" using q(5) s1(2) by simp_all
  obtain s' where e: "scheduler_enqueue t ?s = Some s'" "queued (R(?p := t # R ?p)) Z (W(q := ts)) s'"
    "ready (R(?p := t # R ?p)) = insert t (ready R)" "relinked ?s ((threads ?s)(t := (threads ?s t)\<lparr>th_state := THREAD_STATE_READY\<rparr>)) s'"
    by (rule enqueue_ok [OF q1 q(4,3) _ p]) simp
  have "kept {t} s1 s'" using kept_relinked [OF e(4), of "{t}"] by (auto simp: kept_def)
  then have "kept {t} s s'" using kept_trans [OF q(7)] s1(2) by fastforce
  then show thesis using that [OF s1(1) q(4) e(1-3) _ q(8)] queued_locks(1) [OF q(2)] s1(2) by simp
qed

lemma wake_all_loop_ok:
  assumes "queued R Z W s"
  shows "\<exists>R' s'. wake_all_loop q (held q s) = Some (held q s') \<and> queued R' Z (W(q := [])) s' \<and>
    ready R' \<union> waiting (W(q := [])) = ready R \<union> waiting W \<and> kept (set (W q)) s s'"
  using assms
proof (induction "W q" arbitrary: R W s)
  case Nil
  then have e: "W q = []" by simp
  have "chain (wn s) (wq_head (queues s q)) (W q)" using queued_locks(4) [OF Nil.prems] by (simp only: waits_rep_def)
  then have "wait_queue_dequeue_locked q (held q s) = (0, held q s)" using e by (simp add: wait_queue_dequeue_locked_def)
  then have "wake_all_loop q (held q s) = Some (held q s)" by (subst wake_all_loop.simps) simp
  moreover have "W(q := []) = W" using e by (simp add: fun_upd_idem)
  ultimately show ?case using Nil.prems by (intro exI [of _ R] exI [of _ s]) simp
next
  case (Cons t ts)
  obtain t' s1 where dq: "wait_queue_dequeue_locked q s = (t', s1)" by fastforce
  obtain R1 s2 where w: "t' = t" "t \<noteq> 0" "scheduler_enqueue t (thread_upd t (th_state_update (\<lambda>_. THREAD_STATE_READY)) s1) = Some s2"
    "queued R1 Z (W(q := ts)) s2" "ready R1 = insert t (ready R)" "kept {t} s s2" "waiting W = insert t (waiting (W(q := ts)))"
    "g_scheduler_lock s1 = 0" by (rule wake_ok [OF Cons.prems Cons.hyps(2) [symmetric] dq])
  have ts: "ts = (W(q := ts)) q" by simp
  obtain R' s' where i: "wake_all_loop q (held q s2) = Some (held q s')" "queued R' Z (W(q := [])) s'"
    "ready R' \<union> waiting (W(q := [])) = ready R1 \<union> waiting (W(q := ts))" "kept (set ts) s2 s'"
    using Cons.hyps(1) [OF ts w(4)] by auto
  have "wake_all_loop q (held q s) = wake_all_loop q (held q s2)"
    using dq w(1-3,8) by (subst wake_all_loop.simps) (simp add: held_wait held_commute held_enqueue Let_def)
  moreover have "kept (set (W q)) s s'" using kept_trans [OF w(6) i(4)] Cons.hyps(2) by (metis insert_is_Un list.simps(15))
  ultimately show ?case using i w(5,7) by (intro exI [of _ R'] exI [of _ s']) auto
qed

end
