(* ===== verification/Scheduler.thy ===== *)
theory Scheduler
  imports Thread_Steps
begin

text \<open>
  What the scheduler of \<^verbatim>\<open>kernel/thread.c\<close> guarantees, and what it does not: the properties over all
  sequences of its operations, the choice of the next thread, the work of the timer interrupt, and the
  two places where queues break or threads starve.
\<close>

section \<open>Waking and waiting\<close>

lemma wake_one_ok:
  assumes "sched_ok P s"
  shows "yields (wait_queue_wake_one queue s) (sched_ok P)"
proof (cases queue)
  case (Some q)
  obtain R Z W where q: "queued R Z W s" "running R Z W s" "population R Z W s = P" using assms by (auto simp: sched_ok_def)
  note lk = sched_okD(5) [OF assms, of q]
  obtain t s1 where dq: "wait_queue_dequeue_locked q s = (t, s1)" by fastforce
  show ?thesis
  proof (cases "W q")
    case Nil
    have "chain (wn s) (wq_head (queues s q)) (W q)" using queued_locks(4) [OF q(1)] by (simp only: waits_rep_def)
    then have "wait_queue_dequeue_locked q s = (0, s)" using Nil by (simp add: wait_queue_dequeue_locked_def)
    then show ?thesis using Some assms lk by (simp add: wait_queue_wake_one_def queue_lock_held held_wait queue_unlock_held)
  next
    case (Cons t0 ts)
    obtain R' s' where w: "t = t0" "t0 \<noteq> 0" "scheduler_enqueue t0 (thread_upd t0 (th_state_update (\<lambda>_. THREAD_STATE_READY)) s1) = Some s'"
      "queued R' Z (W(q := ts)) s'" "ready R' = insert t0 (ready R)" "kept {t0} s s'" "waiting W = insert t0 (waiting (W(q := ts)))"
      "g_scheduler_lock s1 = 0" by (rule wake_ok [OF q(1) Cons dq])
    have "wq_lock (queues s1 q) = 0"
      using dq lk by (auto simp: wait_queue_dequeue_locked_def Let_def split: if_splits)
    then have "wait_queue_wake_one queue s = Some s'"
      using Some lk dq w(1-3) by (simp add: wait_queue_wake_one_def queue_lock_held held_wait queue_unlock_held)
    moreover have "running R' Z (W(q := ts)) s'"
      by (rule kept_running [OF q(2) w(6)]) (use q(2) w(5,7) in \<open>auto simp: running_def Let_def\<close>)
    moreover have "population R' Z (W(q := ts)) s' = P" using q(3) w(5-7) by (auto simp: population_def kept_def)
    ultimately show ?thesis using w(4) by (auto simp: sched_ok_def)
  qed
qed (use assms in \<open>simp add: wait_queue_wake_one_def\<close>)

lemma wake_all_ok:
  assumes "sched_ok P s"
  shows "yields (wait_queue_wake_all queue s) (sched_ok P)"
proof (cases queue)
  case (Some q)
  obtain R Z W where q: "queued R Z W s" "running R Z W s" "population R Z W s = P" using assms by (auto simp: sched_ok_def)
  obtain R' s' where w: "wake_all_loop q (held q s) = Some (held q s')" "queued R' Z (W(q := [])) s'"
    "ready R' \<union> waiting (W(q := [])) = ready R \<union> waiting W" "kept (set (W q)) s s'" using wake_all_loop_ok [OF q(1)] by blast
  have "wq_lock (queues s' q) = 0" using queued_locks(4) [OF w(2)] by (simp add: waits_rep_def)
  then have "wait_queue_wake_all queue s = Some s'"
    using Some sched_okD(5) [OF assms] w(1) by (simp add: wait_queue_wake_all_def queue_lock_held queue_unlock_held)
  moreover have "running R' Z (W(q := [])) s'"
  proof (rule kept_running [OF q(2) w(4)])
    have "g_current_thread s \<notin> ready R \<union> set Z \<union> waiting W" using q(2) by (simp add: running_def Let_def)
    moreover have "set (W q) \<subseteq> waiting W" by (auto simp: waiting_def)
    ultimately show "g_current_thread s \<notin> set (W q) \<union> ready R' \<union> set Z \<union> waiting (W(q := []))" using w(3) by blast
  qed
  moreover have "population R' Z (W(q := [])) s' = P"
  proof -
    have "population R' Z (W(q := [])) s' = {g_idle_thread s, g_current_thread s} \<union> set Z \<union> (ready R' \<union> waiting (W(q := [])))"
      using w(4) by (auto simp: population_def kept_def)
    then show ?thesis unfolding w(3) q(3) [symmetric] population_def by blast
  qed
  ultimately show ?thesis using w(2) by (auto simp: sched_ok_def)
qed (use assms in \<open>simp add: wait_queue_wake_all_def\<close>)

lemma wait_done_ok: "sched_ok P s \<Longrightarrow> sched_ok P (snd (wait_done q t (held q s)))"
  using sched_okD(5) by (simp add: wait_done_def Let_def queue_unlock_held sched_ok_neutral neutral_def)

lemma wait_loop_ok:
  assumes "sched_ok P s" and "g_current_thread s = c" and "c \<noteq> g_idle_thread s"
  shows "yields (wait_loop q predicate c (held q s)) (\<lambda>r. sched_ok P (snd r))"
proof -
  obtain R Z W where q: "queued R Z W s" "running R Z W s" "population R Z W s = P" using assms(1) by (auto simp: sched_ok_def)
  let ?s = "thread_upd c (th_state_update (\<lambda>_. THREAD_STATE_BLOCKED)) (wait_queue_enqueue_locked q c s)" and ?W = "W(q := W q @ [c])"
  note e = wait_enqueue_ok [OF q(1,2) assms(2,3), of q]
  have "wq_lock (queues ?s q) = 0" using queued_locks(4) [OF e(1)] by (simp only: waits_rep_def)
  then have u: "queue_unlock q (held q ?s) = ?s" by (rule queue_unlock_held)
  have "c \<in> waiting ?W" by (auto simp: waiting_def)
  then have "giving_up R Z ?W ?s" using e(3) by (simp add: giving_up_def)
  from schedule_ok [OF e(1) this] have "yields (scheduler_schedule ?s) (sched_ok P)" unfolding e(2) q(3) .
  then obtain s' where "scheduler_schedule ?s = Some s'" "sched_ok P s'" by (rule yieldsE)
  then show ?thesis using u wait_done_ok [OF assms(1)]
    by (simp add: wait_loop_def held_wait held_commute Let_def split: option.splits)
qed

lemma wait_ok:
  assumes "sched_ok P s" and "g_current_thread s \<noteq> g_idle_thread s"
  shows "yields (wait_queue_wait_timeout queue predicate timeout s) (\<lambda>r. sched_ok P (snd r))"
proof (cases queue)
  case None
  then show ?thesis
    using sched_ok_schedule [OF assms(1)] sched_okD(3) [OF assms(1)] by (auto simp: wait_queue_wait_timeout_def thread_yield_def yields_def)
next
  case (Some q)
  let ?s = "thread_upd (g_current_thread s) (\<lambda>th. th\<lparr>timeout_tick := (if timeout > 0 then ticks s + ucast timeout else 0),
                   wait_result := 0, current_wait_queue := Some q\<rparr>) s"
  have "sched_ok P ?s" using assms(1) by (simp add: sched_ok_neutral neutral_def)
  from wait_loop_ok [OF this, of "g_current_thread s" q predicate]
  have "yields (wait_loop q predicate (g_current_thread s) (held q ?s)) (\<lambda>r. sched_ok P (snd r))" using assms(2) by simp
  moreover have "wait_queue_wait_timeout queue predicate timeout s = wait_loop q predicate (g_current_thread s) (held q ?s)"
    using Some sched_okD(4,5) [OF assms(1)] by (simp add: wait_queue_wait_timeout_def queue_lock_held Let_def)
  ultimately show ?thesis by (simp only:)
qed

lemma wait_resume_ok:
  assumes "sched_ok P s" and "g_current_thread s \<noteq> g_idle_thread s"
  shows "yields (wait_queue_wait_resume q predicate (g_current_thread s) s) (\<lambda>r. sched_ok P (snd r))"
  using wait_loop_ok [OF assms(1) refl assms(2)] wait_done_ok [OF assms(1)] sched_okD(5) [OF assms(1)]
  by (simp add: wait_queue_wait_resume_def queue_lock_held split: option.splits)

section \<open>All operations\<close>

text \<open>
  The operations of the scheduler. \<open>Resume\<close> is what a thread in \<open>wait_queue_wait_timeout\<close> does when it
  runs again. The idle thread never blocks.
\<close>

datatype sched_op =
    Yield | Sleep u64 | Timer_Interrupt u64 u64 | Preempt_Disable | Preempt_Enable
  | Wait "queue_ptr option" "(sched_state \<Rightarrow> bool) option" u32 | Resume queue_ptr "(sched_state \<Rightarrow> bool) option"
  | Wake_One "queue_ptr option" | Wake_All "queue_ptr option"

fun blocking :: "sched_op \<Rightarrow> bool" where
  "blocking (Sleep n) = True"
| "blocking (Wait q p ms) = True"
| "blocking (Resume q p) = True"
| "blocking _ = False"

definition may_run :: "sched_op \<Rightarrow> sched_state \<Rightarrow> bool" where
  "may_run op s \<longleftrightarrow> blocking op \<longrightarrow> g_current_thread s \<noteq> g_idle_thread s"

fun sched_do :: "sched_op \<Rightarrow> sched_state \<Rightarrow> sched_state option" where
  "sched_do Yield s = thread_yield s"
| "sched_do (Sleep n) s = thread_sleep_ticks n s"
| "sched_do (Timer_Interrupt cs frame) s = map_option snd (timer_handler_preempt cs frame s)"
| "sched_do Preempt_Disable s = Some (preempt_disable s)"
| "sched_do Preempt_Enable s = preempt_enable s"
| "sched_do (Wait q p ms) s = map_option snd (wait_queue_wait_timeout q p ms s)"
| "sched_do (Resume q p) s = map_option snd (wait_queue_wait_resume q p (g_current_thread s) s)"
| "sched_do (Wake_One q) s = wait_queue_wake_one q s"
| "sched_do (Wake_All q) s = wait_queue_wake_all q s"

inductive sched_reach :: "sched_state \<Rightarrow> sched_state \<Rightarrow> bool" for s0 where
  start: "sched_reach s0 s0"
| step: "sched_reach s0 s \<Longrightarrow> may_run op s \<Longrightarrow> sched_do op s = Some s' \<Longrightarrow> sched_reach s0 s'"

lemma sched_do_ok:
  assumes "sched_ok P s" and "may_run op s"
  shows "yields (sched_do op s) (sched_ok P)"
proof (cases op)
  case Preempt_Disable
  then show ?thesis using assms(1) by (simp add: preempt_disable_def sched_ok_neutral neutral_def)
qed (use assms in \<open>auto simp: may_run_def thread_yield_def intro!: yields_map
    sched_ok_schedule sleep_ok timer_ok preempt_enable_ok wait_ok wait_resume_ok wake_one_ok wake_all_ok\<close>)

lemma sched_reach_ok: "sched_reach s0 s \<Longrightarrow> sched_ok P s0 \<Longrightarrow> sched_ok P s"
  by (induction rule: sched_reach.induct) (auto simp: yields_def dest: sched_do_ok)

section \<open>The choice of the next thread\<close>

lemma yield_cases:
  assumes "queued R Z W s" and "running R Z W s"
  obtains (same) "thread_yield s = Some s" "chosen R (g_idle_thread s) = g_current_thread s" "ready R = {}"
  | (switch) R' Z' W' s' where "thread_yield s = Some s'" "g_current_thread s' = chosen R (g_idle_thread s)"
      "chosen R (g_idle_thread s) \<noteq> g_current_thread s" "queued R' Z' W' s'" "running R' Z' W' s'"
      "\<And>q. q < 5 \<Longrightarrow> R' q = switched R (g_current_thread s) (threads s (g_current_thread s)) q"
      "\<And>u. is_boosted (threads s' u) \<longleftrightarrow> u \<noteq> g_current_thread s \<and> is_boosted (threads s u)"
      "priority (threads s' (chosen R (g_idle_thread s))) = priority (threads s (chosen R (g_idle_thread s)))"
proof -
  let ?c = "g_current_thread s" and ?n = "chosen R (g_idle_thread s)"
  note l = queued_locks [OF assms(1)]
  have c: "?c \<notin> ready R" "?c \<notin> set Z" "?c \<noteq> 0" using assms(2) l(7) by (simp_all add: running_def Let_def)
  have e: "g_scheduler_active s" "cr3_ok s" using assms(1) by (simp_all add: queued_def env_ok_def)
  have ty: "thread_yield s = scheduler_schedule s" using e(1) by (simp add: thread_yield_def)
  show thesis
  proof (rule schedule_cases [OF l(3,1) e refl c(3,1) c(2) l(8)])
    show thesis if "scheduler_schedule s = Some s" "?n = ?c" "ready R = {}" using same that ty by simp
  next
    fix s'
    assume s': "scheduler_schedule s = Some s'" "?n \<noteq> ?c" "g_current_thread s' = ?n" "queues_rep (switched R ?c (threads s ?c)) Z s'"
      "priority (threads s' ?n) = priority (threads s ?n)" "\<And>u. is_boosted (threads s' u) \<longleftrightarrow> u \<noteq> ?c \<and> is_boosted (threads s u)"
    have "sched_ok (population R Z W s) s'"
      using sched_ok_schedule [of "population R Z W s" s] assms s'(1) by (auto simp: sched_ok_def)
    then obtain R' Z' W' where r: "queued R' Z' W' s'" "running R' Z' W' s'" by (auto simp: sched_ok_def)
    have "R' q = switched R ?c (threads s ?c) q" if "q < 5" for q
      using s'(4) queued_locks(3) [OF r(1)] that chain_unique unfolding queues_rep_def dll_def by blast
    then show thesis using switch [OF _ s'(3,2) r] s'(1,5,6) ty by simp
  qed
qed






section \<open>Changing a priority\<close>

lemma dequeue_head:
  assumes "g_scheduler_lock s = 0" and "t \<noteq> 0" and "u \<noteq> 0" and "u \<noteq> t" and "nx s t = u" and "pv s t = 0"
    and "g_run_queues s (queue_index (priority (threads s t))) \<noteq> t"
  shows "scheduler_dequeue t s = Some (clear_links t (thread_upd u (sched_prev_update (\<lambda>_. 0)) s))"
  using assms by (simp add: scheduler_dequeue_def scheduler_locked_def Let_def nx_def pv_def thread_upd_def clear_links_def lock_same)

lemma set_priority_links:
  assumes "queued R Z W s" and "p < 5" and "R p = t # u # us" and "pri < 5" and "pri \<noteq> p"
  obtains s' where "thread_set_priority t pri s = Some s'" "g_run_queues s' = (g_run_queues s)(pri := t)"
    "nx s' = (nx s)(t := g_run_queues s pri)" "g_run_queues s p = t"
proof -
  note l = queued_locks [OF assms(1)]
  have d: "dll (nx s) (pv s) (g_run_queues s p) (t # u # us)" using l(3) assms(2,3) by (auto simp: queues_rep_def)
  then have t: "g_run_queues s p = t" "t \<noteq> 0" "nx s t = u" "u \<noteq> 0" "u \<noteq> t" "pv s t = 0" by (auto simp: dll_def)
  have st: "th_state (threads s t) = THREAD_STATE_READY" "priority (threads s t) = p" using l(5) assms(2,3) by (auto simp: places_ok_def)
  have tp: "t \<notin> set (R pri)" using l(3) assms(2-5) unfolding queues_rep_def disj_queues_def by fastforce
  have "dll (nx s) (pv s) (g_run_queues s pri) (R pri)" using l(3) assms(4) by (simp add: queues_rep_def)
  then have h: "g_run_queues s pri \<noteq> t" using tp t(2) by (cases rule: dll_cases) auto
  let ?s1 = "thread_upd t (\<lambda>th. th\<lparr>priority := pri, base_priority := pri\<rparr>) s"
  let ?s2 = "clear_links t (thread_upd u (sched_prev_update (\<lambda>_. 0)) ?s1)"
  have i: "queue_index (priority (threads ?s1 t)) = pri" using assms(4) queue_index_id by simp
  have n1: "nx ?s1 = nx s" "pv ?s1 = pv s" by (auto simp: nx_def pv_def)
  have dq: "scheduler_dequeue t ?s1 = Some ?s2" by (rule dequeue_head) (use l(1) t h i n1 in simp_all)
  have f: "g_scheduler_lock ?s2 = 0" "th_state (threads ?s2 t) = THREAD_STATE_READY" "queue_index (priority (threads ?s2 t)) = pri"
    "g_run_queues ?s2 = g_run_queues s" "nx ?s2 = (nx s)(t := 0)"
    using l(1) st(1) t(5) queue_index_id [OF assms(4)] by (auto simp: clear_links_def nx_def)
  let ?s3 = "scheduler_enqueue_nolock t ?s2"
  have h2: "g_run_queues ?s2 (queue_index (priority (threads ?s2 t))) \<noteq> t" using f(3,4) h by simp
  have nr: "th_state (threads ?s2 t) \<noteq> THREAD_STATE_RUNNING" using f(2) by simp
  note e = enqueue_links [OF t(2) nr h2, unfolded f(3-5)]
  have "thread_set_priority t pri s = Some ?s3"
    using t(2) assms(4,5) st dq enqueue_locked_eq [OF f(1), of t] by (simp add: thread_set_priority_def c_defs Let_def)
  then show thesis using that e(1,3) t(1) by simp
qed

section \<open>An example\<close>

text \<open>
  Thread 1 is the idle thread, 2 runs, 3 and 4 are ready, 5 sleeps until tick 50 and 6 waits in a queue.
\<close>

definition thread_example :: thread where
  "thread_example = \<lparr>th_tid = 1, th_owner = 0, th_state = THREAD_STATE_READY, should_terminate = 0, exited = False, exit_status = 0,
     first_switch = False, rsp = 0, rsp0 = 0, base_priority = 2, priority = 2, time_slice_remaining = 10, nice = 0, is_boosted = False,
     wait_start_tick = 0, cpu_ticks = 0, context_switches = 0, run_start_tick = 0, wake_tick = 50, waiting_queue = None, wait_queue_next = 0,
     timeout_tick = 0, wait_result = 0, current_wait_queue = None, zombie_next = 0, needs_yield = False, sched_next = 0, sched_prev = 0,
     preempt_count = 0, preempt_pending = False\<rparr>"

definition sched_example :: sched_state where
  "sched_example = \<lparr>
     threads = (\<lambda>_. thread_example)(2 := thread_example\<lparr>th_state := THREAD_STATE_RUNNING\<rparr>, 3 := thread_example\<lparr>sched_next := 4\<rparr>,
       4 := thread_example\<lparr>sched_prev := 3\<rparr>, 5 := thread_example\<lparr>th_state := THREAD_STATE_SLEEPING\<rparr>,
       6 := thread_example\<lparr>th_state := THREAD_STATE_BLOCKED\<rparr>),
     queues = (\<lambda>_. \<lparr>wq_head = 0, wq_tail = 0, wq_lock = 0\<rparr>)(Queue_At 9 := \<lparr>wq_head = 6, wq_tail = 6, wq_lock = 0\<rparr>),
     proc_cr3 = (\<lambda>_. 0), g_current_thread = 2, g_run_queues = (\<lambda>_. 0)(2 := 3), g_scheduler_lock = 0, g_sleep_queue = 5, g_sleep_lock = 0,
     g_scheduler_active = True, g_idle_thread = 1, g_reaper_thread = 0, g_zombie_list = 0, kernel_cr3 = 0x1000,
     sched_timer = \<lparr>g_timer_ticks = 60, g_timer_frequency = 1000, g_boot_timestamp = 0, g_timer_scheduling_enabled = True\<rparr>, cpu_ops = []\<rparr>"

definition example_queues :: "nat \<Rightarrow> u64 list" where "example_queues = (\<lambda>_. [])(2 := [3, 4])"
definition example_waits :: "queue_ptr \<Rightarrow> u64 list" where "example_waits = (\<lambda>_. [])(Queue_At 9 := [6])"

lemma example_sets: "ready example_queues = {3, 4}" "waiting example_waits = {6}"
  by (auto simp: ready_def example_queues_def waiting_def example_waits_def split: if_splits)

lemma sched_example_queued: "queued example_queues [5] example_waits sched_example"
proof -
  let ?s = sched_example
  have "env_ok ?s" by (auto simp: env_ok_def cr3_ok_def sched_example_def)
  moreover have "queues_rep example_queues [5] ?s"
  proof -
    have "dll (nx ?s) (pv ?s) (g_run_queues ?s p) (example_queues p)" for p
      by (cases "p = 2") (simp_all add: dll_def nx_def pv_def sched_example_def example_queues_def thread_example_def)
    moreover have "chain (nx ?s) (g_sleep_queue ?s) [5]" by (simp add: nx_def sched_example_def thread_example_def)
    moreover have "disj_queues example_queues [5]" by (auto simp: disj_queues_def example_queues_def)
    ultimately show ?thesis by (simp add: queues_rep_def)
  qed
  moreover have "waits_rep example_waits ?s"
    by (auto simp: waits_rep_def wn_def sched_example_def example_waits_def thread_example_def)
  moreover have "disj_waits (ready example_queues \<union> set [5]) example_waits"
    unfolding disj_waits_def example_sets by (auto simp: example_waits_def)
  moreover have "places_ok example_queues [5] example_waits (threads ?s)"
    unfolding places_ok_def example_sets by (auto simp: sched_example_def thread_example_def example_queues_def)
  ultimately show ?thesis unfolding queued_def example_sets by (simp add: sched_example_def thread_example_def)
qed

lemma sched_example_running: "running example_queues [5] example_waits sched_example"
  unfolding running_def Let_def example_sets by (simp add: sched_example_def thread_example_def)

lemma sched_example_ok: "sched_ok {1, 2, 3, 4, 5, 6} sched_example"
proof -
  have "population example_queues [5] example_waits sched_example = {1, 2, 3, 4, 5, 6}"
    unfolding population_def example_sets by (auto simp: sched_example_def)
  then show ?thesis using sched_example_queued sched_example_running unfolding sched_ok_def by blast
qed

section \<open>Properties\<close>

text \<open>
  C5: However yields, sleeps, timer interrupts, waits and wake-ups of the scheduler follow each other, every
  operation returns, every queue stays well formed with each thread in exactly the place its state says,
  all locks are free, and no thread is lost.
\<close>
theorem scheduler_keeps_threads:
  assumes "sched_ok P s0" and "sched_reach s0 s" and "may_run op s"
  shows "sched_ok P s \<and> (\<exists>s'. sched_do op s = Some s' \<and> sched_ok P s')"
  using sched_reach_ok [OF assms(2,1)] sched_do_ok [OF _ assms(3)] by (auto simp: yields_def)

theorem scheduler_keeps_threads_witness:
  "\<exists>s'. sched_do (Wait (Some (Queue_At 9)) None 0) sched_example = Some s' \<and> sched_ok {1, 2, 3, 4, 5, 6} s'"
proof -
  have "may_run (Wait (Some (Queue_At 9)) None 0) sched_example" by (simp add: may_run_def sched_example_def)
  then show ?thesis using scheduler_keeps_threads [OF sched_example_ok sched_reach.start] by blast
qed

text \<open>
  C11: A thread that yields while others are ready hands the processor to the head of the highest run queue
  that is not empty, and becomes itself the head of the queue of its priority.
\<close>
theorem yield_runs_highest:
  assumes "queued R Z W s" and "running R Z W s" and "R p = t # ts" and "p < 5" and "\<forall>q<5. p < q \<longrightarrow> R q = []"
  shows "\<exists>s'. thread_yield s = Some s' \<and> g_current_thread s' = t \<and> th_state (threads s' t) = THREAD_STATE_RUNNING \<and>
    th_state (threads s' (g_current_thread s)) = THREAD_STATE_READY \<and>
    g_run_queues s' (return_queue (threads s (g_current_thread s))) = g_current_thread s"
proof -
  let ?c = "g_current_thread s" let ?q = "return_queue (threads s ?c)"
  have h: "highest R 5 = Some p" using assms(3-5) by (simp add: highest_Some)
  have ch: "chosen R (g_idle_thread s) = t" using h assms(3) by (simp add: chosen_def)
  have "t \<in> ready R" using assms(3,4) by (auto simp: ready_def intro!: bexI [of _ p])
  have run: "runnable (threads s ?c)" using assms(2) by (simp add: running_def runnable_def Let_def)
  have q5: "?q < 5" by (simp add: return_queue_def)
  show ?thesis
  proof (rule yield_cases [OF assms(1,2)])
    assume "ready R = {}" then show ?thesis using \<open>t \<in> ready R\<close> by blast
  next
    fix R' Z' W' s'
    assume s': "thread_yield s = Some s'" "g_current_thread s' = chosen R (g_idle_thread s)" "queued R' Z' W' s'" "running R' Z' W' s'"
      "\<And>q. q < 5 \<Longrightarrow> R' q = switched R ?c (threads s ?c) q"
    have R': "R' ?q = ?c # remaining R ?q" using s'(5) [OF q5] run by (simp add: switched_def)
    then have "?c \<in> set (R' ?q)" by simp
    then have "?c \<in> ready R'" using q5 unfolding ready_def by blast
    then have "th_state (threads s' ?c) = THREAD_STATE_READY" by (rule place_state(1) [OF s'(3)])
    moreover have "dll (nx s') (pv s') (g_run_queues s' ?q) (R' ?q)" using queued_locks(3) [OF s'(3)] q5 by (simp add: queues_rep_def)
    then have "g_run_queues s' ?q = ?c" using R' by (simp add: dll_def)
    ultimately show ?thesis using s'(1,2,4) ch by (auto simp: running_def Let_def)
  qed
qed

theorem yield_runs_highest_witness:
  "\<exists>s'. thread_yield sched_example = Some s' \<and> g_current_thread s' = 3 \<and> th_state (threads s' 2) = THREAD_STATE_READY"
proof -
  have "example_queues 2 = 3 # [4]" "\<forall>q<5. 2 < q \<longrightarrow> example_queues q = []" "g_current_thread sched_example = 2"
    by (simp_all add: example_queues_def sched_example_def)
  then show ?thesis using yield_runs_highest [OF sched_example_queued sched_example_running, of 2 3 "[4]"] by auto
qed

text \<open>
  C10: After every tick of the timer no thread sleeps past its wake-up time, and no ready thread below the
  highest priority has been waiting for 100 ticks or more without having been lifted there.
\<close>
theorem scheduler_tick_wakes_and_ages:
  assumes "sched_ok P s"
  shows "\<exists>s'. scheduler_tick s = Some s' \<and> sched_ok P s' \<and> (\<forall>t \<in> P - {g_idle_thread s'}.
    (th_state (threads s' t) = THREAD_STATE_SLEEPING \<longrightarrow> ticks s < wake_tick (threads s' t)) \<and>
    (th_state (threads s' t) = THREAD_STATE_READY \<and> \<not> is_boosted (threads s' t) \<and> priority (threads s' t) \<noteq> THREAD_PRIORITY_UI \<longrightarrow>
     ticks s - wait_start_tick (threads s' t) < THREAD_AGING_THRESHOLD))"
  using tick_ok [OF assms] by (fastforce simp: yields_def none_late_def none_starved_def aged_def not_le)

theorem scheduler_tick_wakes_and_ages_witness:
  "\<exists>s'. scheduler_tick sched_example = Some s' \<and> sched_ok {1, 2, 3, 4, 5, 6} s'"
  using scheduler_tick_wakes_and_ages [OF sched_example_ok] by blast



text \<open>
  C34: \<open>thread_set_priority\<close> on a ready thread at the head of a longer queue breaks the run queues: it
  remains the head of its old queue as well, and the threads behind it are in no queue any more.
\<close>
theorem thread_set_priority_loses_threads:
  assumes "queued R Z W s" and "R p = t # u # us" and "p < 5" and "pri < 5" and "pri \<noteq> p"
  shows "\<exists>s'. thread_set_priority t pri s = Some s' \<and> g_run_queues s' p = t \<and> g_run_queues s' pri = t \<and>
    (\<forall>q<5. \<exists>xs. chain (nx s') (g_run_queues s' q) xs \<and> set xs \<inter> set (u # us) = {}) \<and> (\<forall>R' Z' W'. \<not> queued R' Z' W' s')"
proof -
  note l = queued_locks [OF assms(1)]
  obtain s' where s': "thread_set_priority t pri s = Some s'" "g_run_queues s' = (g_run_queues s)(pri := t)"
    "nx s' = (nx s)(t := g_run_queues s pri)" "g_run_queues s p = t" by (rule set_priority_links [OF assms(1,3,2,4,5)])
  have c: "chain (nx s) (g_run_queues s q) (R q)" "distinct (R q)" if "q < 5" for q using l(3) that by (simp_all add: queues_rep_def dll_def)
  have dj: "set (R q) \<inter> set (t # u # us) = {}" if "q < 5" "q \<noteq> p" for q
    using l(3) assms(2,3) that unfolding queues_rep_def disj_queues_def by metis
  have t: "t \<noteq> 0" "set (t # R pri) \<inter> set (u # us) = {}" "t \<notin> set (R pri)" using c [OF assms(3)] dj [OF assms(4,5)] assms(2) by auto
  have "\<exists>xs. chain (nx s') (g_run_queues s' q) xs \<and> set xs \<inter> set (u # us) = {}" if "q < 5" for q
  proof (cases "q = p \<or> q = pri")
    case True
    then have "chain (nx s') (g_run_queues s' q) (t # R pri)" using c(1) [OF assms(4)] t s'(2-4) by auto
    then show ?thesis using t(2) by blast
  next
    case False
    then have "chain (nx s') (g_run_queues s' q) (R q)" using c(1) dj that s'(2,3) by auto
    then show ?thesis using dj [OF that] False by auto
  qed
  moreover have hd: "g_run_queues s' p = t" "g_run_queues s' pri = t" using s'(2,4) assms(5) by auto
  moreover have "\<not> queued R' Z' W' s'" for R' Z' W'
  proof
    assume "queued R' Z' W' s'"
    then have q: "queues_rep R' Z' s'" by (rule queued_locks)
    then have "chain (nx s') t (R' p)" "chain (nx s') t (R' pri)" using hd assms(3,4) by (auto simp: queues_rep_def dll_def)
    then have "t \<in> set (R' p)" "t \<in> set (R' pri)" using chain_hd t(1) by (metis list.set_intros(1))+
    then show False using q assms(3-5) unfolding queues_rep_def disj_queues_def by blast
  qed
  ultimately show ?thesis using s'(1) by blast
qed

theorem thread_set_priority_loses_threads_witness:
  "\<exists>s'. thread_set_priority 3 THREAD_PRIORITY_HIGH sched_example = Some s' \<and> (\<forall>R' Z' W'. \<not> queued R' Z' W' s')"
  using thread_set_priority_loses_threads [OF sched_example_queued, of 2 3 4 "[]" THREAD_PRIORITY_HIGH]
  by (auto simp: example_queues_def c_defs)



end
