(* ===== verification/Spec2Isabelle.thy ===== *)
theory Spec2Isabelle
  imports Vmm_Spaces Kheap Spinlock Cstring Icmp Dns Dhcp Net_Input Tcp_Calls Timer Scheduler
begin

text \<open>
  ALOS is a small kernel for x86-64, written in C. This library models its memory management, its
  scheduler and clock, its string library and its network stack as functions of HOL, and proves what
  makes them correct. Paths are relative to \<^verbatim>\<open>src/src\<close>.

  \<^bold>\<open>The parts and how they interact.\<close> The boot loader hands a memory map to the physical memory manager
  (\<^verbatim>\<open>mm/pmm.c\<close>), which gives out frames. The virtual memory manager (\<^verbatim>\<open>mm/vmm.c\<close>) builds page tables in
  these frames, and the kernel heap (\<^verbatim>\<open>mm/kheap.c\<close>) serves everybody else; both write to the same flat
  memory. The timer interrupt (\<^verbatim>\<open>kernel/timer.c\<close>) drives the scheduler (\<^verbatim>\<open>kernel/thread.c\<close>), whose wait
  queues block and wake threads. A frame that a network card received goes through \<^verbatim>\<open>net/l2/ethernet.c\<close> to
  ARP or IPv4, from there to ICMP, UDP and TCP, and from UDP to the DNS and DHCP clients; output takes the
  way back through the routing table and the ARP cache to the transmit hook of the interface. TCP keeps
  its socket table on the kernel heap. Spin locks guard the heap and the queues of the scheduler.

  \<^bold>\<open>Conventions.\<close> An integer of the source is a word of its width, so that arithmetic wraps as in C; \<^verbatim>\<open>int\<close>
  is used where the source has \<^verbatim>\<open>int\<close> and its values are bounded. A structure is a record, the
  static variables of a file are a record of states, an enumeration is a datatype, and a function of the
  source is a definition of the same name that takes and returns the state. \<^verbatim>\<open>None\<close> of an option type stands
  for behaviour that C leaves undefined (an access outside of an object, a dangling pointer) or for a call that
  does not return; an error that the code reports is a value. \<^verbatim>\<open>yields m Q\<close> says that \<^verbatim>\<open>m\<close> is defined and
  its result satisfies \<^verbatim>\<open>Q\<close>, so that every such theorem says that the call returns. Log messages are left out.

  \<^bold>\<open>The theories.\<close>
  \<^item> \<^verbatim>\<open>Alos_Prelude\<close>: words, checked array access, search and counting loops, \<^verbatim>\<open>yields\<close>. \<^verbatim>\<open>Memory\<close>: bytes and
    little-endian words in the flat memory. \<^verbatim>\<open>Linked\<close>: singly and doubly linked lists through fields of structures.
    \<^verbatim>\<open>Interfaces\<close>: the contracts between components as the locales \<^verbatim>\<open>bounded_fifo\<close>, \<^verbatim>\<open>frame_allocator\<close>,
    \<^verbatim>\<open>heap_allocator\<close> and \<^verbatim>\<open>lookup_cache\<close>, each with what follows for its clients; the theories of
    the providers interpret them on their definitions.
  \<^item> \<^verbatim>\<open>Pmm\<close> (\<^verbatim>\<open>mm/pmm.c\<close>): the bitmap, \<^verbatim>\<open>init_pmm_limine\<close>, \<^verbatim>\<open>pmm_alloc_block\<close>, \<^verbatim>\<open>pmm_alloc_blocks\<close> and the
    functions that free. The counter always agrees with the bitmap, allocation takes the lowest free block or run,
    exactly the usable memory above 1 MiB is free after initialisation, and no frame is handed out twice.
  \<^item> \<^verbatim>\<open>Vmm\<close> (\<^verbatim>\<open>mm/vmm.c\<close>), \<^verbatim>\<open>Page_Tables\<close>, \<^verbatim>\<open>Vmm_Correct\<close>, \<^verbatim>\<open>Vmm_Spaces\<close>: page tables as trees in memory and the
    walk of the hardware as their meaning. Mapping and unmapping change the meaning of one page of
    one address space; a new address space shares the part of the kernel; freeing one frees a table of the kernel.
  \<^item> \<^verbatim>\<open>Kheap\<close> (\<^verbatim>\<open>mm/kheap.c\<close>): \<^verbatim>\<open>kmalloc\<close>, \<^verbatim>\<open>kfree\<close>, \<^verbatim>\<open>krealloc\<close> and the statistics. They implement first fit
    with splitting and coalescing on the list of blocks; clients of the heap never see each other's bytes change.
  \<^item> \<^verbatim>\<open>Spinlock\<close> (in \<^verbatim>\<open>kernel/thread.h\<close>): mutual exclusion for any number of processors in any interleaving.
  \<^item> \<^verbatim>\<open>Timer\<close> (\<^verbatim>\<open>kernel/timer.c\<close>): ticks, the programming of the timer, the real-time clock and the calendar,
    which converts every Unix time to a date and back.
  \<^item> \<^verbatim>\<open>Thread\<close> (\<^verbatim>\<open>kernel/thread.c\<close>): the scheduler, sleeping, aging, preemption, wait queues, priorities,
    join and kill. \<^verbatim>\<open>Thread_Queues\<close> relates the links to lists, \<^verbatim>\<open>Thread_Switch\<close> treats \<^verbatim>\<open>scheduler_schedule\<close>,
    \<^verbatim>\<open>Thread_Correct\<close> sleeping, \<^verbatim>\<open>Thread_Aging\<close> the aging pass, and \<^verbatim>\<open>Thread_Steps\<close> the interrupt
    and the wait queues. \<^verbatim>\<open>Scheduler\<close> has the properties: no sequence of operations loses a thread or
    is stuck, the timer wakes sleepers in time and lifts threads that wait too long; and three places
    where the code lets threads starve, loses them, or never lets them return.
  \<^item> \<^verbatim>\<open>Cstring\<close> (\<^verbatim>\<open>lib/string.c\<close>): every function, over byte buffers with checked bounds.
  \<^item> \<^verbatim>\<open>Net_Base\<close> (\<^verbatim>\<open>net/utils.h\<close>, \<^verbatim>\<open>net/core\<close>), \<^verbatim>\<open>Arp\<close>, \<^verbatim>\<open>Route\<close>, \<^verbatim>\<open>Ipv4\<close>, \<^verbatim>\<open>Udp\<close>: the lower layers and the output
    path. \<^verbatim>\<open>Icmp\<close>, \<^verbatim>\<open>Dns\<close>, \<^verbatim>\<open>Dhcp\<close>: these protocols with their handlers. \<^verbatim>\<open>Tcp\<close>, \<^verbatim>\<open>Tcp_Correct\<close>, \<^verbatim>\<open>Tcp_Calls\<close>
    (\<^verbatim>\<open>net/l4/tcp.c\<close>): segments, the state machine and the socket interface with the invariant of the
    socket table. \<^verbatim>\<open>Net_Input\<close>: the input path, and messages that travel through the stacks of two hosts.

  \<^bold>\<open>Loops and bounds.\<close> Loops over a range or a buffer are structurally recursive or have a termination
  proof. Walks along lists in memory, which a corrupted list would never leave, are partial functions; that
  they return under the invariant is part of the theorems. The heap coalesces at most 10000 blocks in one pass, as in
  the source, and \<^verbatim>\<open>kfree_coalesces\<close> has this bound as a hypothesis. Waiting loops take what happens in the
  meantime as an argument: \<^verbatim>\<open>ping_ip\<close> is shown to return after at most 60 halts whatever that is. There is no
  other fuel.

  \<^bold>\<open>Concurrency.\<close> The kernel runs on one processor, and the modelled operations mask interrupts or hold a
  lock; an operation of the scheduler is one step up to the context switch, and what a thread does
  after it is scheduled again is a step of its own. \<^verbatim>\<open>scheduler_keeps_threads\<close> is about all sequences of these
  steps. A lock that is already held makes an operation \<^verbatim>\<open>None\<close>, so that the theorems exclude it.

  \<^bold>\<open>Not modelled.\<close> Parts of modelled files: creating and ending threads (\<^verbatim>\<open>thread_create\<close>, \<^verbatim>\<open>thread_exit\<close>,
  \<^verbatim>\<open>scheduler_init\<close> and the reaper in \<^verbatim>\<open>kernel/thread.c\<close>), which build stacks in the format of the assembly
  code; the detection and polling of devices in \<^verbatim>\<open>net/core\<close>; the continuous ping of \<^verbatim>\<open>net/l3/icmp.c\<close>, which reads
  the keyboard; and functions that only print. Whole parts: \<^verbatim>\<open>kernel/sync.c\<close>, \<^verbatim>\<open>kernel/process.c\<close>,
  \<^verbatim>\<open>kernel/syscall.c\<close>, \<^verbatim>\<open>kernel/elf.c\<close>, \<^verbatim>\<open>kernel/workqueue.c\<close>, the file systems in \<^verbatim>\<open>fs\<close>, \<^verbatim>\<open>config\<close>, the HTTP
  client and server, and the shell build on files, user processes or mutexes that have no model here.
  The drivers, the processor support in \<^verbatim>\<open>arch\<close>, the keyboard, mouse and console, and the graphical
  interface talk to devices whose behaviour is not in the sources; the font files are data. Where modelled code
  calls such a part, its effect is recorded (frames sent, instructions executed, queues woken) or is a
  parameter (the registers of the clock, what a driver accepts).
\<close>

end
